(* ===== verification/Prelude.thy ===== *)
theory Prelude
  imports Complex_Main "HOL-Library.Word" "HOL-Library.While_Combinator" "HOL-Library.Multiset"
    "HOL-Library.Log_Nat"
begin

unbundle bit_operations_syntax

text \<open>
  The language of the model: a C function that reads and writes memory is a state
  transformer that returns a value and the new memory, or stops. This theory holds the
  ways a run stops, the sequencing operators, the memory primitives (load, store,
  allocate, free), the C \<open>while\<close> loop, and the calculus \<open>runs_to\<close> in which the
  components are verified.
\<close>

section \<open>Programs\<close>

text \<open>
  \<open>Undefined\<close> is C's undefined behaviour (a null, dangling or out-of-range access, a
  double free, a read of an indeterminate value). \<open>Blocked\<close> is a semaphore or lock that
  the running thread waits for and that no other thread of the model can release.
  \<open>Diverges\<close> is a loop that never ends, \<open>StackOverflow\<close> a recursion deeper than the
  stack, and \<open>Exit n\<close> a call of \<open>exit(n)\<close>.
\<close>

datatype stop = Undefined | Blocked | Diverges | StackOverflow | Exit int

type_synonym ('s, 'a) prog = "'s \<Rightarrow> stop + ('a \<times> 's)"

definition ret :: "'a \<Rightarrow> ('s, 'a) prog" where
  "ret x = (\<lambda>s. Inr (x, s))"

definition halt :: "stop \<Rightarrow> ('s, 'a) prog" where
  "halt e = (\<lambda>s. Inl e)"

definition bnd :: "('s, 'a) prog \<Rightarrow> ('a \<Rightarrow> ('s, 'b) prog) \<Rightarrow> ('s, 'b) prog" where
  "bnd m f = (\<lambda>s. case m s of Inl e \<Rightarrow> Inl e | Inr (x, s') \<Rightarrow> f x s')"

text \<open>\<open>seq\<close> sequences two statements, \<open>whenM\<close> is an \<open>if\<close> without an \<open>else\<close>.\<close>

definition seq :: "('s, unit) prog \<Rightarrow> ('s, 'b) prog \<Rightarrow> ('s, 'b) prog" where
  "seq m k = bnd m (\<lambda>_. k)"

definition whenM :: "bool \<Rightarrow> ('s, unit) prog \<Rightarrow> ('s, unit) prog" where
  "whenM b m = (if b then m else ret ())"

definition gets :: "('s \<Rightarrow> 'a) \<Rightarrow> ('s, 'a) prog" where
  "gets f = (\<lambda>s. Inr (f s, s))"

definition modifies :: "('s \<Rightarrow> 's) \<Rightarrow> ('s, unit) prog" where
  "modifies f = (\<lambda>s. Inr ((), f s))"

text \<open>The monad laws, to unfold a loop into the statements around it.\<close>

named_theorems monad_laws \<open>associativity and unit laws of \<open>bnd\<close> and \<open>seq\<close>\<close>

lemma bnd_assoc [monad_laws]: "bnd (bnd m f) g = bnd m (\<lambda>x. bnd (f x) g)"
  by (auto simp: bnd_def fun_eq_iff split: sum.splits)

lemma bnd_ret [monad_laws]: "bnd (ret x) f = f x"
  by (simp add: bnd_def ret_def fun_eq_iff)

lemma bnd_seq [monad_laws]: "bnd (seq m k) f = seq m (bnd k f)"
  by (simp add: seq_def bnd_assoc)

lemma seq_seq [monad_laws]: "seq (seq m k) j = seq m (seq k j)"
  by (simp add: seq_def bnd_assoc)

lemma seq_bnd [monad_laws]: "seq (bnd m f) k = bnd m (\<lambda>x. seq (f x) k)"
  by (simp add: seq_def bnd_assoc)

lemma bnd_unit [monad_laws]: "bnd m (f :: unit \<Rightarrow> _) = seq m (f ())"
  by (simp add: seq_def)

lemma seq_ret [monad_laws]: "seq (ret ()) k = k"
  by (simp add: seq_def bnd_ret)

lemma bnd_if [monad_laws]: "bnd (if b then m else k) f = (if b then bnd m f else bnd k f)"
  by simp

lemma seq_if [monad_laws]: "seq (if b then m else k) f = (if b then seq m f else seq k f)"
  by simp

section \<open>Typed memory\<close>

text \<open>
  Objects of one C type live in one partial map from addresses; address 0 is \<open>NULL\<close>. A
  primitive takes the map's selector and update function. An access to an address that
  holds no object of the type is undefined; \<open>free(NULL)\<close> does nothing.
\<close>

type_synonym addr = nat

abbreviation NULL :: addr where
  "NULL \<equiv> 0"

text \<open>A null test stays in the form \<open>p \<noteq> NULL\<close>.\<close>

declare neq0_conv [iff del] bot_nat_0.not_eq_extremum [simp del]

definition load :: "('s \<Rightarrow> addr \<rightharpoonup> 'o) \<Rightarrow> addr \<Rightarrow> ('s, 'o) prog" where
  "load sel p = (\<lambda>s. case sel s p of None \<Rightarrow> Inl Undefined | Some v \<Rightarrow> Inr (v, s))"

definition store :: "('s \<Rightarrow> addr \<rightharpoonup> 'o) \<Rightarrow> (((addr \<rightharpoonup> 'o) \<Rightarrow> (addr \<rightharpoonup> 'o)) \<Rightarrow> 's \<Rightarrow> 's) \<Rightarrow>
    addr \<Rightarrow> ('o \<Rightarrow> 'o) \<Rightarrow> ('s, unit) prog" where
  "store sel upd p f =
     (\<lambda>s. case sel s p of
        None \<Rightarrow> Inl Undefined
      | Some v \<Rightarrow> Inr ((), upd (\<lambda>_. (sel s)(p \<mapsto> f v)) s))"

definition dealloc :: "('s \<Rightarrow> addr \<rightharpoonup> 'o) \<Rightarrow> (((addr \<rightharpoonup> 'o) \<Rightarrow> (addr \<rightharpoonup> 'o)) \<Rightarrow> 's \<Rightarrow> 's) \<Rightarrow>
    addr \<Rightarrow> ('s, unit) prog" where
  "dealloc sel upd p =
     (\<lambda>s. if p = NULL then Inr ((), s)
      else case sel s p of
        None \<Rightarrow> Inl Undefined
      | Some v \<Rightarrow> Inr ((), upd (\<lambda>_. (sel s)(p := None)) s))"

text \<open>
  \<open>below m n\<close>: the objects of the map \<open>m\<close> have addresses that the first \<open>n\<close>
  allocations handed out.
\<close>

definition below :: "(addr \<rightharpoonup> 'o) \<Rightarrow> nat \<Rightarrow> bool" where
  "below m n \<longleftrightarrow> (\<forall>a v. m a = Some v \<longrightarrow> a \<noteq> NULL \<and> a \<le> n)"

lemma below_empty [simp]: "below Map.empty n"
  by (simp add: below_def)

lemma below_mono: "below m n \<Longrightarrow> n \<le> k \<Longrightarrow> below m k"
  by (fastforce simp: below_def)

lemma below_Suc [simp]: "below m n \<Longrightarrow> below m (Suc n)"
  by (erule below_mono) simp

lemma below_upd [simp]: "below m n \<Longrightarrow> a \<noteq> NULL \<Longrightarrow> a \<le> n \<Longrightarrow> below (m(a \<mapsto> v)) n"
  by (simp add: below_def)

lemma below_upd_Suc [simp]: "below m n \<Longrightarrow> below (m(Suc n \<mapsto> v)) (Suc n)"
  by (rule below_upd) simp_all

lemma below_bound: "below m n \<Longrightarrow> m a = Some v \<Longrightarrow> a \<noteq> NULL \<and> a \<le> n"
  by (simp add: below_def)

lemma below_upd_old [simp]: "below m n \<Longrightarrow> m a = Some w \<Longrightarrow> below (m(a \<mapsto> v)) n"
  by (frule (1) below_bound) simp

lemma below_delete [simp]: "below m n \<Longrightarrow> below (m(a := None)) n"
  by (simp add: below_def)

lemma below_fresh: "below m n \<Longrightarrow> n < a \<Longrightarrow> m a = None"
  by (metis below_bound not_None_eq linorder_not_le)

lemma below_nonnull: "below m n \<Longrightarrow> m NULL = None"
  by (metis below_bound not_None_eq)

section \<open>The while loop\<close>

text \<open>
  \<open>whileM c b v\<close> is \<open>while (c) b\<close> where \<open>v\<close> holds the loop's local variables: the
  condition may read and write memory, the body returns the new locals. A run of the loop
  is a sequence of configurations, \<open>Inl (v, s)\<close> while it runs and \<open>Inr r\<close> once it has
  left the loop or stopped; \<open>while_option\<close> returns \<open>None\<close> exactly when the loop never
  ends.
\<close>

definition while_step :: "('v \<Rightarrow> ('s, bool) prog) \<Rightarrow> ('v \<Rightarrow> ('s, 'v) prog) \<Rightarrow>
    ('v \<times> 's) + (stop + ('v \<times> 's)) \<Rightarrow> ('v \<times> 's) + (stop + ('v \<times> 's))" where
  "while_step c b cf =
     (case cf of
        Inr r \<Rightarrow> Inr r
      | Inl (v, s) \<Rightarrow>
          (case c v s of
             Inl e \<Rightarrow> Inr (Inl e)
           | Inr (go, s') \<Rightarrow>
               if go then (case b v s' of Inl e \<Rightarrow> Inr (Inl e) | Inr (v', s'') \<Rightarrow> Inl (v', s''))
               else Inr (Inr (v, s'))))"

definition whileM :: "('v \<Rightarrow> ('s, bool) prog) \<Rightarrow> ('v \<Rightarrow> ('s, 'v) prog) \<Rightarrow> 'v \<Rightarrow> ('s, 'v) prog" where
  "whileM c b v =
     (\<lambda>s. case while_option isl (while_step c b) (Inl (v, s)) of
        None \<Rightarrow> Inl Diverges
      | Some (Inl _) \<Rightarrow> Inl Diverges
      | Some (Inr r) \<Rightarrow> r)"

lemma whileM_unfold:
  "whileM c b v = bnd (c v) (\<lambda>go. if go then bnd (b v) (whileM c b) else ret v)"
proof
  fix s
  have w: "while_option isl (while_step c b) (Inr r) = Some (Inr r)" for r
    by (simp add: while_option_unfold)
  show "whileM c b v s = bnd (c v) (\<lambda>go. if go then bnd (b v) (whileM c b) else ret v) s"
    by (simp add: whileM_def [of c b v] while_option_unfold [of isl _ "Inl (v, s)"] bnd_def
        ret_def while_step_def [of c b "Inl (v, s)"] w split: sum.splits prod.splits)
      (simp add: whileM_def)
qed

section \<open>Total correctness\<close>

text \<open>
  \<open>runs_to m s Q\<close>: from memory \<open>s\<close> the program \<open>m\<close> returns, and its value and the
  memory it leaves satisfy \<open>Q\<close>. It excludes every way to stop, so it is a statement of
  memory safety and of termination as well.
\<close>

definition runs_to :: "('s, 'a) prog \<Rightarrow> 's \<Rightarrow> ('a \<Rightarrow> 's \<Rightarrow> bool) \<Rightarrow> bool" where
  "runs_to m s Q = (case m s of Inl e \<Rightarrow> False | Inr (x, s') \<Rightarrow> Q x s')"

named_theorems wp \<open>rewrite rules that compute \<open>runs_to\<close>\<close>

lemma runs_to_ret [wp]: "runs_to (ret x) s Q = Q x s"
  by (simp add: runs_to_def ret_def)

lemma runs_to_halt [wp]: "runs_to (halt e) s Q = False"
  by (simp add: runs_to_def halt_def)

lemma runs_to_bnd [wp]: "runs_to (bnd m f) s Q = runs_to m s (\<lambda>x s'. runs_to (f x) s' Q)"
  by (simp add: runs_to_def bnd_def split: sum.splits prod.splits)

lemma runs_to_seq [wp]: "runs_to (seq m k) s Q = runs_to m s (\<lambda>_ s'. runs_to k s' Q)"
  by (simp add: seq_def wp)

lemma runs_to_whenM [wp]: "runs_to (whenM b m) s Q = (if b then runs_to m s Q else Q () s)"
  by (simp add: whenM_def wp)

lemma runs_to_gets [wp]: "runs_to (gets f) s Q = Q (f s) s"
  by (simp add: runs_to_def gets_def)

lemma runs_to_modifies [wp]: "runs_to (modifies f) s Q = Q () (f s)"
  by (simp add: runs_to_def modifies_def)

lemma runs_to_if [wp]:
  "runs_to (if b then m else k) s Q = (if b then runs_to m s Q else runs_to k s Q)"
  by simp

lemma runs_to_load [wp]:
  "runs_to (load sel p) s Q = (case sel s p of None \<Rightarrow> False | Some v \<Rightarrow> Q v s)"
  by (simp add: runs_to_def load_def split: option.splits)

lemma runs_to_store [wp]:
  "runs_to (store sel upd p f) s Q =
     (case sel s p of None \<Rightarrow> False | Some v \<Rightarrow> Q () (upd (\<lambda>_. (sel s)(p \<mapsto> f v)) s))"
  by (simp add: runs_to_def store_def split: option.splits)

lemma runs_to_dealloc [wp]:
  "runs_to (dealloc sel upd p) s Q =
     (if p = NULL then Q () s
      else case sel s p of None \<Rightarrow> False | Some v \<Rightarrow> Q () (upd (\<lambda>_. (sel s)(p := None)) s))"
  by (simp add: runs_to_def dealloc_def split: option.splits)

lemma runs_to_mono:
  "runs_to m s P \<Longrightarrow> (\<And>x s'. P x s' \<Longrightarrow> Q x s') \<Longrightarrow> runs_to m s Q"
  by (auto simp: runs_to_def split: sum.splits)

lemma runs_to_conj: "runs_to m s P \<Longrightarrow> runs_to m s Q \<Longrightarrow> runs_to m s (\<lambda>x s'. P x s' \<and> Q x s')"
  by (auto simp: runs_to_def split: sum.splits)

lemma runs_toE:
  assumes "runs_to m s Q"
  obtains x s' where "m s = Inr (x, s')" and "Q x s'"
  using assms by (auto simp: runs_to_def split: sum.splits)

lemma runs_toI: "m s = Inr (x, s') \<Longrightarrow> Q x s' \<Longrightarrow> runs_to m s Q"
  by (simp add: runs_to_def)

lemma runs_to_iff: "runs_to m s Q \<longleftrightarrow> (\<exists>x s'. m s = Inr (x, s') \<and> Q x s')"
  by (auto simp: runs_to_def split: sum.splits)

text \<open>
  A loop runs to its end when an invariant indexed by a variant holds and each iteration
  decreases the variant; the variant may be a function of the loop's locals and memory.
\<close>

lemma runs_to_whileM_variant:
  assumes step: "\<And>k v s. I k v s \<Longrightarrow> runs_to (c v) s (\<lambda>go s'.
      if go then runs_to (b v) s' (\<lambda>v' s''. \<exists>j < (k :: nat). I j v' s'') else Q v s')"
    and start: "I k v s"
  shows "runs_to (whileM c b v) s Q"
  using start
proof (induction k arbitrary: v s rule: less_induct)
  case (less k)
  show ?case
  proof (subst whileM_unfold, simp only: wp, rule runs_to_mono [OF step [OF less.prems]])
    fix go s'
    assume h: "if go then runs_to (b v) s' (\<lambda>v' s''. \<exists>j < k. I j v' s'') else Q v s'"
    show "if go then runs_to (b v) s' (\<lambda>x s'. runs_to (whileM c b x) s' Q) else Q v s'"
    proof (cases go)
      case True
      with h have "runs_to (b v) s' (\<lambda>v' s''. \<exists>j < k. I j v' s'')" by simp
      then have "runs_to (b v) s' (\<lambda>x s'. runs_to (whileM c b x) s' Q)"
        by (rule runs_to_mono) (blast intro: less.IH)
      with True show ?thesis by simp
    qed (use h in simp)
  qed
qed

lemma runs_to_whileM:
  assumes step: "\<And>v s. I v s \<Longrightarrow> runs_to (c v) s (\<lambda>go s'.
      if go then runs_to (b v) s' (\<lambda>v' s''. I v' s'' \<and> m v' s'' < (m v s :: nat)) else Q v s')"
    and start: "I v s"
  shows "runs_to (whileM c b v) s Q"
proof (rule runs_to_whileM_variant [where I = "\<lambda>k v s. I v s \<and> k = m v s"])
  show "I v s \<and> m v s = m v s" using start by simp
next
  fix k v s
  assume I: "I v s \<and> k = m v s"
  show "runs_to (c v) s (\<lambda>go s'.
      if go then runs_to (b v) s' (\<lambda>v' s''. \<exists>j < k. I v' s'' \<and> j = m v' s'') else Q v s')"
    using step [of v s] I by (auto elim!: runs_to_mono split: if_splits)
qed

text \<open>A program that stops after a first part that runs to its end.\<close>

lemma bnd_stops: "runs_to m s (\<lambda>x s'. f x s' = Inl e) \<Longrightarrow> bnd m f s = Inl e"
  by (auto simp: runs_to_def bnd_def split: sum.splits)

text \<open>A loop that keeps an invariant under which its condition holds never ends.\<close>

lemma whileM_diverges:
  assumes step: "\<And>v s. I v s \<Longrightarrow> runs_to (c v) s (\<lambda>go s'. go \<and> runs_to (b v) s' I)"
    and start: "I v s"
  shows "whileM c b v s = Inl Diverges"
proof -
  let ?P = "\<lambda>cf. \<exists>v s. cf = Inl (v, s) \<and> I v s"
  have "?P (while_step c b cf)" if "?P cf" for cf
    using that step by (fastforce simp: while_step_def runs_to_iff)
  then have "False" if "while_option isl (while_step c b) (Inl (v, s)) = Some t" for t
    using while_option_rule [of ?P, OF _ that] while_option_stop [OF that] start by fastforce
  then show ?thesis by (simp add: whileM_def split: option.splits) blast
qed

text \<open>Evaluation of programs on closed states, and of how they stop.\<close>

lemmas prog_defs = ret_def halt_def bnd_def seq_def whenM_def gets_def modifies_def
  load_def store_def dealloc_def

lemma whileM_exit: "c v s = Inr (False, s') \<Longrightarrow> whileM c b v s = Inr (v, s')"
  by (subst whileM_unfold) (simp add: prog_defs)

lemma whileM_iter:
  "c v s = Inr (True, s') \<Longrightarrow> b v s' = Inr (v', s'') \<Longrightarrow> whileM c b v s = whileM c b v' s''"
  by (subst whileM_unfold) (simp add: prog_defs)

end
