(* ===== verification/Chains.thy ===== *)
theory Chains
  imports Prelude
begin

text \<open>
  Doubly linked structures in memory, shared by the lists of LinkedList.c and the queues
  of queue.c: a chain of nodes as a list of (address, contents) pairs, and the invariant of
  all the structures of one kind in memory. \<open>mk x n p\<close> is the node with contents \<open>x\<close>,
  successor \<open>n\<close> and predecessor \<open>p\<close>; \<open>ok ns h\<close> says that the record \<open>h\<close> describes the
  chain \<open>ns\<close>.
\<close>

section \<open>Chains of nodes\<close>

fun first_of :: "(addr \<times> 'p) list \<Rightarrow> addr \<Rightarrow> addr" where
  "first_of [] q = q"
| "first_of ((a, x) # ns) q = a"

fun last_of :: "addr \<Rightarrow> (addr \<times> 'p) list \<Rightarrow> addr" where
  "last_of p [] = p"
| "last_of p ((a, x) # ns) = last_of a ns"

text \<open>
  \<open>dchain mk N p ns q\<close>: the nodes \<open>ns\<close> are linked in this order in the node map \<open>N\<close>, the
  first one's predecessor is \<open>p\<close> and the last one's successor is \<open>q\<close>.
\<close>

fun dchain :: "('p \<Rightarrow> addr \<Rightarrow> addr \<Rightarrow> 'n) \<Rightarrow> (addr \<rightharpoonup> 'n) \<Rightarrow> addr \<Rightarrow> (addr \<times> 'p) list \<Rightarrow> addr \<Rightarrow> bool" where
  "dchain mk N p [] q = True"
| "dchain mk N p ((a, x) # ns) q =
     (a \<noteq> NULL \<and> N a = Some (mk x (first_of ns q) p) \<and> dchain mk N a ns q)"

definition node_addrs :: "(addr \<times> 'p) list \<Rightarrow> addr set" where
  "node_addrs ns = fst ` set ns"

lemma node_addrs_simps [simp]:
  "node_addrs [] = {}"
  "node_addrs ((a, x) # ns) = insert a (node_addrs ns)"
  "node_addrs (ns @ ms) = node_addrs ns \<union> node_addrs ms"
  by (auto simp: node_addrs_def)

lemma fst_set_node_addrs [simp]: "fst ` set ns = node_addrs ns"
  by (simp add: node_addrs_def)

lemma first_of_append [simp]: "first_of (xs @ ys) q = first_of xs (first_of ys q)"
  by (induction xs q rule: first_of.induct) auto

lemma last_of_append [simp]: "last_of p (xs @ ys) = last_of (last_of p xs) ys"
  by (induction p xs rule: last_of.induct) auto

lemma dchain_append [simp]:
  "dchain mk N p (xs @ ys) q \<longleftrightarrow>
     dchain mk N p xs (first_of ys q) \<and> dchain mk N (last_of p xs) ys q"
  by (induction mk N p xs q rule: dchain.induct) auto

lemma dchain_fun_upd [simp]:
  "a \<notin> node_addrs ns \<Longrightarrow> dchain mk (N(a := v)) p ns q = dchain mk N p ns q"
  by (induction mk N p ns q rule: dchain.induct) auto

lemma dchain_cong:
  "(\<And>a. a \<in> node_addrs ns \<Longrightarrow> N' a = N a) \<Longrightarrow> dchain mk N' p ns q = dchain mk N p ns q"
  by (induction mk N p ns q rule: dchain.induct) auto

lemma dchain_dom: "dchain mk N p ns q \<Longrightarrow> node_addrs ns \<subseteq> dom N"
  by (induction mk N p ns q rule: dchain.induct) auto

lemma first_of_null: "dchain mk N p ns q \<Longrightarrow> q = NULL \<Longrightarrow> first_of ns q = NULL \<longleftrightarrow> ns = []"
  by (induction mk N p ns q rule: dchain.induct) auto

lemma last_of_null: "dchain mk N p ns q \<Longrightarrow> p = NULL \<Longrightarrow> last_of p ns = NULL \<longleftrightarrow> ns = []"
  by (cases ns rule: rev_cases) auto

lemma first_of_in: "ns \<noteq> [] \<Longrightarrow> first_of ns q \<in> node_addrs ns"
  by (induction ns q rule: first_of.induct) auto

lemma last_of_in: "ns \<noteq> [] \<Longrightarrow> last_of p ns \<in> node_addrs ns"
  by (cases ns rule: rev_cases) auto

text \<open>The last node of a non-empty chain, for the operations at the tail.\<close>

lemma last_split:
  assumes "dchain mk N p ns q" and "ns \<noteq> []"
  obtains ms a y where "ns = ms @ [(a, y)]" and "last_of p ns = a"
    and "N a = Some (mk y q (last_of p ms))" and "dchain mk N p ms a"
  using assms by (cases ns rule: rev_cases) auto

section \<open>All the structures of one kind\<close>

definition struct_at :: "('p \<Rightarrow> addr \<Rightarrow> addr \<Rightarrow> 'n) \<Rightarrow> ((addr \<times> 'p) list \<Rightarrow> 'h \<Rightarrow> bool) \<Rightarrow>
    (addr \<rightharpoonup> 'h) \<Rightarrow> (addr \<rightharpoonup> 'n) \<Rightarrow> addr \<Rightarrow> (addr \<times> 'p) list \<Rightarrow> bool" where
  "struct_at mk ok L N l ns \<longleftrightarrow>
     l \<noteq> NULL \<and> distinct (map fst ns) \<and> dchain mk N NULL ns NULL \<and> (\<exists>h. L l = Some h \<and> ok ns h)"

definition disjoint_chains :: "(addr \<rightharpoonup> (addr \<times> 'p) list) \<Rightarrow> bool" where
  "disjoint_chains S \<longleftrightarrow>
     (\<forall>l l' ns ns'. S l = Some ns \<longrightarrow> S l' = Some ns' \<longrightarrow> l \<noteq> l' \<longrightarrow>
        node_addrs ns \<inter> node_addrs ns' = {})"

definition owned :: "(addr \<rightharpoonup> (addr \<times> 'p) list) \<Rightarrow> addr set" where
  "owned S = {a. \<exists>l ns. S l = Some ns \<and> a \<in> node_addrs ns}"

text \<open>
  \<open>S\<close> gives the contents of each structure. Structures do not share nodes, every node in
  memory belongs to a structure (none is leaked), and every address in use was handed out
  by the allocator.
\<close>

definition structs :: "('p \<Rightarrow> addr \<Rightarrow> addr \<Rightarrow> 'n) \<Rightarrow> ((addr \<times> 'p) list \<Rightarrow> 'h \<Rightarrow> bool) \<Rightarrow>
    (addr \<rightharpoonup> 'h) \<Rightarrow> (addr \<rightharpoonup> 'n) \<Rightarrow> nat \<Rightarrow> (addr \<rightharpoonup> (addr \<times> 'p) list) \<Rightarrow> bool" where
  "structs mk ok L N n S \<longleftrightarrow>
     dom L = dom S \<and> (\<forall>l ns. S l = Some ns \<longrightarrow> struct_at mk ok L N l ns) \<and>
     disjoint_chains S \<and> dom N = owned S \<and> below N n \<and> below L n"

lemma disjoint_chainsD:
  "disjoint_chains S \<Longrightarrow> S l = Some ns \<Longrightarrow> S l' = Some ns' \<Longrightarrow> l \<noteq> l' \<Longrightarrow>
     node_addrs ns \<inter> node_addrs ns' = {}"
  by (simp add: disjoint_chains_def)

lemma ownedI: "S l = Some ns \<Longrightarrow> a \<in> node_addrs ns \<Longrightarrow> a \<in> owned S"
  by (auto simp: owned_def)

lemma structsD:
  assumes "structs mk ok L N n S"
  shows "dom L = dom S" "disjoint_chains S" "dom N = owned S" "below N n" "below L n"
  using assms unfolding structs_def by - (elim conjE, assumption)+

lemma structs_at: "structs mk ok L N n S \<Longrightarrow> S l = Some ns \<Longrightarrow> struct_at mk ok L N l ns"
  by (simp add: structs_def)

lemma structs_fresh:
  assumes "structs mk ok L N n S" and "n < a"
  shows "N a = None" "L a = None" "S a = None"
proof -
  show "N a = None" and L: "L a = None"
    using structsD [OF assms(1)] assms(2) by (simp_all add: below_fresh)
  with structsD(1) [OF assms(1)] show "S a = None" by (metis domIff)
qed

lemma structs_mono: "structs mk ok L N n S \<Longrightarrow> n \<le> k \<Longrightarrow> structs mk ok L N k S"
  by (auto simp: structs_def intro: below_mono)

lemma structs_empty [simp]: "structs mk ok Map.empty Map.empty n Map.empty"
  by (simp add: structs_def disjoint_chains_def owned_def)

text \<open>A new, empty structure.\<close>

lemma structs_new:
  assumes "structs mk ok L N n S" and "ok [] h"
  shows "structs mk ok (L(Suc n \<mapsto> h)) N (Suc n) (S(Suc n \<mapsto> []))"
proof -
  note D = structsD [OF assms(1)] and fr = structs_fresh [OF assms(1), of "Suc n", simplified]
  have "struct_at mk ok (L(Suc n \<mapsto> h)) N l ns" if "(S(Suc n \<mapsto> [])) l = Some ns" for l ns
    using that structs_at [OF assms(1), of l ns] fr assms(2)
    by (auto simp: struct_at_def split: if_splits)
  moreover have "owned (S(Suc n \<mapsto> [])) = owned S"
    unfolding owned_def using fr(3) by (auto, metis option.distinct(1))
  moreover have "disjoint_chains (S(Suc n \<mapsto> []))"
    using D(2) by (simp add: disjoint_chains_def)
  ultimately show ?thesis using D unfolding structs_def by simp
qed

text \<open>
  One structure changes and the rest of memory does not: the invariant holds for the store
  in which that structure has its new contents.
\<close>

lemma disjoint_chains_update:
  assumes "disjoint_chains S" and "S l = Some ns" and "(node_addrs ns' - node_addrs ns) \<inter> owned S = {}"
  shows "disjoint_chains (S(l \<mapsto> ns'))"
  unfolding disjoint_chains_def
proof (intro allI impI)
  fix k k' ms ms'
  assume k: "(S(l \<mapsto> ns')) k = Some ms" "(S(l \<mapsto> ns')) k' = Some ms'" "k \<noteq> k'"
  have new: "node_addrs ns' \<inter> node_addrs qs = {}" if "S j = Some qs" "j \<noteq> l" for j qs
    using disjoint_chainsD [OF assms(1) that(1) assms(2) that(2)] assms(3) ownedI [of S j qs] that(1)
    by blast
  from k show "node_addrs ms \<inter> node_addrs ms' = {}"
    using new [of k ms] new [of k' ms'] disjoint_chainsD [OF assms(1), of k ms k' ms']
    by (cases "k = l"; cases "k' = l") auto
qed

lemma owned_without:
  assumes "disjoint_chains S" and "S l = Some ns"
  shows "(\<exists>k ms. k \<noteq> l \<and> S k = Some ms \<and> a \<in> node_addrs ms) \<longleftrightarrow> a \<in> owned S \<and> a \<notin> node_addrs ns"
  unfolding owned_def using disjoint_chainsD [OF assms(1) _ assms(2)] assms(2)
  by (auto, metis option.inject)

lemma owned_update:
  assumes "disjoint_chains S" and "S l = Some ns"
  shows "owned (S(l \<mapsto> ns')) = (owned S - node_addrs ns) \<union> node_addrs ns'"
proof -
  have "a \<in> owned (S(l \<mapsto> ns')) \<longleftrightarrow>
      a \<in> node_addrs ns' \<or> (\<exists>k ms. k \<noteq> l \<and> S k = Some ms \<and> a \<in> node_addrs ms)" for a
    unfolding owned_def by (auto split: if_splits)
  then show ?thesis using owned_without [OF assms] by blast
qed

lemma struct_at_other:
  assumes inv: "structs mk ok L N n S" and l: "S l = Some ns" and k: "S k = Some ms" "k \<noteq> l"
    and "L' k = L k"
    and nodes: "\<And>a. a \<in> owned S \<Longrightarrow> a \<notin> node_addrs ns \<Longrightarrow> N' a = N a"
  shows "struct_at mk ok L' N' k ms"
proof -
  have "dchain mk N' NULL ms NULL = dchain mk N NULL ms NULL"
  proof (rule dchain_cong)
    fix a assume a: "a \<in> node_addrs ms"
    with disjoint_chainsD [OF structsD(2) [OF inv] k(1) l k(2)] have "a \<notin> node_addrs ns" by blast
    with nodes ownedI [of S k ms a, OF k(1) a] show "N' a = N a" by blast
  qed
  with structs_at [OF inv k(1)] assms(5) show ?thesis by (simp add: struct_at_def)
qed

lemma structs_update:
  assumes inv: "structs mk ok L N n S" and l: "S l = Some ns"
    and new: "struct_at mk ok L' N' l ns'"
    and lists: "\<And>k. k \<noteq> l \<Longrightarrow> L' k = L k"
    and nodes: "\<And>a. a \<notin> node_addrs ns \<Longrightarrow> a \<notin> node_addrs ns' \<Longrightarrow> N' a = N a"
    and gone: "\<And>a. a \<in> node_addrs ns \<Longrightarrow> a \<notin> node_addrs ns' \<Longrightarrow> N' a = None"
    and fresh: "\<And>a. a \<in> node_addrs ns' \<Longrightarrow> a \<notin> node_addrs ns \<Longrightarrow> N a = None"
    and below: "below N' n'"
    and mono: "n \<le> n'"
  shows "structs mk ok L' N' n' (S(l \<mapsto> ns'))"
proof -
  note D = structsD [OF inv]
  have fr: "(node_addrs ns' - node_addrs ns) \<inter> owned S = {}"
    using fresh D(3) by (metis (no_types, lifting) DiffE Int_iff domIff equals0I)
  have L: "L' l \<noteq> None" using new by (auto simp: struct_at_def)
  have dom: "dom L' = dom (S(l \<mapsto> ns'))"
  proof -
    have "k \<in> dom L' \<longleftrightarrow> k \<in> dom (S(l \<mapsto> ns'))" for k
      using lists [of k] D(1) L by (cases "k = l") (auto simp: dom_def set_eq_iff)
    then show ?thesis by blast
  qed
  moreover have "struct_at mk ok L' N' k ms" if "(S(l \<mapsto> ns')) k = Some ms" for k ms
  proof (cases "k = l")
    case False
    have "N' a = N a" if "a \<in> owned S" "a \<notin> node_addrs ns" for a
      using nodes that fr by blast
    with False that show ?thesis by (intro struct_at_other [OF inv l]) (auto simp: lists)
  qed (use that new in simp)
  moreover have "dom N' = owned (S(l \<mapsto> ns'))"
  proof -
    have "a \<in> dom N' \<longleftrightarrow> a \<in> (owned S - node_addrs ns) \<union> node_addrs ns'" for a
      using nodes [of a] gone [of a] D(3) [THEN eqset_imp_iff, of a] new dchain_dom [of mk N' NULL ns' NULL]
      unfolding struct_at_def by (cases "a \<in> node_addrs ns'"; cases "a \<in> node_addrs ns") auto
    then show ?thesis by (simp add: owned_update [OF D(2) l] set_eq_iff)
  qed
  moreover have "below L' n'"
  proof -
    have "below L n'" using D(5) mono by (rule below_mono)
    moreover have "dom L' = dom L" using dom D(1) l by (simp add: insert_absorb domI)
    ultimately show ?thesis unfolding below_def dom_def by blast
  qed
  ultimately show ?thesis
    unfolding structs_def using disjoint_chains_update [OF D(2) l fr] below by blast
qed

text \<open>A structure leaves memory with all its nodes.\<close>

lemma restrict_UNIV [simp]: "m |` UNIV = m"
  by (simp add: restrict_map_def)

lemma structs_remove:
  assumes inv: "structs mk ok L N n S" and l: "S l = Some ns"
  shows "structs mk ok (L(l := None)) (N |` (- node_addrs ns)) n (S(l := None))"
proof -
  note D = structsD [OF inv]
  have "struct_at mk ok (L(l := None)) (N |` (- node_addrs ns)) k ms" if "(S(l := None)) k = Some ms" for k ms
    by (rule struct_at_other [OF inv l]) (use that in \<open>auto simp: restrict_map_def split: if_splits\<close>)
  moreover have "disjoint_chains (S(l := None))"
    using D(2) by (simp add: disjoint_chains_def)
  moreover have "owned (S(l := None)) = owned S - node_addrs ns"
  proof -
    have "a \<in> owned (S(l := None)) \<longleftrightarrow> (\<exists>k ms. k \<noteq> l \<and> S k = Some ms \<and> a \<in> node_addrs ms)" for a
      unfolding owned_def by (auto split: if_splits)
    then show ?thesis using owned_without [OF D(2) l] by blast
  qed
  moreover have "below (N |` (- node_addrs ns)) n"
    using D(4) by (auto simp: below_def restrict_map_def)
  ultimately show ?thesis
    using D unfolding structs_def by auto
qed

end
