(* ===== verification/Memory.thy ===== *)
theory Memory
  imports Chains
begin

text \<open>
  The data model: every struct that the headers of proj3 declare, as a record with the
  fields of the source, and the process memory that holds the objects of each struct.
  \<open>LinkedListNode\<close>, \<open>LinkedListHead\<close> and \<open>LLIterSt\<close> are in LinkedList_priv.h,
  \<open>HTKeyValue\<close> in HashTable.h, \<open>HashTableRecord\<close> and \<open>HTIterRecord\<close> in
  HashTable_priv.h, \<open>queue\<close> and \<open>queue_node\<close> in queue.h and \<open>buffer_info\<close> in
  multiplex_reader.c. A pointer is an address, a \<open>sem_t\<close> its current value, a
  \<open>pthread_mutex_t\<close> whether it is locked; integers keep their width.
\<close>

section \<open>LinkedList_priv.h\<close>

record LinkedListNode =
  node_payload :: addr
  node_next :: addr
  node_prev :: addr

record LinkedListHead =
  ll_num_elements :: "64 word"
  ll_head :: addr
  ll_tail :: addr

record LLIterSt =
  it_list :: addr
  it_node :: addr

section \<open>HashTable.h and HashTable_priv.h\<close>

record HTKeyValue =
  kv_key :: "64 word"
  kv_value :: addr

record HashTableRecord =
  num_buckets :: "64 word"
  num_elements :: "64 word"
  buckets :: addr
  wrt :: nat
  mutex :: nat
  readcount :: "32 word"

record HTIterRecord =
  is_valid :: bool
  hit_ht :: addr
  bucket_num :: "64 word"
  bucket_it :: addr

section \<open>queue.h\<close>

record queue =
  q_head :: addr
  q_tail :: addr
  q_mutex :: bool
  q_wrt :: nat

record queue_node =
  q_buf :: addr
  q_buf_len :: "32 word"
  q_prev :: addr
  q_next :: addr

section \<open>multiplex_reader.c\<close>

record buffer_info =
  bi_buffer :: addr
  bi_buffer_size :: "32 word"
  bi_tag :: "32 word"
  bi_completed :: bool
  bi_sent :: bool
  bi_n_written :: "32 word"
  bi_prev_tag :: "32 word"
  bi_last_block :: bool
  bi_mutex :: bool
  bi_valid :: bool
  bi_next_tag :: "32 word"
  bi_waiting_queue :: addr

section \<open>The process memory\<close>

text \<open>
  One map per type of object. \<open>chars\<close> holds the raw byte arrays (\<open>char*\<close>): a byte that
  was never written is \<open>None\<close>. \<open>ptr_arrays\<close> holds arrays of pointers. \<open>next_addr\<close>
  counts the allocations made so far, and \<open>oom\<close> says which of them fail, so that a
  statement about every memory covers every pattern of \<open>malloc\<close> failures.
  \<open>uninit_item\<close> is the sequence of values that reads of the uninitialised local variable
  \<open>item\<close> of \<open>ResizeHashtable\<close> return, and \<open>uninit_reads\<close> the number of such reads so
  far.

  The outside of the process: \<open>net_in\<close> is what will arrive on each descriptor, as the
  segments that the network makes of it, and ends with the end of the stream; \<open>net_out\<close> is
  what \<open>send\<close> has taken on each descriptor; the \<open>n\<close>-th call of \<open>send\<close> takes at most
  \<open>send_limits n\<close> bytes, or fails when that is negative; \<open>files\<close> are the contents of the
  files, and \<open>fopen_fails\<close> says whether opening one fails.
\<close>

datatype arrival = Segment "8 word list" | ReadError

record mem =
  next_addr :: nat
  oom :: "nat \<Rightarrow> bool"
  ll_nodes :: "addr \<rightharpoonup> LinkedListNode"
  ll_lists :: "addr \<rightharpoonup> LinkedListHead"
  ll_iters :: "addr \<rightharpoonup> LLIterSt"
  kvs :: "addr \<rightharpoonup> HTKeyValue"
  ht_recs :: "addr \<rightharpoonup> HashTableRecord"
  ptr_arrays :: "addr \<rightharpoonup> addr list"
  ht_iters :: "addr \<rightharpoonup> HTIterRecord"
  queues :: "addr \<rightharpoonup> queue"
  q_nodes :: "addr \<rightharpoonup> queue_node"
  chars :: "addr \<rightharpoonup> 8 word option list"
  infos :: "addr \<rightharpoonup> buffer_info"
  uninit_item :: "nat \<Rightarrow> HTKeyValue"
  uninit_reads :: nat
  net_in :: "int \<Rightarrow> arrival list"
  net_out :: "int \<Rightarrow> 8 word option list"
  send_limits :: "nat \<Rightarrow> int"
  sends :: nat
  files :: "string \<Rightarrow> 8 word option list"
  fopen_fails :: bool

text \<open>
  \<open>malloc\<close> of one object, together with the stores that initialise it: a fresh address,
  or \<open>NULL\<close> when this allocation fails.
\<close>

definition malloc_obj :: "(mem \<Rightarrow> addr \<rightharpoonup> 'o) \<Rightarrow>
    (((addr \<rightharpoonup> 'o) \<Rightarrow> (addr \<rightharpoonup> 'o)) \<Rightarrow> mem \<Rightarrow> mem) \<Rightarrow> 'o \<Rightarrow> (mem, addr) prog" where
  "malloc_obj sel upd v =
     (\<lambda>s. let a = Suc (next_addr s); s1 = s\<lparr>next_addr := a\<rparr>
      in if oom s a then Inr (NULL, s1) else Inr (a, upd (\<lambda>_. (sel s1)(a \<mapsto> v)) s1))"

lemma runs_to_malloc_obj [wp]:
  "runs_to (malloc_obj sel upd v) s Q =
     (let a = Suc (next_addr s); s1 = s\<lparr>next_addr := a\<rparr>
      in if oom s a then Q NULL s1 else Q a (upd (\<lambda>_. (sel s1)(a \<mapsto> v)) s1))"
  by (simp add: malloc_obj_def runs_to_def Let_def)

text \<open>The memory of a process that has allocated nothing, where every \<open>malloc\<close> succeeds.\<close>

definition mem0 :: mem where
  "mem0 = \<lparr>next_addr = 0, oom = (\<lambda>_. False), ll_nodes = Map.empty, ll_lists = Map.empty,
     ll_iters = Map.empty, kvs = Map.empty, ht_recs = Map.empty, ptr_arrays = Map.empty,
     ht_iters = Map.empty, queues = Map.empty, q_nodes = Map.empty, chars = Map.empty,
     infos = Map.empty, uninit_item = (\<lambda>_. \<lparr>kv_key = 0, kv_value = NULL\<rparr>), uninit_reads = 0,
     net_in = (\<lambda>_. []), net_out = (\<lambda>_. []), send_limits = (\<lambda>_. 2 ^ 31), sends = 0,
     files = (\<lambda>_. []), fopen_fails = False\<rparr>"

end
