(* ===== verification/Fifo.thy ===== *)
theory Fifo
  imports Prelude
begin

text \<open>
  The first-in-first-out contract that queue.c and two pairs of operations of LinkedList.c
  provide, as a locale: what a client sees of any sequence of insertions and removals is
  what the list \<open>fifo_spec\<close> of the elements predicts.
\<close>

section \<open>The abstract queue\<close>

datatype 'e fifo_op = Put 'e | Take

text \<open>The answers of the \<open>Take\<close> operations, and the elements left; the elements put.\<close>

fun fifo_spec :: "'e fifo_op list \<Rightarrow> 'e list \<Rightarrow> 'e option list \<times> 'e list" where
  "fifo_spec [] xs = ([], xs)"
| "fifo_spec (Put x # ops) xs = fifo_spec ops (xs @ [x])"
| "fifo_spec (Take # ops) [] = (let (rs, ys) = fifo_spec ops [] in (None # rs, ys))"
| "fifo_spec (Take # ops) (x # xs) = (let (rs, ys) = fifo_spec ops xs in (Some x # rs, ys))"

fun puts :: "'e fifo_op list \<Rightarrow> 'e list" where
  "puts [] = []"
| "puts (Put x # ops) = x # puts ops"
| "puts (Take # ops) = puts ops"

lemma fifo_spec_puts: "fifo_spec (map Put xs @ ops) ys = fifo_spec ops (ys @ xs)"
  by (induction xs arbitrary: ys) auto

lemma fifo_spec_takes: "fifo_spec (replicate (length xs) Take) xs = (map Some xs, [])"
  by (induction xs) auto

lemma rev_Cons_last:
  "x # xs = rev (map f ns) \<Longrightarrow> ns \<noteq> [] \<and> x = f (last ns) \<and> xs = rev (map f (butlast ns))"
  by (cases ns rule: rev_cases) auto

text \<open>A client's sequence of operations on the queue at \<open>q\<close>.\<close>

fun run_fifo :: "(addr \<Rightarrow> 'e \<Rightarrow> ('s, unit) prog) \<Rightarrow> (addr \<Rightarrow> ('s, 'e option) prog) \<Rightarrow> addr \<Rightarrow>
    'e fifo_op list \<Rightarrow> ('s, 'e option list) prog" where
  "run_fifo put get q [] = ret []"
| "run_fifo put get q (Put x # ops) = seq (put q x) (run_fifo put get q ops)"
| "run_fifo put get q (Take # ops) =
     bnd (get q) (\<lambda>r. bnd (run_fifo put get q ops) (\<lambda>rs. ret (r # rs)))"

section \<open>The interface\<close>

text \<open>
  \<open>inv s F\<close>: memory \<open>s\<close> is well formed and holds the queues \<open>F\<close>, each the list of its
  elements from the oldest to the newest; \<open>room xs\<close> says that a queue with the elements
  \<open>xs\<close> can take one more.
\<close>

locale fifo =
  fixes inv :: "'s \<Rightarrow> (addr \<rightharpoonup> 'e list) \<Rightarrow> bool"
    and put :: "addr \<Rightarrow> 'e \<Rightarrow> ('s, unit) prog"
    and get :: "addr \<Rightarrow> ('s, 'e option) prog"
    and room :: "'e list \<Rightarrow> bool"
  assumes put_law: "inv s F \<Longrightarrow> F q = Some xs \<Longrightarrow> room xs \<Longrightarrow>
      runs_to (put q x) s (\<lambda>_ s'. inv s' (F(q \<mapsto> xs @ [x])))"
    and get_empty: "inv s F \<Longrightarrow> F q = Some [] \<Longrightarrow> runs_to (get q) s (\<lambda>r s'. r = None \<and> inv s' F)"
    and get_law: "inv s F \<Longrightarrow> F q = Some (x # xs) \<Longrightarrow>
      runs_to (get q) s (\<lambda>r s'. r = Some x \<and> inv s' (F(q \<mapsto> xs)))"
    and room_less: "room xs \<Longrightarrow> length ys \<le> length xs \<Longrightarrow> room ys"
begin

text \<open>Every run of operations answers as the abstract queue does.\<close>

lemma run_fifo_spec:
  assumes "inv s F" and "F q = Some xs" and "room (xs @ puts ops)"
  shows "runs_to (run_fifo put get q ops) s (\<lambda>rs s'.
    rs = fst (fifo_spec ops xs) \<and> inv s' (F(q \<mapsto> snd (fifo_spec ops xs))))"
  using assms
proof (induction ops xs arbitrary: s F rule: fifo_spec.induct)
  case (1 xs)
  then show ?case by (simp add: wp map_upd_triv)
next
  case (2 x ops xs)
  have "room xs" using "2.prems"(3) by (rule room_less) simp
  with "2.prems" have "runs_to (put q x) s (\<lambda>_ s'. inv s' (F(q \<mapsto> xs @ [x])))" by (intro put_law)
  moreover have "runs_to (run_fifo put get q ops) s' (\<lambda>rs s''.
      rs = fst (fifo_spec (Put x # ops) xs) \<and> inv s'' (F(q \<mapsto> snd (fifo_spec (Put x # ops) xs))))"
    if "inv s' (F(q \<mapsto> xs @ [x]))" for s'
    using "2.IH" [of s' "F(q \<mapsto> xs @ [x])"] that "2.prems"(3) by (simp add: fun_upd_same del: fun_upd_apply)
  ultimately show ?case unfolding run_fifo.simps wp by (rule runs_to_mono)
next
  case (3 ops)
  then have "runs_to (get q) s (\<lambda>r s'. r = None \<and> inv s' F)" by (intro get_empty)
  then show ?case unfolding run_fifo.simps wp
  proof (rule runs_to_mono, goal_cases)
    case (1 r s')
    then have "runs_to (run_fifo put get q ops) s' (\<lambda>rs s''.
        rs = fst (fifo_spec ops []) \<and> inv s'' (F(q \<mapsto> snd (fifo_spec ops []))))"
      using "3.IH" "3.prems" by (simp del: fun_upd_apply)
    then show ?case by (rule runs_to_mono) (use 1 in \<open>simp add: split_beta\<close>)
  qed
next
  case (4 ops x xs)
  then have "runs_to (get q) s (\<lambda>r s'. r = Some x \<and> inv s' (F(q \<mapsto> xs)))" by (intro get_law)
  then show ?case unfolding run_fifo.simps wp
  proof (rule runs_to_mono, goal_cases)
    case (1 r s')
    have "room (xs @ puts ops)" using "4.prems"(3) by (rule room_less) simp
    with 1 "4.IH" [of s' "F(q \<mapsto> xs)"] have "runs_to (run_fifo put get q ops) s' (\<lambda>rs s''.
        rs = fst (fifo_spec ops xs) \<and> inv s'' (F(q \<mapsto> snd (fifo_spec ops xs))))"
      by (simp add: fun_upd_same del: fun_upd_apply)
    then show ?case by (rule runs_to_mono) (use 1 in \<open>simp add: split_beta\<close>)
  qed
qed

text \<open>In particular, elements leave in the order in which they entered.\<close>

lemma in_order:
  assumes "inv s F" and "F q = Some []" and "room xs"
  shows "runs_to (run_fifo put get q (map Put xs @ replicate (length xs) Take)) s
    (\<lambda>rs s'. rs = map Some xs \<and> inv s' F)"
proof -
  have "puts (map Put xs @ replicate n Take) = xs" for n
    by (induction xs; induction n) auto
  with run_fifo_spec [OF assms(1,2), of "map Put xs @ replicate (length xs) Take"] assms
  show ?thesis by (simp add: fifo_spec_puts fifo_spec_takes map_upd_triv)
qed

end

end
