(* ===== verification/LinkedList.thy ===== *)
theory LinkedList
  imports Memory Fifo
begin

text \<open>
  LinkedList.c: the doubly linked list of payload pointers, its iterators and its sort.
  First the operations, one definition per C function, in the order of the file; then the
  shape invariant of all the lists in memory (\<open>ll_inv\<close>) and one law per operation, which
  says what the operation does to the list of (node, payload) pairs that a list record
  stands for. \<open>void*\<close> return parameters are returned values: \<open>None\<close> is the result
  \<open>false\<close>, \<open>Some p\<close> is \<open>true\<close> with \<open>p\<close> stored through the pointer.
\<close>

section \<open>Operations\<close>

abbreviation rd_node :: "addr \<Rightarrow> (mem, LinkedListNode) prog" where
  "rd_node \<equiv> load ll_nodes"

abbreviation wr_node :: "addr \<Rightarrow> (LinkedListNode \<Rightarrow> LinkedListNode) \<Rightarrow> (mem, unit) prog" where
  "wr_node \<equiv> store ll_nodes ll_nodes_update"

abbreviation rd_list :: "addr \<Rightarrow> (mem, LinkedListHead) prog" where
  "rd_list \<equiv> load ll_lists"

abbreviation wr_list :: "addr \<Rightarrow> (LinkedListHead \<Rightarrow> LinkedListHead) \<Rightarrow> (mem, unit) prog" where
  "wr_list \<equiv> store ll_lists ll_lists_update"

abbreviation rd_iter :: "addr \<Rightarrow> (mem, LLIterSt) prog" where
  "rd_iter \<equiv> load ll_iters"

abbreviation wr_iter :: "addr \<Rightarrow> (LLIterSt \<Rightarrow> LLIterSt) \<Rightarrow> (mem, unit) prog" where
  "wr_iter \<equiv> store ll_iters ll_iters_update"

definition AllocateLinkedList :: "(mem, addr) prog" where
  "AllocateLinkedList =
     malloc_obj ll_lists ll_lists_update \<lparr>ll_num_elements = 0, ll_head = NULL, ll_tail = NULL\<rparr>"

definition FreeLinkedList :: "addr \<Rightarrow> (addr \<Rightarrow> (mem, unit) prog) \<Rightarrow> (mem, unit) prog" where
  "FreeLinkedList list payload_free_function =
     bnd (whileM
       (\<lambda>_. bnd (rd_list list) (\<lambda>l. ret (ll_head l \<noteq> NULL)))
       (\<lambda>_. bnd (rd_list list) (\<lambda>l.
            bnd (rd_node (ll_head l)) (\<lambda>n.
            seq (payload_free_function (node_payload n))
           (bnd (rd_list list) (\<lambda>l'.
            seq (dealloc ll_nodes ll_nodes_update (ll_head l'))
                (wr_list list (ll_head_update (\<lambda>_. node_next n)))))))) ()) (\<lambda>_.
     dealloc ll_lists ll_lists_update list)"

definition NumElementsInLinkedList :: "addr \<Rightarrow> (mem, 64 word) prog" where
  "NumElementsInLinkedList list = bnd (rd_list list) (\<lambda>l. ret (ll_num_elements l))"

definition PushLinkedList :: "addr \<Rightarrow> addr \<Rightarrow> (mem, bool) prog" where
  "PushLinkedList list payload =
     bnd (malloc_obj ll_nodes ll_nodes_update
            \<lparr>node_payload = payload, node_next = NULL, node_prev = NULL\<rparr>) (\<lambda>ln.
     if ln = NULL then ret False
     else bnd (rd_list list) (\<lambda>l.
     if ll_num_elements l = 0 then
       seq (wr_list list (\<lambda>l. l\<lparr>ll_head := ln, ll_tail := ln, ll_num_elements := 1\<rparr>))
           (ret True)
     else
       seq (wr_node ln (node_next_update (\<lambda>_. ll_head l)))
      (seq (wr_node (ll_head l) (node_prev_update (\<lambda>_. ln)))
      (seq (wr_node ln (node_prev_update (\<lambda>_. NULL)))
      (seq (wr_list list (ll_head_update (\<lambda>_. ln)))
      (seq (wr_list list (ll_num_elements_update (\<lambda>n. n + 1)))
           (ret True)))))))"

definition PopLinkedList :: "addr \<Rightarrow> (mem, addr option) prog" where
  "PopLinkedList list =
     bnd (rd_list list) (\<lambda>l.
     if ll_num_elements l = 0 then ret None
     else
       seq (whenM (ll_num_elements l = 1) (wr_list list (ll_tail_update (\<lambda>_. NULL))))
      (bnd (rd_node (ll_head l)) (\<lambda>popped.
       seq (wr_list list (ll_head_update (\<lambda>_. node_next popped)))
      (seq (whenM (ll_num_elements l > 1)
              (wr_node (node_next popped) (node_prev_update (\<lambda>_. NULL))))
      (bnd (rd_node (ll_head l)) (\<lambda>popped'.
       seq (dealloc ll_nodes ll_nodes_update (ll_head l))
      (seq (wr_list list (ll_num_elements_update (\<lambda>n. n - 1)))
           (ret (Some (node_payload popped'))))))))))"

definition AppendLinkedList :: "addr \<Rightarrow> addr \<Rightarrow> (mem, bool) prog" where
  "AppendLinkedList list payload =
     bnd (malloc_obj ll_nodes ll_nodes_update
            \<lparr>node_payload = payload, node_next = NULL, node_prev = NULL\<rparr>) (\<lambda>ln.
     if ln = NULL then ret False
     else bnd (rd_list list) (\<lambda>l.
     if ll_num_elements l = 0 then
       seq (wr_list list (\<lambda>l. l\<lparr>ll_head := ln, ll_tail := ln, ll_num_elements := 1\<rparr>))
           (ret True)
     else
       seq (wr_node ln (node_prev_update (\<lambda>_. ll_tail l)))
      (seq (wr_node (ll_tail l) (node_next_update (\<lambda>_. ln)))
      (seq (wr_node ln (node_next_update (\<lambda>_. NULL)))
      (seq (wr_list list (ll_tail_update (\<lambda>_. ln)))
      (seq (wr_list list (ll_num_elements_update (\<lambda>n. n + 1)))
           (ret True)))))))"

definition SliceLinkedList :: "addr \<Rightarrow> (mem, addr option) prog" where
  "SliceLinkedList list =
     bnd (rd_list list) (\<lambda>l.
     if ll_num_elements l = 0 then ret None
     else
       seq (whenM (ll_num_elements l = 1) (wr_list list (ll_head_update (\<lambda>_. NULL))))
      (bnd (rd_node (ll_tail l)) (\<lambda>popped.
       seq (wr_list list (ll_tail_update (\<lambda>_. node_prev popped)))
      (seq (whenM (ll_num_elements l > 1)
              (wr_node (node_prev popped) (node_next_update (\<lambda>_. NULL))))
      (bnd (rd_node (ll_tail l)) (\<lambda>popped'.
       seq (dealloc ll_nodes ll_nodes_update (ll_tail l))
      (seq (wr_list list (ll_num_elements_update (\<lambda>n. n - 1)))
           (ret (Some (node_payload popped'))))))))))"

text \<open>
  \<open>sort_pass\<close> is the inner loop of \<open>SortLinkedList\<close>, one bubble pass from \<open>curnode\<close>;
  the outer do-while loop repeats it until a pass swaps nothing. Multiplying the smallest
  \<open>int\<close> by \<open>-1\<close> overflows.
\<close>

definition compare_swap :: "bool \<Rightarrow> (addr \<Rightarrow> addr \<Rightarrow> int) \<Rightarrow> addr \<Rightarrow> addr \<Rightarrow> (mem, bool) prog" where
  "compare_swap ascending comparator_function a b =
     (let r = comparator_function a b
      in if ascending \<and> r = - (2 ^ 31) then halt Undefined
      else ret ((if ascending then r * -1 else r) < 0))"

definition sort_pass :: "bool \<Rightarrow> (addr \<Rightarrow> addr \<Rightarrow> int) \<Rightarrow> addr \<times> bool \<Rightarrow>
    (mem, addr \<times> bool) prog" where
  "sort_pass ascending comparator_function =
     whileM
       (\<lambda>(curnode, swapped). bnd (rd_node curnode) (\<lambda>n. ret (node_next n \<noteq> NULL)))
       (\<lambda>(curnode, swapped).
          bnd (rd_node curnode) (\<lambda>n.
          bnd (rd_node (node_next n)) (\<lambda>n'.
          bnd (compare_swap ascending comparator_function (node_payload n) (node_payload n')) (\<lambda>sw.
          seq (whenM sw
                (seq (wr_node curnode (node_payload_update (\<lambda>_. node_payload n')))
                     (wr_node (node_next n) (node_payload_update (\<lambda>_. node_payload n)))))
              (ret (node_next n, swapped \<or> sw))))))"

definition SortLinkedList :: "addr \<Rightarrow> bool \<Rightarrow> (addr \<Rightarrow> addr \<Rightarrow> int) \<Rightarrow> (mem, unit) prog" where
  "SortLinkedList list ascending comparator_function =
     bnd (rd_list list) (\<lambda>l.
     if ll_num_elements l < 2 then ret ()
     else bnd (whileM (\<lambda>swapped. ret swapped)
       (\<lambda>_. bnd (rd_list list) (\<lambda>l.
            bnd (sort_pass ascending comparator_function (ll_head l, False)) (\<lambda>(_, swapped).
            ret swapped))) True) (\<lambda>_. ret ()))"

definition LLMakeIterator :: "addr \<Rightarrow> int \<Rightarrow> (mem, addr) prog" where
  "LLMakeIterator list pos =
     bnd (NumElementsInLinkedList list) (\<lambda>n.
     if n = 0 then ret NULL
     else bnd (rd_list list) (\<lambda>l.
       malloc_obj ll_iters ll_iters_update
         \<lparr>it_list = list, it_node = (if pos = 0 then ll_head l else ll_tail l)\<rparr>))"

definition LLIteratorFree :: "addr \<Rightarrow> (mem, unit) prog" where
  "LLIteratorFree iter = dealloc ll_iters ll_iters_update iter"

definition LLIteratorHasNext :: "addr \<Rightarrow> (mem, bool) prog" where
  "LLIteratorHasNext iter =
     bnd (rd_iter iter) (\<lambda>it. bnd (rd_node (it_node it)) (\<lambda>n. ret (node_next n \<noteq> NULL)))"

definition LLIteratorNext :: "addr \<Rightarrow> (mem, bool) prog" where
  "LLIteratorNext iter =
     bnd (LLIteratorHasNext iter) (\<lambda>b.
     if b then
       bnd (rd_iter iter) (\<lambda>it. bnd (rd_node (it_node it)) (\<lambda>n.
       seq (wr_iter iter (it_node_update (\<lambda>_. node_next n))) (ret True)))
     else ret False)"

definition LLIteratorHasPrev :: "addr \<Rightarrow> (mem, bool) prog" where
  "LLIteratorHasPrev iter =
     bnd (rd_iter iter) (\<lambda>it. bnd (rd_node (it_node it)) (\<lambda>n. ret (node_prev n \<noteq> NULL)))"

definition LLIteratorPrev :: "addr \<Rightarrow> (mem, bool) prog" where
  "LLIteratorPrev iter =
     bnd (LLIteratorHasPrev iter) (\<lambda>b.
     if b then
       bnd (rd_iter iter) (\<lambda>it. bnd (rd_node (it_node it)) (\<lambda>n.
       seq (wr_iter iter (it_node_update (\<lambda>_. node_prev n))) (ret True)))
     else ret False)"

definition LLIteratorGetPayload :: "addr \<Rightarrow> (mem, addr) prog" where
  "LLIteratorGetPayload iter =
     bnd (rd_iter iter) (\<lambda>it. bnd (rd_node (it_node it)) (\<lambda>n. ret (node_payload n)))"

definition LLIteratorDelete :: "addr \<Rightarrow> (addr \<Rightarrow> (mem, unit) prog) \<Rightarrow> (mem, bool) prog" where
  "LLIteratorDelete iter payload_free_function =
     bnd (rd_iter iter) (\<lambda>it.
     bnd (rd_node (it_node it)) (\<lambda>deleted.
     bnd (rd_list (it_list it)) (\<lambda>l.
     let isHead = (ll_head l = it_node it);
         isTail = (ll_tail l = it_node it);
         isSoleNode = (ll_num_elements l = 1)
     in
     seq (payload_free_function (node_payload deleted))
    (if (\<not> isHead \<and> \<not> isTail) \<or> isSoleNode then
       seq (if isSoleNode then
              wr_list (it_list it) (\<lambda>l. l\<lparr>ll_head := NULL, ll_tail := NULL\<rparr>)
            else
              seq (bnd (rd_node (it_node it)) (\<lambda>d.
                     wr_node (node_prev d) (node_next_update (\<lambda>_. node_next d))))
                  (bnd (rd_node (it_node it)) (\<lambda>d.
                     wr_node (node_next d) (node_prev_update (\<lambda>_. node_prev d)))))
      (seq (wr_list (it_list it) (ll_num_elements_update (\<lambda>n. n - 1)))
      (seq (bnd (rd_node (it_node it)) (\<lambda>d.
              wr_iter iter (it_node_update (\<lambda>_. node_next d))))
      (seq (dealloc ll_nodes ll_nodes_update (it_node it))
           (ret (\<not> isSoleNode)))))
     else if isHead then
       seq (bnd (rd_node (it_node it)) (\<lambda>d.
              wr_iter iter (it_node_update (\<lambda>_. node_next d))))
      (bnd (PopLinkedList (it_list it)) (\<lambda>_. ret True))
     else
       seq (bnd (rd_node (it_node it)) (\<lambda>d.
              wr_iter iter (it_node_update (\<lambda>_. node_prev d))))
      (bnd (SliceLinkedList (it_list it)) (\<lambda>_. ret True))))))"

definition LLIteratorInsertBefore :: "addr \<Rightarrow> addr \<Rightarrow> (mem, bool) prog" where
  "LLIteratorInsertBefore iter payload =
     bnd (rd_iter iter) (\<lambda>it.
     bnd (rd_list (it_list it)) (\<lambda>l.
     if it_node it = ll_head l then PushLinkedList (it_list it) payload
     else
       bnd (malloc_obj ll_nodes ll_nodes_update
              \<lparr>node_payload = payload, node_next = NULL, node_prev = NULL\<rparr>) (\<lambda>newnode.
       if newnode = NULL then ret False
       else
         seq (wr_node newnode (node_next_update (\<lambda>_. it_node it)))
        (bnd (rd_node (it_node it)) (\<lambda>n.
         seq (wr_node newnode (node_prev_update (\<lambda>_. node_prev n)))
        (seq (wr_node (node_prev n) (node_next_update (\<lambda>_. newnode)))
        (seq (wr_node (it_node it) (node_prev_update (\<lambda>_. newnode)))
        (seq (wr_list (it_list it) (ll_num_elements_update (\<lambda>k. k + 1)))
             (ret True)))))))))"

section \<open>The shape of the lists in memory\<close>

text \<open>
  A list record stands for a list of (node address, payload) pairs, from head to tail:
  its nodes form a chain, and the record holds their number and both ends. \<open>ll_inv s S\<close>
  is the invariant of all the lists in memory, \<open>S\<close> gives the contents of each.
\<close>

type_synonym nodes = "(addr \<times> addr) list"

abbreviation mk_node :: "addr \<Rightarrow> addr \<Rightarrow> addr \<Rightarrow> LinkedListNode" where
  "mk_node \<equiv> (\<lambda>x n p. \<lparr>node_payload = x, node_next = n, node_prev = p\<rparr>)"

abbreviation chain :: "(addr \<rightharpoonup> LinkedListNode) \<Rightarrow> addr \<Rightarrow> nodes \<Rightarrow> addr \<Rightarrow> bool" where
  "chain \<equiv> dchain mk_node"

definition list_head :: "nodes \<Rightarrow> LinkedListHead \<Rightarrow> bool" where
  "list_head ns h \<longleftrightarrow> length ns < 2 ^ 64 \<and>
     h = \<lparr>ll_num_elements = of_nat (length ns), ll_head = first_of ns NULL, ll_tail = last_of NULL ns\<rparr>"

abbreviation list_at :: "(addr \<rightharpoonup> LinkedListHead) \<Rightarrow> (addr \<rightharpoonup> LinkedListNode) \<Rightarrow> addr \<Rightarrow> nodes \<Rightarrow> bool" where
  "list_at \<equiv> struct_at mk_node list_head"

lemma list_at_iff:
  "list_at L N l ns \<longleftrightarrow>
     l \<noteq> NULL \<and> length ns < 2 ^ 64 \<and> distinct (map fst ns) \<and> chain N NULL ns NULL \<and>
     L l = Some \<lparr>ll_num_elements = of_nat (length ns), ll_head = first_of ns NULL,
                 ll_tail = last_of NULL ns\<rparr>"
  by (auto simp: struct_at_def list_head_def)

definition ll_inv :: "mem \<Rightarrow> (addr \<rightharpoonup> nodes) \<Rightarrow> bool" where
  "ll_inv s S \<longleftrightarrow>
     structs mk_node list_head (ll_lists s) (ll_nodes s) (next_addr s) S \<and>
     below (ll_iters s) (next_addr s)"

lemma ll_inv_structs:
  assumes "ll_inv s S"
  shows "structs mk_node list_head (ll_lists s) (ll_nodes s) (next_addr s) S"
    and "below (ll_iters s) (next_addr s)"
  using assms by (simp_all add: ll_inv_def)

lemma ll_invD:
  assumes "ll_inv s S"
  shows "dom (ll_lists s) = dom S" "disjoint_chains S" "dom (ll_nodes s) = owned S"
    "below (ll_nodes s) (next_addr s)" "below (ll_lists s) (next_addr s)"
    "below (ll_iters s) (next_addr s)"
  by (rule structsD [OF ll_inv_structs(1) [OF assms]] ll_inv_structs(2) [OF assms])+

lemma ll_inv_list_at: "ll_inv s S \<Longrightarrow> S l = Some ns \<Longrightarrow> list_at (ll_lists s) (ll_nodes s) l ns"
  by (rule structs_at [OF ll_inv_structs(1)])

lemma ll_inv_fresh:
  assumes "ll_inv s S" and "next_addr s < a"
  shows "ll_nodes s a = None" "ll_lists s a = None" "ll_iters s a = None" "S a = None"
  by (rule structs_fresh [OF ll_inv_structs(1) [OF assms(1)] assms(2)]
      below_fresh [OF ll_inv_structs(2) [OF assms(1)] assms(2)])+

lemma ll_inv_update:
  assumes inv: "ll_inv s S" and l: "S l = Some ns"
    and "list_at (ll_lists s') (ll_nodes s') l ns'"
    and "\<And>k. k \<noteq> l \<Longrightarrow> ll_lists s' k = ll_lists s k"
    and "\<And>a. a \<notin> node_addrs ns \<Longrightarrow> a \<notin> node_addrs ns' \<Longrightarrow> ll_nodes s' a = ll_nodes s a"
    and "\<And>a. a \<in> node_addrs ns \<Longrightarrow> a \<notin> node_addrs ns' \<Longrightarrow> ll_nodes s' a = None"
    and "\<And>a. a \<in> node_addrs ns' \<Longrightarrow> a \<notin> node_addrs ns \<Longrightarrow> ll_nodes s a = None"
    and "below (ll_nodes s') (next_addr s')" "below (ll_iters s') (next_addr s')"
    and "next_addr s \<le> next_addr s'"
  shows "ll_inv s' (S(l \<mapsto> ns'))"
  unfolding ll_inv_def
  by (intro conjI assms(9) structs_update [OF ll_inv_structs(1) [OF inv] l]) (fact assms)+

section \<open>Laws of the operations\<close>

text \<open>
  The operations change nothing but the list part of memory: \<open>ll_frame\<close>. The counter
  \<open>num_elements\<close> agrees with the length of the list as long as the list has fewer than
  \<open>2 ^ 64\<close> nodes.
\<close>

definition ll_frame :: "mem \<Rightarrow> mem \<Rightarrow> bool" where
  "ll_frame s s' \<longleftrightarrow>
     s' = s\<lparr>next_addr := next_addr s', ll_nodes := ll_nodes s', ll_lists := ll_lists s'\<rparr> \<and>
     next_addr s \<le> next_addr s'"

lemma ll_frame_refl [simp]: "ll_frame s s"
  by (simp add: ll_frame_def)

lemma ll_frame_trans: "ll_frame s s' \<Longrightarrow> ll_frame s' s'' \<Longrightarrow> ll_frame s s''"
  unfolding ll_frame_def by (cases s; cases s'; cases s'') auto

lemma count_less:
  assumes "n < 2 ^ 64" and "k < 2 ^ 64"
  shows "((of_nat k :: 64 word) < of_nat n) \<longleftrightarrow> k < n"
  using assms by (simp add: word_less_nat_alt unat_of_nat)

lemma count_eq:
  assumes "n < 2 ^ 64" and "k < 2 ^ 64"
  shows "((of_nat n :: 64 word) = of_nat k) \<longleftrightarrow> n = k"
  using count_less [OF assms] count_less [OF assms(2,1)] by (metis less_linear less_irrefl)

lemma count_simps:
  assumes "n < 2 ^ 64"
  shows "((of_nat n :: 64 word) = 0) \<longleftrightarrow> n = 0" "((of_nat n :: 64 word) = 1) \<longleftrightarrow> n = 1"
    "(1 < (of_nat n :: 64 word)) \<longleftrightarrow> 1 < n" "((of_nat n :: 64 word) < 2) \<longleftrightarrow> n < 2"
  using count_eq [OF assms, of 0] count_eq [OF assms, of 1] count_less [OF assms, of 1]
    count_less [of 2 n] assms
  by simp_all

lemma ll_inv_next_addr:
  "ll_inv s S \<Longrightarrow> next_addr s \<le> n \<Longrightarrow> ll_inv (s\<lparr>next_addr := n\<rparr>) S"
  by (auto simp: ll_inv_def intro: below_mono structs_mono)

lemma list_atD:
  assumes "list_at L N l ns"
  shows "L l = Some \<lparr>ll_num_elements = of_nat (length ns), ll_head = first_of ns NULL,
                 ll_tail = last_of NULL ns\<rparr>"
    and "chain N NULL ns NULL" and "distinct (map fst ns)" and "length ns < 2 ^ 64"
    and "l \<noteq> NULL"
  using assms by (simp_all add: list_at_iff)

text \<open>\<open>AllocateLinkedList\<close> makes an empty list, or returns \<open>NULL\<close> when memory is out.\<close>

lemma AllocateLinkedList_law:
  assumes "ll_inv s S"
  shows "runs_to AllocateLinkedList s (\<lambda>l s'.
    if oom s (Suc (next_addr s)) then l = NULL \<and> s' = s\<lparr>next_addr := Suc (next_addr s)\<rparr>
    else l = Suc (next_addr s) \<and> ll_inv s' (S(l \<mapsto> [])) \<and>
      s' = s\<lparr>next_addr := Suc (next_addr s), ll_lists := ll_lists s'\<rparr>)"
  using assms by (simp add: AllocateLinkedList_def wp Let_def ll_inv_def structs_new list_head_def)

lemma PushLinkedList_law:
  assumes inv: "ll_inv s S" and l: "S l = Some ns" and len: "Suc (length ns) < 2 ^ 64"
  shows "runs_to (PushLinkedList l x) s (\<lambda>r s'.
    if oom s (Suc (next_addr s)) then \<not> r \<and> s' = s\<lparr>next_addr := Suc (next_addr s)\<rparr>
    else r \<and> ll_inv s' (S(l \<mapsto> (Suc (next_addr s), x) # ns)) \<and> ll_frame s s')"
proof (cases "oom s (Suc (next_addr s))")
  case True
  then show ?thesis by (simp add: PushLinkedList_def wp Let_def)
next
  case False
  let ?a = "Suc (next_addr s)"
  note at = list_atD [OF ll_inv_list_at [OF inv l]]
  note fr = ll_inv_fresh [OF inv, of ?a, simplified]
  have nin: "?a \<notin> node_addrs ns" using dchain_dom [OF at(2)] fr(1) by auto
  show ?thesis
  proof (cases ns)
    case Nil
    with False at show ?thesis
      by (auto simp: PushLinkedList_def wp Let_def ll_frame_def list_at_iff ll_invD [OF inv] fr
          intro!: ll_inv_update [OF inv l] )
  next
    case (Cons b ms)
    obtain a y where b: "b = (a, y)" by force
    with Cons nin have ne: "a \<noteq> ?a" "?a \<notin> node_addrs ms" by auto
    from at Cons b have a: "a \<notin> node_addrs ms" by auto
    from at Cons b have la: "ll_nodes s a = Some
        \<lparr>node_payload = y, node_next = first_of ms NULL, node_prev = NULL\<rparr>" by simp
    from False at Cons b ne a len show ?thesis
      by (simp add: PushLinkedList_def wp Let_def ll_frame_def count_simps del: of_nat_Suc)
        ((intro conjI impI)?; (rule ll_inv_update [OF inv l])?;
          auto simp: list_at_iff fr ll_invD [OF inv] la)
  qed
qed

lemma AppendLinkedList_law:
  assumes inv: "ll_inv s S" and l: "S l = Some ns" and len: "Suc (length ns) < 2 ^ 64"
  shows "runs_to (AppendLinkedList l x) s (\<lambda>r s'.
    if oom s (Suc (next_addr s)) then \<not> r \<and> s' = s\<lparr>next_addr := Suc (next_addr s)\<rparr>
    else r \<and> ll_inv s' (S(l \<mapsto> ns @ [(Suc (next_addr s), x)])) \<and> ll_frame s s')"
proof (cases "oom s (Suc (next_addr s))")
  case True
  then show ?thesis by (simp add: AppendLinkedList_def wp Let_def)
next
  case False
  let ?a = "Suc (next_addr s)"
  note at = list_atD [OF ll_inv_list_at [OF inv l]]
  note fr = ll_inv_fresh [OF inv, of ?a, simplified]
  have nin: "?a \<notin> node_addrs ns" using dchain_dom [OF at(2)] fr(1) by auto
  show ?thesis
  proof (cases "ns = []")
    case True
    with False at show ?thesis
      by (auto simp: AppendLinkedList_def wp Let_def ll_frame_def list_at_iff ll_invD [OF inv] fr
          intro!: ll_inv_update [OF inv l])
  next
    case ne: False
    with last_split [OF at(2)] obtain ms a y where
      ms: "ns = ms @ [(a, y)]" and la: "last_of NULL ns = a"
        "ll_nodes s a = Some \<lparr>node_payload = y, node_next = NULL, node_prev = last_of NULL ms\<rparr>"
        "chain (ll_nodes s) NULL ms a" by metis
    with nin have ne: "a \<noteq> ?a" "?a \<notin> node_addrs ms" by auto
    from at ms have a: "a \<notin> node_addrs ms" by auto
    from False at(1,3,4,5) at(2) [unfolded ms, simplified] ms ne a la len show ?thesis
      by (simp add: AppendLinkedList_def wp Let_def ll_frame_def count_simps del: of_nat_Suc)
        ((intro conjI impI)?; (rule ll_inv_update [OF inv l])?;
          auto simp: list_at_iff fr ll_invD [OF inv] la)
  qed
qed

lemma PopLinkedList_law:
  assumes inv: "ll_inv s S" and l: "S l = Some ns"
  shows "runs_to (PopLinkedList l) s (\<lambda>r s'.
    case ns of
      [] \<Rightarrow> r = None \<and> s' = s
    | (a, x) # ms \<Rightarrow> r = Some x \<and> ll_inv s' (S(l \<mapsto> ms)) \<and> ll_frame s s' \<and>
        next_addr s' = next_addr s)"
proof (cases ns)
  case Nil
  with list_atD [OF ll_inv_list_at [OF inv l]] show ?thesis
    by (simp add: PopLinkedList_def wp)
next
  case (Cons b ms)
  obtain a x where b: "b = (a, x)" by force
  note at = list_atD [OF ll_inv_list_at [OF inv l]]
  from at Cons b have la: "ll_nodes s a = Some
      \<lparr>node_payload = x, node_next = first_of ms NULL, node_prev = NULL\<rparr>" by simp
  from at Cons b have a: "a \<notin> node_addrs ms" by auto
  show ?thesis
  proof (cases ms)
    case Nil
    with at la a Cons b show ?thesis
      by (simp add: PopLinkedList_def wp ll_frame_def count_simps del: of_nat_Suc)
        (rule ll_inv_update [OF inv l]; auto simp: list_at_iff ll_invD [OF inv] la)
  next
    case (Cons b' ms')
    obtain a' x' where b': "b' = (a', x')" by force
    with at \<open>ns = b # ms\<close> b Cons have "a' \<notin> node_addrs ms'" "a' \<noteq> a" "a \<notin> node_addrs ms'"
      by auto
    with at la a \<open>ns = b # ms\<close> b Cons b' show ?thesis
      by (simp add: PopLinkedList_def wp ll_frame_def count_simps del: of_nat_Suc)
        ((intro conjI impI)?; (rule ll_inv_update [OF inv l])?;
          auto simp: list_at_iff ll_invD [OF inv] la)
  qed
qed

lemma SliceLinkedList_law:
  assumes inv: "ll_inv s S" and l: "S l = Some ns"
  shows "runs_to (SliceLinkedList l) s (\<lambda>r s'.
    if ns = [] then r = None \<and> s' = s
    else r = Some (snd (last ns)) \<and> ll_inv s' (S(l \<mapsto> butlast ns)) \<and> ll_frame s s' \<and>
      next_addr s' = next_addr s)"
proof (cases "ns = []")
  case True
  with list_atD [OF ll_inv_list_at [OF inv l]] show ?thesis
    by (simp add: SliceLinkedList_def wp)
next
  case ne: False
  note at = list_atD [OF ll_inv_list_at [OF inv l]]
  from last_split [OF at(2) ne] obtain ms a y where
    ms: "ns = ms @ [(a, y)]" and la: "last_of NULL ns = a"
      "ll_nodes s a = Some \<lparr>node_payload = y, node_next = NULL, node_prev = last_of NULL ms\<rparr>"
      "chain (ll_nodes s) NULL ms a" by metis
  from at ms have a: "a \<notin> node_addrs ms" "a \<noteq> NULL" by auto
  show ?thesis
  proof (cases "ms = []")
    case True
    with at la a ms show ?thesis
      by (simp add: SliceLinkedList_def wp ll_frame_def count_simps)
        (rule ll_inv_update [OF inv l]; auto simp: list_at_iff ll_invD [OF inv] la)
  next
    case False
    from last_split [OF la(3) False] obtain ms' a' y' where
      ms': "ms = ms' @ [(a', y')]" and la': "last_of NULL ms = a'"
        "ll_nodes s a' = Some \<lparr>node_payload = y', node_next = a, node_prev = last_of NULL ms'\<rparr>"
        "chain (ll_nodes s) NULL ms' a'" by metis
    from at ms ms' have a': "a' \<notin> node_addrs ms'" "a' \<noteq> a" "a \<notin> node_addrs ms'" by auto
    from at(1,3,4,5) at(2) [unfolded ms ms', simplified] la la' a a' ms ms' show ?thesis
      by (simp add: SliceLinkedList_def wp ll_frame_def count_simps del: of_nat_Suc)
        ((intro conjI impI)?; (rule ll_inv_update [OF inv l])?;
          auto simp: list_at_iff ll_invD [OF inv] la la' butlast_append)
  qed
qed

lemma NumElementsInLinkedList_law:
  assumes inv: "ll_inv s S" and l: "S l = Some ns"
  shows "runs_to (NumElementsInLinkedList l) s (\<lambda>n s'. unat n = length ns \<and> s' = s)"
  using list_atD(1,4) [OF ll_inv_list_at [OF inv l]]
  by (simp add: NumElementsInLinkedList_def wp unat_of_nat)

text \<open>
  \<open>FreeLinkedList\<close> calls the free function once on each payload, from head to tail, and
  frees the nodes and the record. \<open>P xs\<close> is what holds while the payloads \<open>xs\<close> are still
  to be freed.
\<close>

definition detach :: "addr \<Rightarrow> nodes \<Rightarrow> mem \<Rightarrow> mem" where
  "detach l ms s = s\<lparr>ll_nodes := (ll_nodes s) |` (- node_addrs ms),
     ll_lists := (ll_lists s)(l := None)\<rparr>"

lemma ll_inv_cong:
  "ll_nodes s' = ll_nodes s \<Longrightarrow> ll_lists s' = ll_lists s \<Longrightarrow> ll_iters s' = ll_iters s \<Longrightarrow>
     next_addr s' = next_addr s \<Longrightarrow> ll_inv s' S = ll_inv s S"
  by (simp add: ll_inv_def)

lemma ll_inv_detach:
  assumes "ll_inv s S" and "S l = Some ns"
  shows "ll_inv (detach l ns s) (S(l := None))"
  using assms by (simp add: ll_inv_def detach_def structs_remove)

lemma FreeLinkedList_unfold:
  "FreeLinkedList l ff =
     bnd (rd_list l) (\<lambda>h.
     if ll_head h \<noteq> NULL then
       bnd (rd_list l) (\<lambda>h. bnd (rd_node (ll_head h)) (\<lambda>n.
       seq (ff (node_payload n))
      (bnd (rd_list l) (\<lambda>h'.
       seq (dealloc ll_nodes ll_nodes_update (ll_head h'))
      (seq (wr_list l (ll_head_update (\<lambda>_. node_next n)))
           (FreeLinkedList l ff))))))
     else dealloc ll_lists ll_lists_update l)"
  unfolding FreeLinkedList_def by (subst whileM_unfold) (simp only: monad_laws)

lemma FreeLinkedList_loop:
  assumes l: "l \<noteq> NULL"
    and "chain (ll_nodes s) p ms NULL" and "distinct (map fst ms)"
    and "ll_lists s l = Some h" and "ll_head h = first_of ms NULL"
    and "ll_inv (detach l ms s) S" and "P (map snd ms) s"
    and free: "\<And>x xs s. P (x # xs) s \<Longrightarrow> runs_to (ff x) s (\<lambda>_ s'. P xs s' \<and>
      ll_nodes s' = ll_nodes s \<and> ll_lists s' = ll_lists s \<and> ll_iters s' = ll_iters s \<and>
      next_addr s' = next_addr s)"
    and stable: "\<And>xs s N L. P xs s \<Longrightarrow> P xs (s\<lparr>ll_nodes := N, ll_lists := L\<rparr>)"
  shows "runs_to (FreeLinkedList l ff) s (\<lambda>_ s'. ll_inv s' S \<and> P [] s')"
  using assms(2-7)
proof (induction ms arbitrary: s p h)
  case Nil
  then have "detach l [] s = s\<lparr>ll_lists := (ll_lists s)(l := None)\<rparr>" by (simp add: detach_def)
  with Nil stable [where xs = "[]" and s = s and N = "ll_nodes s"] show ?case
    by (subst FreeLinkedList_unfold) (auto simp: wp l)
next
  case (Cons b ms)
  obtain a x where b: "b = (a, x)" by force
  with Cons.prems have a: "a \<noteq> NULL" "a \<notin> node_addrs ms"
    and la: "ll_nodes s a = Some \<lparr>node_payload = x, node_next = first_of ms NULL, node_prev = p\<rparr>"
    by auto
  let ?s2 = "\<lambda>s1. s1\<lparr>ll_nodes := (ll_nodes s)(a := None),
      ll_lists := (ll_lists s)(l \<mapsto> h\<lparr>ll_head := first_of ms NULL\<rparr>)\<rparr>"
  have rest: "runs_to (FreeLinkedList l ff) (?s2 s1) (\<lambda>_ s'. ll_inv s' S \<and> P [] s')"
    if s1: "P (map snd ms) s1 \<and> ll_nodes s1 = ll_nodes s \<and> ll_lists s1 = ll_lists s \<and>
      ll_iters s1 = ll_iters s \<and> next_addr s1 = next_addr s" for s1
  proof (rule Cons.IH [where p = a and h = "h\<lparr>ll_head := first_of ms NULL\<rparr>"])
    have "(ll_nodes s)(a := None) |` (- node_addrs ms) = ll_nodes s |` (- insert a (node_addrs ms))"
      by (auto simp: restrict_map_def)
    with s1 b have "ll_inv (detach l ms (?s2 s1)) S = ll_inv (detach l (b # ms) s) S"
      by (intro ll_inv_cong) (simp_all add: detach_def)
    then show "ll_inv (detach l ms (?s2 s1)) S" using Cons.prems(5) by blast
    show "P (map snd ms) (?s2 s1)" using s1 stable by blast
    show "chain (ll_nodes (?s2 s1)) a ms NULL" using Cons.prems(1) a b by simp
  qed (use Cons.prems(2) in simp_all)
  have "runs_to (ff x) s (\<lambda>_ s'. P (map snd ms) s' \<and> ll_nodes s' = ll_nodes s \<and>
      ll_lists s' = ll_lists s \<and> ll_iters s' = ll_iters s \<and> next_addr s' = next_addr s)"
    using Cons.prems(6) b by (intro free) simp
  then show ?case
    by (subst FreeLinkedList_unfold) (simp add: wp b la Cons.prems(3,4) a,
      erule runs_to_mono, simp add: rest b la Cons.prems(3,4) a)
qed

lemma FreeLinkedList_law:
  assumes inv: "ll_inv s S" and l: "S l = Some ns" and P: "P (map snd ns) s"
    and free: "\<And>x xs s. P (x # xs) s \<Longrightarrow> runs_to (ff x) s (\<lambda>_ s'. P xs s' \<and>
      ll_nodes s' = ll_nodes s \<and> ll_lists s' = ll_lists s \<and> ll_iters s' = ll_iters s \<and>
      next_addr s' = next_addr s)"
    and stable: "\<And>xs s N L. P xs s \<Longrightarrow> P xs (s\<lparr>ll_nodes := N, ll_lists := L\<rparr>)"
  shows "runs_to (FreeLinkedList l ff) s (\<lambda>_ s'. ll_inv s' (S(l := None)) \<and> P [] s')"
proof -
  note at = list_atD [OF ll_inv_list_at [OF inv l]]
  show ?thesis
    by (rule FreeLinkedList_loop [where P = P, OF at(5,2,3,1) _ ll_inv_detach [OF inv l] P])
      (simp_all add: free stable)
qed

section \<open>Laws of the iterators\<close>

text \<open>
  An iterator record points at a node of a list. \<open>at_node S it ms a x ns\<close>: the iterator
  is on the node \<open>a\<close> with payload \<open>x\<close>, after the nodes \<open>ms\<close> and before the nodes
  \<open>ns\<close>.
\<close>

definition at_node :: "(addr \<rightharpoonup> nodes) \<Rightarrow> LLIterSt \<Rightarrow> nodes \<Rightarrow> addr \<Rightarrow> addr \<Rightarrow> nodes \<Rightarrow> bool" where
  "at_node S it ms a x ns \<longleftrightarrow> S (it_list it) = Some (ms @ (a, x) # ns) \<and> it_node it = a"

lemma at_nodeD:
  assumes "ll_inv s S" and "at_node S it ms a x ns"
  shows "ll_nodes s a = Some
      \<lparr>node_payload = x, node_next = first_of ns NULL, node_prev = last_of NULL ms\<rparr>"
    and "chain (ll_nodes s) NULL ms a" and "chain (ll_nodes s) a ns NULL"
    and "ll_lists s (it_list it) = Some \<lparr>ll_num_elements = of_nat (Suc (length ms + length ns)),
      ll_head = first_of ms a, ll_tail = last_of a ns\<rparr>"
    and "a \<notin> node_addrs ms" and "a \<notin> node_addrs ns" and "node_addrs ms \<inter> node_addrs ns = {}"
    and "distinct (map fst ms)" and "distinct (map fst ns)"
    and "Suc (length ms + length ns) < 2 ^ 64" and "a \<noteq> NULL" and "it_node it = a"
    and "it_list it \<noteq> NULL"
  using list_atD [OF ll_inv_list_at [OF assms(1), of "it_list it" "ms @ (a, x) # ns"]] assms(2)
  by (simp_all add: at_node_def)

lemma LLMakeIterator_law:
  assumes inv: "ll_inv s S" and l: "S l = Some ns"
  shows "runs_to (LLMakeIterator l pos) s (\<lambda>i s'.
    if ns = [] then i = NULL \<and> s' = s
    else if oom s (Suc (next_addr s)) then i = NULL \<and> s' = s\<lparr>next_addr := Suc (next_addr s)\<rparr>
    else i = Suc (next_addr s) \<and> ll_inv s' S \<and>
      s' = s\<lparr>next_addr := i, ll_iters := (ll_iters s)(i \<mapsto>
        \<lparr>it_list = l, it_node = (if pos = 0 then first_of ns NULL else last_of NULL ns)\<rparr>)\<rparr>)"
proof -
  note at = list_atD [OF ll_inv_list_at [OF inv l]]
  have "ll_inv (s\<lparr>next_addr := Suc (next_addr s), ll_iters := (ll_iters s)(Suc (next_addr s) \<mapsto> v)\<rparr>) S"
    for v using ll_inv_structs [OF inv] by (simp add: ll_inv_def structs_mono [of _ _ _ _ "next_addr s"])
  with at show ?thesis
    by (auto simp: LLMakeIterator_def NumElementsInLinkedList_def wp Let_def count_simps)
qed

lemma LLIteratorFree_law:
  assumes inv: "ll_inv s S" and i: "ll_iters s i = Some it"
  shows "runs_to (LLIteratorFree i) s (\<lambda>_ s'. ll_inv s' S \<and>
    s' = s\<lparr>ll_iters := (ll_iters s)(i := None)\<rparr>)"
proof -
  have "i \<noteq> NULL" using below_nonnull [OF ll_invD(6) [OF inv]] i by auto
  moreover have "ll_inv (s\<lparr>ll_iters := (ll_iters s)(i := None)\<rparr>) S"
    using inv by (simp add: ll_inv_def)
  ultimately show ?thesis using i by (simp add: LLIteratorFree_def wp)
qed

lemma LLIteratorHasNext_law:
  assumes "ll_inv s S" and "ll_iters s i = Some it" and "at_node S it ms a x ns"
  shows "runs_to (LLIteratorHasNext i) s (\<lambda>r s'. r = (ns \<noteq> []) \<and> s' = s)"
  using at_nodeD [OF assms(1,3)] first_of_null [OF at_nodeD(3) [OF assms(1,3)] refl] assms(2)
  by (simp add: LLIteratorHasNext_def wp)

lemma LLIteratorHasPrev_law:
  assumes "ll_inv s S" and "ll_iters s i = Some it" and "at_node S it ms a x ns"
  shows "runs_to (LLIteratorHasPrev i) s (\<lambda>r s'. r = (ms \<noteq> []) \<and> s' = s)"
  using at_nodeD [OF assms(1,3)] last_of_null [OF at_nodeD(2) [OF assms(1,3)] refl] assms(2)
  by (simp add: LLIteratorHasPrev_def wp)

lemma ll_inv_iter:
  "ll_inv s S \<Longrightarrow> ll_iters s i = Some it \<Longrightarrow> ll_inv (s\<lparr>ll_iters := (ll_iters s)(i \<mapsto> it')\<rparr>) S"
  by (simp add: ll_inv_def)

lemma LLIteratorNext_law:
  assumes inv: "ll_inv s S" and i: "ll_iters s i = Some it" and at: "at_node S it ms a x ns"
  shows "runs_to (LLIteratorNext i) s (\<lambda>r s'.
    case ns of
      [] \<Rightarrow> \<not> r \<and> s' = s
    | (b, y) # ns' \<Rightarrow> r \<and> ll_inv s' S \<and> at_node S (it\<lparr>it_node := b\<rparr>) (ms @ [(a, x)]) b y ns' \<and>
        s' = s\<lparr>ll_iters := (ll_iters s)(i \<mapsto> it\<lparr>it_node := b\<rparr>)\<rparr>)"
proof (cases ns)
  case Nil
  then show ?thesis
    using LLIteratorHasNext_law [OF assms]
    by (simp add: LLIteratorNext_def wp, elim runs_to_mono) (simp add: wp)
next
  case (Cons c ns')
  obtain b y where c: "c = (b, y)" by force
  show ?thesis
    using LLIteratorHasNext_law [OF assms] at_nodeD [OF inv at] i at
      ll_inv_iter [OF inv i, of "it\<lparr>it_node := b\<rparr>"]
    unfolding Cons c
    by (simp add: LLIteratorNext_def wp, elim runs_to_mono) (simp add: wp at_node_def)
qed

lemma LLIteratorPrev_law:
  assumes inv: "ll_inv s S" and i: "ll_iters s i = Some it" and at: "at_node S it ms a x ns"
  shows "runs_to (LLIteratorPrev i) s (\<lambda>r s'.
    if ms = [] then \<not> r \<and> s' = s
    else r \<and> ll_inv s' S \<and>
      at_node S (it\<lparr>it_node := fst (last ms)\<rparr>) (butlast ms) (fst (last ms)) (snd (last ms)) ((a, x) # ns) \<and>
      s' = s\<lparr>ll_iters := (ll_iters s)(i \<mapsto> it\<lparr>it_node := fst (last ms)\<rparr>)\<rparr>)"
proof (cases "ms = []")
  case True
  then show ?thesis
    using LLIteratorHasPrev_law [OF assms]
    by (simp add: LLIteratorPrev_def wp, elim runs_to_mono) (simp add: wp)
next
  case False
  then obtain ms' b y where ms: "ms = ms' @ [(b, y)]" by (metis rev_exhaust surj_pair)
  show ?thesis
    using LLIteratorHasPrev_law [OF assms] at_nodeD [OF inv at] i at
      ll_inv_iter [OF inv i, of "it\<lparr>it_node := b\<rparr>"]
    unfolding ms
    by (simp add: LLIteratorPrev_def wp, elim runs_to_mono) (simp add: wp at_node_def)
qed

lemma LLIteratorGetPayload_law:
  assumes "ll_inv s S" and "ll_iters s i = Some it" and "at_node S it ms a x ns"
  shows "runs_to (LLIteratorGetPayload i) s (\<lambda>r s'. r = x \<and> s' = s)"
  using at_nodeD [OF assms(1,3)] assms(2) by (simp add: LLIteratorGetPayload_def wp)

text \<open>
  \<open>LLIteratorDelete\<close>, with a free function that does nothing (the one its callers pass),
  unlinks and frees the node and moves the iterator to the successor, to the predecessor
  at the tail, or to \<open>NULL\<close> when the list becomes empty; it returns whether the list is
  still non-empty.
\<close>

definition after_delete :: "nodes \<Rightarrow> nodes \<Rightarrow> addr" where
  "after_delete ms ns = (if ns = [] then last_of NULL ms else first_of ns NULL)"

definition delete_post :: "mem \<Rightarrow> (addr \<rightharpoonup> nodes) \<Rightarrow> addr \<Rightarrow> LLIterSt \<Rightarrow> nodes \<Rightarrow> nodes \<Rightarrow> bool \<Rightarrow> mem \<Rightarrow> bool" where
  "delete_post s S i it ms ns r s' \<longleftrightarrow>
     r = (ms @ ns \<noteq> []) \<and> ll_inv s' (S(it_list it \<mapsto> ms @ ns)) \<and> next_addr s' = next_addr s \<and>
     s' = s\<lparr>ll_nodes := ll_nodes s', ll_lists := ll_lists s',
       ll_iters := (ll_iters s)(i \<mapsto> it\<lparr>it_node := after_delete ms ns\<rparr>)\<rparr>"

lemma ll_frame_iters:
  "ll_frame (s\<lparr>ll_iters := I\<rparr>) s' \<Longrightarrow> next_addr s' = next_addr s \<Longrightarrow>
     s' = s\<lparr>ll_nodes := ll_nodes s', ll_lists := ll_lists s', ll_iters := I\<rparr>"
  by (cases s; cases s') (simp add: ll_frame_def)

lemma LLIteratorDelete_sole:
  assumes inv: "ll_inv s S" and i: "ll_iters s i = Some it" and at: "at_node S it [] a x []"
  shows "runs_to (LLIteratorDelete i (\<lambda>_. ret ())) s (delete_post s S i it [] [])"
proof -
  have l: "S (it_list it) = Some [(a, x)]" using at by (simp add: at_node_def)
  show ?thesis
    using at_nodeD [OF inv at] i
    by (simp add: LLIteratorDelete_def wp after_delete_def delete_post_def)
      (rule ll_inv_update [OF inv l]; auto simp: list_at_iff ll_invD [OF inv])
qed

lemma LLIteratorDelete_head:
  assumes inv: "ll_inv s S" and i: "ll_iters s i = Some it" and at: "at_node S it [] a x ns"
    and ne: "ns \<noteq> []"
  shows "runs_to (LLIteratorDelete i (\<lambda>_. ret ())) s (delete_post s S i it [] ns)"
proof -
  let ?s1 = "s\<lparr>ll_iters := (ll_iters s)(i \<mapsto> it\<lparr>it_node := first_of ns NULL\<rparr>)\<rparr>"
  have l: "S (it_list it) = Some ((a, x) # ns)" using at by (simp add: at_node_def)
  have "runs_to (PopLinkedList (it_list it)) ?s1 (\<lambda>r s'. delete_post s S i it [] ns True s')"
    using PopLinkedList_law [OF ll_inv_iter [OF inv i] l]
    by (rule runs_to_mono) (use ne in \<open>auto simp: delete_post_def after_delete_def intro: ll_frame_iters\<close>)
  with at_nodeD [OF inv at] i ne show ?thesis
    by (simp add: LLIteratorDelete_def wp count_simps del: of_nat_Suc)
qed

lemma LLIteratorDelete_tail:
  assumes inv: "ll_inv s S" and i: "ll_iters s i = Some it" and at: "at_node S it ms a x []"
    and ne: "ms \<noteq> []"
  shows "runs_to (LLIteratorDelete i (\<lambda>_. ret ())) s (delete_post s S i it ms [])"
proof -
  let ?s1 = "s\<lparr>ll_iters := (ll_iters s)(i \<mapsto> it\<lparr>it_node := last_of NULL ms\<rparr>)\<rparr>"
  note D = at_nodeD [OF inv at]
  have l: "S (it_list it) = Some (ms @ [(a, x)])" using at by (simp add: at_node_def)
  have "runs_to (SliceLinkedList (it_list it)) ?s1 (\<lambda>r s'. delete_post s S i it ms [] True s')"
    using SliceLinkedList_law [OF ll_inv_iter [OF inv i] l]
    by (rule runs_to_mono) (use ne in \<open>auto simp: delete_post_def after_delete_def intro: ll_frame_iters\<close>)
  moreover have "first_of ms a \<noteq> a" using first_of_in [OF ne, of a] D(5) by auto
  ultimately show ?thesis using D i ne
    by (simp add: LLIteratorDelete_def wp count_simps del: of_nat_Suc)
qed

lemma LLIteratorDelete_middle:
  assumes inv: "ll_inv s S" and i: "ll_iters s i = Some it" and at: "at_node S it ms a x ns"
    and ne: "ms \<noteq> []" "ns \<noteq> []"
  shows "runs_to (LLIteratorDelete i (\<lambda>_. ret ())) s (delete_post s S i it ms ns)"
proof -
  note D = at_nodeD [OF inv at]
  have l: "S (it_list it) = Some (ms @ (a, x) # ns)" using at by (simp add: at_node_def)
  from last_split [OF D(2) ne(1)] obtain ms' b y where
    ms: "ms = ms' @ [(b, y)]" and lb: "last_of NULL ms = b"
      "ll_nodes s b = Some \<lparr>node_payload = y, node_next = a, node_prev = last_of NULL ms'\<rparr>"
      "chain (ll_nodes s) NULL ms' b" by metis
  from ne(2) obtain c z ns' where ns: "ns = (c, z) # ns'" by (metis neq_Nil_conv surj_pair)
  have h: "first_of ms a \<noteq> a" "last_of a ns \<noteq> a"
    using first_of_in [OF ne(1), of a] last_of_in [OF ne(2), of a] D(5,6) by auto
  from D(5-9) ms ns have d: "a \<noteq> b" "a \<noteq> c" "b \<noteq> c" "b \<notin> node_addrs ms'" "c \<notin> node_addrs ns'"
    "b \<notin> node_addrs ns'" "c \<notin> node_addrs ms'" "a \<notin> node_addrs ms'" "a \<notin> node_addrs ns'"
    by auto
  from D(2,3) ms ns have nn: "b \<noteq> NULL" "c \<noteq> NULL" by auto
  show ?thesis
    using D i h d nn lb
    unfolding ms ns
    by (simp add: LLIteratorDelete_def wp count_simps delete_post_def after_delete_def
        del: of_nat_Suc)
      (rule ll_inv_update [OF inv l]; auto simp: ms ns list_at_iff ll_invD [OF inv])
qed

lemma LLIteratorDelete_law:
  assumes "ll_inv s S" and "ll_iters s i = Some it" and "at_node S it ms a x ns"
  shows "runs_to (LLIteratorDelete i (\<lambda>_. ret ())) s (delete_post s S i it ms ns)"
  using LLIteratorDelete_sole LLIteratorDelete_head LLIteratorDelete_tail
    LLIteratorDelete_middle assms
  by (cases "ms = []"; cases "ns = []") simp_all

lemma delete_postE:
  assumes "delete_post s S i it ms ns r s'"
  obtains N L where "s' = s\<lparr>ll_nodes := N, ll_lists := L,
      ll_iters := (ll_iters s)(i \<mapsto> it\<lparr>it_node := after_delete ms ns\<rparr>)\<rparr>"
    and "ll_inv s' (S(it_list it \<mapsto> ms @ ns))" and "r = (ms @ ns \<noteq> [])"
  using assms unfolding delete_post_def
  by (elim conjE) (rule that [where N = "ll_nodes s'" and L = "ll_lists s'"]; assumption)

lemma LLIteratorInsertBefore_law:
  assumes inv: "ll_inv s S" and i: "ll_iters s i = Some it" and at: "at_node S it ms a x ns"
    and len: "length ms + length ns + 2 < 2 ^ 64"
  shows "runs_to (LLIteratorInsertBefore i y) s (\<lambda>r s'.
    if oom s (Suc (next_addr s)) then \<not> r \<and> s' = s\<lparr>next_addr := Suc (next_addr s)\<rparr>
    else r \<and> ll_inv s' (S(it_list it \<mapsto> ms @ (Suc (next_addr s), y) # (a, x) # ns)) \<and> ll_frame s s')"
proof (cases "ms = []")
  case True
  have l: "S (it_list it) = Some ((a, x) # ns)" using at True by (simp add: at_node_def)
  show ?thesis
    unfolding True append_Nil
    using PushLinkedList_law [OF inv l, of y] len at_nodeD [OF inv at] i True
    by (simp add: LLIteratorInsertBefore_def wp split del: if_split)
next
  case False
  let ?a = "Suc (next_addr s)"
  note D = at_nodeD [OF inv at] and fr = ll_inv_fresh [OF inv, of ?a, simplified]
  have l: "S (it_list it) = Some (ms @ (a, x) # ns)" using at by (simp add: at_node_def)
  from last_split [OF D(2) False] obtain ms' b z where
    ms: "ms = ms' @ [(b, z)]" and lb: "last_of NULL ms = b"
      "ll_nodes s b = Some \<lparr>node_payload = z, node_next = a, node_prev = last_of NULL ms'\<rparr>"
      "chain (ll_nodes s) NULL ms' b" by metis
  have h: "first_of ms a \<noteq> a" using first_of_in [OF False, of a] D(5) by auto
  have new: "?a \<notin> node_addrs ms" "?a \<notin> node_addrs ns"
    using dchain_dom [OF D(2)] dchain_dom [OF D(3)] fr(1) by auto
  from D(5-9) ms have d: "a \<noteq> b" "b \<notin> node_addrs ms'" "b \<notin> node_addrs ns" "a \<notin> node_addrs ms'"
    by auto
  from D(2) ms new have nn: "b \<noteq> NULL" "?a \<noteq> b" "?a \<notin> node_addrs ms'" by auto
  have na: "a \<noteq> ?a" using D(1) fr(1) by auto
  show ?thesis
    using D i h d nn lb len na new
    unfolding ms
    by (simp add: LLIteratorInsertBefore_def wp Let_def ll_frame_def del: of_nat_Suc)
      (rule impI, rule ll_inv_update [OF inv l]; auto simp: ms list_at_iff ll_invD [OF inv] fr)
qed

section \<open>A list as a queue\<close>

text \<open>
  \<open>ll_fifo f s F\<close>: memory is well formed, \<open>malloc\<close> does not fail, and \<open>F\<close> gives the
  payloads of each list in the order \<open>f\<close>, oldest first.
\<close>

definition ll_fifo :: "(addr list \<Rightarrow> addr list) \<Rightarrow> mem \<Rightarrow> (addr \<rightharpoonup> addr list) \<Rightarrow> bool" where
  "ll_fifo f s F \<longleftrightarrow> (\<forall>n. \<not> oom s n) \<and>
     (\<exists>S. ll_inv s S \<and> F = (\<lambda>l. map_option (\<lambda>ns. f (map snd ns)) (S l)))"

lemma ll_fifoE:
  assumes "ll_fifo f s F" and "F l = Some xs"
  obtains S ns where "ll_inv s S" and "S l = Some ns" and "xs = f (map snd ns)"
    and "\<forall>n. \<not> oom s n" and "F = (\<lambda>l. map_option (\<lambda>ns. f (map snd ns)) (S l))"
  using assms by (auto simp: ll_fifo_def)

lemma ll_fifo_upd:
  assumes "ll_inv s' (S(l \<mapsto> ns))" and "ll_frame s s'" and "\<forall>n. \<not> oom s n"
    and "F = (\<lambda>l. map_option (\<lambda>ns. f (map snd ns)) (S l))" and "ys = f (map snd ns)"
  shows "ll_fifo f s' (F(l \<mapsto> ys))"
proof -
  have "oom s' = oom s" using assms(2) unfolding ll_frame_def by (cases s; cases s') simp
  then show ?thesis
    using assms(1,3-5) unfolding ll_fifo_def by (auto intro!: exI [of _ "S(l \<mapsto> ns)"])
qed

interpretation append_pop: fifo "ll_fifo (\<lambda>xs. xs)"
  "\<lambda>l x. bnd (AppendLinkedList l x) (\<lambda>_. ret ())" PopLinkedList "\<lambda>xs. Suc (length xs) < 2 ^ 64"
proof (unfold_locales, goal_cases)
  case (1 s F l xs x)
  from 1(1,2) show ?case
    by (rule ll_fifoE, unfold wp, elim runs_to_mono [OF AppendLinkedList_law])
      (use 1 in \<open>auto elim: ll_fifo_upd\<close>)
next
  case (2 s F l)
  from 2 show ?case
    by (rule ll_fifoE, elim runs_to_mono [OF PopLinkedList_law [where ns = "[]"]]) (use 2 in auto)
next
  case (3 s F l x xs)
  from 3 show ?case
    by (rule ll_fifoE) (auto intro!: runs_to_mono [OF PopLinkedList_law] simp: Cons_eq_map_conv elim: ll_fifo_upd)
qed simp

interpretation push_slice: fifo "ll_fifo rev"
  "\<lambda>l x. bnd (PushLinkedList l x) (\<lambda>_. ret ())" SliceLinkedList "\<lambda>xs. Suc (length xs) < 2 ^ 64"
proof (unfold_locales, goal_cases)
  case (1 s F l xs x)
  from 1(1,2) show ?case
    by (rule ll_fifoE, unfold wp, elim runs_to_mono [OF PushLinkedList_law])
      (use 1 in \<open>auto elim: ll_fifo_upd\<close>)
next
  case (2 s F l)
  from 2 show ?case
    by (rule ll_fifoE, elim runs_to_mono [OF SliceLinkedList_law [where ns = "[]"]]) (use 2 in auto)
next
  case (3 s F l x xs)
  from 3 show ?case
    by (rule ll_fifoE, elim runs_to_mono [OF SliceLinkedList_law])
      (auto dest!: rev_Cons_last elim: ll_fifo_upd)
qed simp

section \<open>Properties\<close>

text \<open>A memory with one list of two elements, 20 and 10, and an iterator on the first.\<close>

definition demo_lists :: mem where
  "demo_lists = mem0\<lparr>next_addr := 4,
     ll_lists := [1 \<mapsto> \<lparr>ll_num_elements = 2, ll_head = 2, ll_tail = 3\<rparr>],
     ll_nodes := [2 \<mapsto> \<lparr>node_payload = 20, node_next = 3, node_prev = NULL\<rparr>,
                  3 \<mapsto> \<lparr>node_payload = 10, node_next = NULL, node_prev = 2\<rparr>],
     ll_iters := [4 \<mapsto> \<lparr>it_list = 1, it_node = 2\<rparr>]\<rparr>"

lemma demo_lists_inv: "ll_inv demo_lists [1 \<mapsto> [(2, 20), (3, 10)]]"
  by (auto simp: demo_lists_def mem0_def ll_inv_def structs_def struct_at_def list_head_def
      disjoint_chains_def owned_def below_def split: if_splits)

lemma demo_lists_simps [simp]:
  "next_addr demo_lists = 4" "oom demo_lists n = False"
  "ll_iters demo_lists = [4 \<mapsto> \<lparr>it_list = 1, it_node = 2\<rparr>]"
  by (simp_all add: demo_lists_def mem0_def)

text \<open>C11. \<open>PushLinkedList\<close> and \<open>AppendLinkedList\<close> refine insertion at the two ends of a list: on any
  well-formed memory and any list shorter than \<open>2 ^ 64 - 1\<close> they return \<open>true\<close>, put a new node
  with the payload at the head, at the tail, keep every other list and the counter right, and
  touch no other kind of object; when \<open>malloc\<close> fails they return \<open>false\<close> and change nothing.\<close>

theorem push_append_refine:
  assumes "ll_inv s S" and "S l = Some ns" and "Suc (length ns) < 2 ^ 64"
  shows "if oom s (Suc (next_addr s)) then
      PushLinkedList l x s = Inr (False, s\<lparr>next_addr := Suc (next_addr s)\<rparr>) \<and>
      AppendLinkedList l x s = Inr (False, s\<lparr>next_addr := Suc (next_addr s)\<rparr>)
    else
      runs_to (PushLinkedList l x) s (\<lambda>r s'.
        r \<and> ll_inv s' (S(l \<mapsto> (Suc (next_addr s), x) # ns)) \<and> ll_frame s s') \<and>
      runs_to (AppendLinkedList l x) s (\<lambda>r s'.
        r \<and> ll_inv s' (S(l \<mapsto> ns @ [(Suc (next_addr s), x)])) \<and> ll_frame s s')"
  using PushLinkedList_law [OF assms, of x] AppendLinkedList_law [OF assms, of x]
  by (auto simp: runs_to_iff)

lemma push_append_refine_witness:
  "runs_to (AppendLinkedList 1 30) demo_lists (\<lambda>r s'.
     r \<and> ll_inv s' [1 \<mapsto> [(2, 20), (3, 10), (5, 30)]] \<and> ll_frame demo_lists s')"
  using push_append_refine [OF demo_lists_inv, of 1 "[(2, 20), (3, 10)]" 30] by simp

text \<open>C12. \<open>PopLinkedList\<close> and \<open>SliceLinkedList\<close> refine removal at the two ends: on an empty list they
  return \<open>false\<close> and change nothing; otherwise they hand out the payload of the first, of the
  last node, free that node and leave the other nodes in their order.\<close>

theorem pop_slice_refine:
  assumes "ll_inv s S" and "S l = Some ns"
  shows "if ns = [] then PopLinkedList l s = Inr (None, s) \<and> SliceLinkedList l s = Inr (None, s)
    else
      runs_to (PopLinkedList l) s (\<lambda>r s'.
        r = Some (snd (hd ns)) \<and> ll_inv s' (S(l \<mapsto> tl ns)) \<and> ll_frame s s') \<and>
      runs_to (SliceLinkedList l) s (\<lambda>r s'.
        r = Some (snd (last ns)) \<and> ll_inv s' (S(l \<mapsto> butlast ns)) \<and> ll_frame s s')"
  using PopLinkedList_law [OF assms] SliceLinkedList_law [OF assms]
  by (cases ns) (auto simp: runs_to_iff)

lemma pop_slice_refine_witness:
  "runs_to (PopLinkedList 1) demo_lists (\<lambda>r s'.
     r = Some 20 \<and> ll_inv s' [1 \<mapsto> [(3, 10)]] \<and> ll_frame demo_lists s')"
  using pop_slice_refine [OF demo_lists_inv, of 1 "[(2, 20), (3, 10)]"] by simp

text \<open>C17. \<open>FreeLinkedList\<close> calls the free function exactly once on every payload, from head to
  tail, then the list and all its nodes are gone and every other list is untouched. \<open>P xs\<close> is
  what the free function needs and keeps while the payloads \<open>xs\<close> are still to be freed.\<close>

theorem free_list_frees_all:
  assumes "ll_inv s S" and "S l = Some ns" and "P (map snd ns) s"
    and "\<And>x xs s. P (x # xs) s \<Longrightarrow> runs_to (payload_free x) s (\<lambda>_ s'. P xs s' \<and>
      ll_nodes s' = ll_nodes s \<and> ll_lists s' = ll_lists s \<and> ll_iters s' = ll_iters s \<and>
      next_addr s' = next_addr s)"
    and "\<And>xs s N L. P xs s \<Longrightarrow> P xs (s\<lparr>ll_nodes := N, ll_lists := L\<rparr>)"
  shows "runs_to (FreeLinkedList l payload_free) s (\<lambda>_ s'. ll_inv s' (S(l := None)) \<and> P [] s')"
  using assms by (rule FreeLinkedList_law)

text \<open>The payloads of the witness are key/value records, and the free function is \<open>free\<close>.\<close>

lemma free_list_frees_all_witness:
  "runs_to (FreeLinkedList 1 (dealloc kvs kvs_update))
     (demo_lists\<lparr>kvs := [20 \<mapsto> \<lparr>kv_key = 1, kv_value = 7\<rparr>, 10 \<mapsto> \<lparr>kv_key = 2, kv_value = 8\<rparr>]\<rparr>)
     (\<lambda>_ s'. ll_inv s' Map.empty \<and> kvs s' = Map.empty)"
proof -
  let ?s = "demo_lists\<lparr>kvs := [20 \<mapsto> \<lparr>kv_key = 1, kv_value = 7\<rparr>, 10 \<mapsto> \<lparr>kv_key = 2, kv_value = 8\<rparr>]\<rparr>"
  have "ll_inv ?s [1 \<mapsto> [(2, 20), (3, 10)]]"
    using demo_lists_inv by (subst ll_inv_cong [of _ demo_lists]) simp_all
  then have "runs_to (FreeLinkedList 1 (dealloc kvs kvs_update)) ?s
    (\<lambda>_ s'. ll_inv s' ([1 \<mapsto> [(2, 20), (3, 10)]](1 := None)) \<and>
      (distinct ([] :: addr list) \<and> NULL \<notin> set [] \<and> dom (kvs s') = set []))"
    by (rule free_list_frees_all [where P = "\<lambda>xs s. distinct xs \<and> NULL \<notin> set xs \<and> dom (kvs s) = set xs"])
      (auto simp: wp dom_def split: option.splits)
  then show ?thesis by (rule runs_to_mono) (simp add: fun_upd_idem)
qed

text \<open>C16. \<open>LLIteratorNext\<close> and \<open>LLIteratorPrev\<close> move an iterator to the neighbouring node and return
  \<open>true\<close>, or return \<open>false\<close> and leave it at the end of the list; \<open>LLIteratorGetPayload\<close> reads the
  payload under it. None of them changes a list.\<close>

theorem iterator_moves:
  assumes "ll_inv s S" and "ll_iters s i = Some it" and "at_node S it ms a x ns"
  shows "LLIteratorGetPayload i s = Inr (x, s) \<and>
    LLIteratorHasNext i s = Inr (ns \<noteq> [], s) \<and>
    LLIteratorHasPrev i s = Inr (ms \<noteq> [], s) \<and>
    runs_to (LLIteratorNext i) s (\<lambda>r s'. r = (ns \<noteq> []) \<and> (if r then
      at_node S (the (ll_iters s' i)) (ms @ [(a, x)]) (fst (hd ns)) (snd (hd ns)) (tl ns) \<and>
      ll_inv s' S else s' = s)) \<and>
    runs_to (LLIteratorPrev i) s (\<lambda>r s'. r = (ms \<noteq> []) \<and> (if r then
      at_node S (the (ll_iters s' i)) (butlast ms) (fst (last ms)) (snd (last ms)) ((a, x) # ns) \<and>
      ll_inv s' S else s' = s))"
proof (intro conjI)
  show "runs_to (LLIteratorNext i) s (\<lambda>r s'. r = (ns \<noteq> []) \<and> (if r then
      at_node S (the (ll_iters s' i)) (ms @ [(a, x)]) (fst (hd ns)) (snd (hd ns)) (tl ns) \<and>
      ll_inv s' S else s' = s))"
    by (rule runs_to_mono [OF LLIteratorNext_law [OF assms]]) (cases ns; auto)
  show "runs_to (LLIteratorPrev i) s (\<lambda>r s'. r = (ms \<noteq> []) \<and> (if r then
      at_node S (the (ll_iters s' i)) (butlast ms) (fst (last ms)) (snd (last ms)) ((a, x) # ns) \<and>
      ll_inv s' S else s' = s))"
    by (rule runs_to_mono [OF LLIteratorPrev_law [OF assms]]) (auto split: if_splits)
qed (use LLIteratorGetPayload_law [OF assms] LLIteratorHasNext_law [OF assms]
    LLIteratorHasPrev_law [OF assms] in \<open>auto simp: runs_to_iff\<close>)

lemma iterator_moves_witness:
  "LLIteratorGetPayload 4 demo_lists = Inr (20, demo_lists)"
  using iterator_moves [OF demo_lists_inv, of 4 "\<lparr>it_list = 1, it_node = 2\<rparr>" "[]" 2 20 "[(3, 10)]"]
  by (simp add: at_node_def)

text \<open>C14. \<open>LLIteratorDelete\<close>, at any position, unlinks and frees exactly the node under the iterator
  and moves the iterator to the successor, or at the tail to the predecessor; it returns whether
  the list still has an element.\<close>

theorem iterator_delete:
  assumes "ll_inv s S" and "ll_iters s i = Some it" and "at_node S it ms a x ns"
  shows "runs_to (LLIteratorDelete i (\<lambda>_. ret ())) s (\<lambda>r s'.
    r = (ms @ ns \<noteq> []) \<and> ll_inv s' (S(it_list it \<mapsto> ms @ ns)) \<and>
    ll_iters s' = (ll_iters s)(i \<mapsto>
      it\<lparr>it_node := if ns = [] then last_of NULL ms else first_of ns NULL\<rparr>))"
  using LLIteratorDelete_law [OF assms]
  by (rule runs_to_mono) (auto elim!: delete_postE simp: after_delete_def)

lemma iterator_delete_witness:
  "runs_to (LLIteratorDelete 4 (\<lambda>_. ret ())) demo_lists (\<lambda>r s'.
    r \<and> ll_inv s' [1 \<mapsto> [(3, 10)]] \<and> ll_iters s' = [4 \<mapsto> \<lparr>it_list = 1, it_node = 3\<rparr>])"
  using iterator_delete [OF demo_lists_inv, of 4 "\<lparr>it_list = 1, it_node = 2\<rparr>" "[]" 2 20 "[(3, 10)]"]
  by (simp add: at_node_def)

text \<open>C15. \<open>LLIteratorInsertBefore\<close> inserts a node right before the iterator's, at the head too, and
  reports a failed \<open>malloc\<close> with the list unchanged.\<close>

theorem iterator_insert_before:
  assumes "ll_inv s S" and "ll_iters s i = Some it" and "at_node S it ms a x ns"
    and "length ms + length ns + 2 < 2 ^ 64"
  shows "runs_to (LLIteratorInsertBefore i y) s (\<lambda>r s'.
    if oom s (Suc (next_addr s)) then \<not> r \<and> s' = s\<lparr>next_addr := Suc (next_addr s)\<rparr>
    else r \<and> ll_inv s' (S(it_list it \<mapsto> ms @ (Suc (next_addr s), y) # (a, x) # ns)) \<and>
      at_node (S(it_list it \<mapsto> ms @ (Suc (next_addr s), y) # (a, x) # ns)) it
        (ms @ [(Suc (next_addr s), y)]) a x ns)"
  by (rule runs_to_mono [OF LLIteratorInsertBefore_law [OF assms]])
    (use assms(3) in \<open>auto simp: at_node_def\<close>)

lemma iterator_insert_before_witness:
  "runs_to (LLIteratorInsertBefore 4 30) demo_lists (\<lambda>r s'.
    r \<and> ll_inv s' [1 \<mapsto> [(5, 30), (2, 20), (3, 10)]])"
  by (rule runs_to_mono [OF iterator_insert_before [OF demo_lists_inv, of 4
        "\<lparr>it_list = 1, it_node = 2\<rparr>" "[]" 2 20 "[(3, 10)]" 30]])
    (simp_all add: at_node_def)

text \<open>C18. A linked list used through \<open>AppendLinkedList\<close> and \<open>PopLinkedList\<close>, or through
  \<open>PushLinkedList\<close> and \<open>SliceLinkedList\<close>, is a first-in-first-out queue: any sequence of operations
  answers as the abstract queue does.\<close>

theorem list_is_fifo:
  assumes "F l = Some xs" and "Suc (length xs + length (puts ops)) < 2 ^ 64"
  shows "(ll_fifo (\<lambda>xs. xs) s F \<longrightarrow>
      runs_to (run_fifo (\<lambda>l x. bnd (AppendLinkedList l x) (\<lambda>_. ret ())) PopLinkedList l ops) s
        (\<lambda>rs s'. rs = fst (fifo_spec ops xs) \<and> ll_fifo (\<lambda>xs. xs) s' (F(l \<mapsto> snd (fifo_spec ops xs))))) \<and>
    (ll_fifo rev s F \<longrightarrow>
      runs_to (run_fifo (\<lambda>l x. bnd (PushLinkedList l x) (\<lambda>_. ret ())) SliceLinkedList l ops) s
        (\<lambda>rs s'. rs = fst (fifo_spec ops xs) \<and> ll_fifo rev s' (F(l \<mapsto> snd (fifo_spec ops xs)))))"
  using append_pop.run_fifo_spec [where F = F and q = l and xs = xs and s = s and ops = ops]
    push_slice.run_fifo_spec [where F = F and q = l and xs = xs and s = s and ops = ops] assms by auto

lemma list_is_fifo_witness:
  "runs_to (run_fifo (\<lambda>l x. bnd (AppendLinkedList l x) (\<lambda>_. ret ())) PopLinkedList 1
       [Take, Put 30, Take, Take, Take]) demo_lists
     (\<lambda>rs s'. rs = [Some 20, Some 10, Some 30, None])"
proof -
  have "ll_fifo (\<lambda>xs. xs) demo_lists [1 \<mapsto> [20, 10]]"
    unfolding ll_fifo_def using demo_lists_inv by (auto intro!: exI [of _ "[1 \<mapsto> [(2, 20), (3, 10)]]"])
  with list_is_fifo [of "[1 \<mapsto> [20, 10]]" 1 "[20, 10]" "[Take, Put 30, Take, Take, Take]" demo_lists]
  show ?thesis by (auto elim: runs_to_mono)
qed

end
