(* ===== verification/LinkedListSort.thy ===== *)
theory LinkedListSort
  imports LinkedList
begin

text \<open>
  \<open>SortLinkedList\<close>: the bubble sort of LinkedList.c. A pass over the list in memory is
  \<open>bubble\<close> on the list of payloads; the passes end because each one that swaps removes an
  inversion, and the list they leave is the stable sort of the payloads.
\<close>

section \<open>A pass on the payloads\<close>

fun bubble :: "('a \<Rightarrow> 'a \<Rightarrow> bool) \<Rightarrow> 'a list \<Rightarrow> 'a list \<times> bool" where
  "bubble sw [] = ([], False)"
| "bubble sw [x] = ([x], False)"
| "bubble sw (x # y # xs) =
     (if sw x y then (y # fst (bubble sw (x # xs)), True)
      else (x # fst (bubble sw (y # xs)), snd (bubble sw (y # xs))))"

text \<open>The pairs that are in the wrong order for the key \<open>f\<close>.\<close>

fun inversions :: "('a \<Rightarrow> int) \<Rightarrow> 'a list \<Rightarrow> nat" where
  "inversions f [] = 0"
| "inversions f (x # xs) = length (filter (\<lambda>y. f y < f x) xs) + inversions f xs"

abbreviation out_of_order :: "('a \<Rightarrow> int) \<Rightarrow> 'a \<Rightarrow> 'a \<Rightarrow> bool" where
  "out_of_order f \<equiv> (\<lambda>x y. f y < f x)"

lemma mset_bubble [simp]: "mset (fst (bubble sw xs)) = mset xs"
  by (induction sw xs rule: bubble.induct) auto

lemma length_bubble [simp]: "length (fst (bubble sw xs)) = length xs"
  by (induction sw xs rule: bubble.induct) auto

lemma length_filter_bubble [simp]:
  "length (filter P (fst (bubble sw xs))) = length (filter P xs)"
  by (metis mset_bubble mset_filter size_mset)

lemma inversions_bubble_le: "inversions f (fst (bubble (out_of_order f) xs)) \<le> inversions f xs"
  by (induction "out_of_order f" xs rule: bubble.induct) auto

lemma inversions_bubble_less:
  "snd (bubble (out_of_order f) xs) \<Longrightarrow> inversions f (fst (bubble (out_of_order f) xs)) < inversions f xs"
proof (induction "out_of_order f" xs rule: bubble.induct)
  case (3 x y xs)
  show ?case
  proof (cases "f y < f x")
    case True
    with inversions_bubble_le [of f "x # xs"] show ?thesis by simp
  qed (use 3 in simp)
qed simp_all

lemma bubble_sorted:
  "\<not> snd (bubble (out_of_order f) xs) \<Longrightarrow> fst (bubble (out_of_order f) xs) = xs \<and> sorted (map f xs)"
  by (induction "out_of_order f" xs rule: bubble.induct) (auto split: if_splits)

lemma bubble_stable:
  "filter (\<lambda>z. f z = c) (fst (bubble (out_of_order f) xs)) = filter (\<lambda>z. f z = c) xs"
proof (induction "out_of_order f" xs rule: bubble.induct)
  case (3 x y xs)
  then show ?case by (cases "f y < f x") auto
qed simp_all

section \<open>A pass in memory\<close>

definition with_payloads :: "nodes \<Rightarrow> addr list \<Rightarrow> nodes" where
  "with_payloads ns xs = zip (map fst ns) xs"

text \<open>What a comparator that follows its documentation makes the sort swap.\<close>

definition swaps :: "bool \<Rightarrow> (addr \<Rightarrow> addr \<Rightarrow> int) \<Rightarrow> addr \<Rightarrow> addr \<Rightarrow> bool" where
  "swaps ascending cmp a b = ((if ascending then cmp a b * -1 else cmp a b) < 0)"

lemma runs_to_compare_swap [wp]:
  "runs_to (compare_swap asc cmp a b) s Q =
     (\<not> (asc \<and> cmp a b = - (2 ^ 31)) \<and> Q (swaps asc cmp a b) s)"
  by (simp add: compare_swap_def Let_def wp swaps_def)

lemma with_payloads_simps [simp]:
  "with_payloads [] xs = []"
  "with_payloads ((a, x) # ns) (y # ys) = (a, y) # with_payloads ns ys"
  "map fst (with_payloads ns xs) = take (length xs) (map fst ns)"
  by (simp_all add: with_payloads_def map_fst_zip_take min_def)

lemma length_with_payloads [simp]: "length (with_payloads ns xs) = min (length ns) (length xs)"
  by (simp add: with_payloads_def)

lemma first_of_with_payloads [simp]:
  "length xs = length ns \<Longrightarrow> first_of (with_payloads ns xs) q = first_of ns q"
  by (cases ns; cases xs) (auto simp: with_payloads_def)

lemma node_addrs_with_payloads [simp]:
  "length xs = length ns \<Longrightarrow> node_addrs (with_payloads ns xs) = node_addrs ns"
  by (metis fst_set_node_addrs length_map list.set_map take_all with_payloads_simps(3) order_refl)

lemma last_of_with_payloads [simp]:
  "length xs = length ns \<Longrightarrow> last_of p (with_payloads ns xs) = last_of p ns"
  by (induction p ns arbitrary: xs rule: last_of.induct)
    (auto simp: with_payloads_def length_Suc_conv)

lemma chain_with_payloads_Cons:
  assumes "chain N a (with_payloads ((c, z) # ns) xs) NULL" and "length xs = Suc (length ns)"
    and "N a = Some \<lparr>node_payload = w, node_next = c, node_prev = p\<rparr>" and "a \<noteq> NULL"
  shows "chain N p (with_payloads ((a, x) # (c, y) # ns) (w # xs)) NULL"
proof -
  have "with_payloads ((c, z) # ns) xs = with_payloads ((c, y) # ns) xs"
    by (simp add: with_payloads_def)
  with assms show ?thesis by simp
qed

text \<open>What a pass from the first node of \<open>ns\<close> leaves.\<close>

definition pass_post :: "(addr \<Rightarrow> addr \<Rightarrow> bool) \<Rightarrow> addr \<Rightarrow> nodes \<Rightarrow> bool \<Rightarrow> mem \<Rightarrow>
    addr \<times> bool \<Rightarrow> mem \<Rightarrow> bool" where
  "pass_post sw p ns b s r s' \<longleftrightarrow>
     (\<exists>N. s' = s\<lparr>ll_nodes := N\<rparr> \<and>
        chain N p (with_payloads ns (fst (bubble sw (map snd ns)))) NULL \<and>
        (\<forall>c. c \<notin> node_addrs ns \<longrightarrow> N c = ll_nodes s c) \<and>
        snd r = (b \<or> snd (bubble sw (map snd ns))))"

lemma pass_post_swap:
  assumes post: "pass_post sw a ((c, x) # ns) True (s\<lparr>ll_nodes := (ll_nodes s)
        (a \<mapsto> \<lparr>node_payload = y, node_next = c, node_prev = p\<rparr>, c \<mapsto> n)\<rparr>) r s'"
    and "sw x y" and ne: "a \<noteq> c" "a \<noteq> NULL" "a \<notin> node_addrs ns"
  shows "pass_post sw p ((a, x) # (c, y) # ns) b s r s'"
proof -
  from post obtain N where N: "s' = s\<lparr>ll_nodes := N\<rparr>"
    "chain N a (with_payloads ((c, x) # ns) (fst (bubble sw (x # map snd ns)))) NULL"
    "\<And>e. e \<noteq> c \<Longrightarrow> e \<notin> node_addrs ns \<Longrightarrow>
       N e = ((ll_nodes s)(a \<mapsto> \<lparr>node_payload = y, node_next = c, node_prev = p\<rparr>)) e" "snd r"
    by (auto simp: pass_post_def)
  have "chain N p (with_payloads ((a, x) # (c, y) # ns) (y # fst (bubble sw (x # map snd ns)))) NULL"
    by (rule chain_with_payloads_Cons [OF N(2)]) (use N(3) [of a] ne in simp_all)
  with N assms(2) show ?thesis by (auto simp: pass_post_def intro!: exI [of _ N])
qed

lemma pass_post_keep:
  assumes post: "pass_post sw a ((c, y) # ns) b s r s'" and "\<not> sw x y"
    and ne: "a \<noteq> c" "a \<noteq> NULL" "a \<notin> node_addrs ns"
    and la: "ll_nodes s a = Some \<lparr>node_payload = x, node_next = c, node_prev = p\<rparr>"
  shows "pass_post sw p ((a, x) # (c, y) # ns) b s r s'"
proof -
  from post obtain N where N: "s' = s\<lparr>ll_nodes := N\<rparr>"
    "chain N a (with_payloads ((c, y) # ns) (fst (bubble sw (y # map snd ns)))) NULL"
    "\<And>e. e \<noteq> c \<Longrightarrow> e \<notin> node_addrs ns \<Longrightarrow> N e = ll_nodes s e"
    "snd r = (b \<or> snd (bubble sw (y # map snd ns)))"
    by (auto simp: pass_post_def)
  have "chain N p (with_payloads ((a, x) # (c, y) # ns) (x # fst (bubble sw (y # map snd ns)))) NULL"
    by (rule chain_with_payloads_Cons [OF N(2)]) (use N(3) [of a] ne la in simp_all)
  with N assms(2) show ?thesis by (auto simp: pass_post_def intro!: exI [of _ N])
qed

lemma sort_pass_law:
  assumes "chain (ll_nodes s) p ((a, x) # ns) NULL" and "distinct (map fst ((a, x) # ns))"
    and ok: "\<And>u v. asc \<Longrightarrow> cmp u v \<noteq> - (2 ^ 31)"
  shows "runs_to (sort_pass asc cmp (a, b)) s (pass_post (swaps asc cmp) p ((a, x) # ns) b s)"
  using assms(1,2)
proof (induction ns arbitrary: a x b s p)
  case Nil
  then show ?case
    by (subst sort_pass_def, subst whileM_unfold)
      (auto simp: wp with_payloads_def pass_post_def intro!: exI [of _ "ll_nodes s"])
next
  case (Cons d ns)
  obtain c y where d: "d = (c, y)" by force
  let ?s1 = "s\<lparr>ll_nodes := (ll_nodes s)(a \<mapsto> \<lparr>node_payload = y, node_next = c, node_prev = p\<rparr>,
      c \<mapsto> \<lparr>node_payload = x, node_next = first_of ns NULL, node_prev = a\<rparr>)\<rparr>"
  from Cons.prems d have ne: "a \<noteq> c" "a \<notin> node_addrs ns" "c \<notin> node_addrs ns" "c \<noteq> NULL" "a \<noteq> NULL"
    and la: "ll_nodes s a = Some \<lparr>node_payload = x, node_next = c, node_prev = p\<rparr>"
    and tl: "chain (ll_nodes s) c ns NULL" by auto
  show ?case
  proof (cases "swaps asc cmp x y")
    case True
    have "runs_to (sort_pass asc cmp (c, True)) ?s1 (pass_post (swaps asc cmp) a ((c, x) # ns) True ?s1)"
    proof (rule Cons.IH)
      show "chain (ll_nodes ?s1) a ((c, x) # ns) NULL" using ne tl by (simp only: dchain.simps) simp
    qed (use Cons.prems d in simp_all)
    then have "runs_to (sort_pass asc cmp (c, True)) ?s1 (pass_post (swaps asc cmp) p ((a, x) # d # ns) b s)"
      unfolding d by (rule runs_to_mono) (erule pass_post_swap; use True ne in simp)
    with True Cons.prems d ne ok show ?thesis
      by (subst sort_pass_def, subst whileM_unfold, fold sort_pass_def) (simp add: wp)
  next
    case False
    have "runs_to (sort_pass asc cmp (c, b)) s (pass_post (swaps asc cmp) a ((c, y) # ns) b s)"
      by (rule Cons.IH) (use Cons.prems d ne in auto)
    then have "runs_to (sort_pass asc cmp (c, b)) s (pass_post (swaps asc cmp) p ((a, x) # d # ns) b s)"
      unfolding d by (rule runs_to_mono) (erule pass_post_keep; use False ne la in simp)
    with False Cons.prems d ne ok show ?thesis
      by (subst sort_pass_def, subst whileM_unfold, fold sort_pass_def) (simp add: wp)
  qed
qed

section \<open>The sort\<close>

text \<open>
  A comparator as LinkedList.h documents it: \<open>-1\<close>, \<open>0\<close> or \<open>1\<close> for a payload whose key is
  less than, equal to or greater than the other's.
\<close>

definition compares :: "(addr \<Rightarrow> int) \<Rightarrow> addr \<Rightarrow> addr \<Rightarrow> int" where
  "compares key a b = (if key a < key b then - 1 else if key a = key b then 0 else 1)"

definition sort_dir :: "bool \<Rightarrow> (addr \<Rightarrow> int) \<Rightarrow> addr \<Rightarrow> int" where
  "sort_dir ascending key x = (if ascending then key x else - key x)"

lemma swaps_compares: "swaps asc (compares key) = out_of_order (sort_dir asc key)"
  by (auto simp: swaps_def compares_def sort_dir_def fun_eq_iff)

text \<open>
  The state between two passes: the payloads \<open>xs\<close> are a stable rearrangement of those the
  sort started with; they are sorted when the last pass swapped nothing.
\<close>

definition between_passes :: "mem \<Rightarrow> (addr \<rightharpoonup> nodes) \<Rightarrow> addr \<Rightarrow> nodes \<Rightarrow> (addr \<Rightarrow> int) \<Rightarrow>
    addr list \<Rightarrow> mem \<Rightarrow> bool" where
  "between_passes s S l ns f xs s' \<longleftrightarrow>
     mset xs = mset (map snd ns) \<and>
     (\<forall>c. filter (\<lambda>x. f x = c) xs = filter (\<lambda>x. f x = c) (map snd ns)) \<and>
     ll_inv s' (S(l \<mapsto> with_payloads ns xs)) \<and> (\<exists>N. s' = s\<lparr>ll_nodes := N\<rparr>)"

lemma between_passes_step:
  assumes bp: "between_passes s S l ns f xs s'" and l: "S l = Some ns"
    and post: "pass_post (out_of_order f) NULL (with_payloads ns xs) False s' r s''"
  shows "between_passes s S l ns f (fst (bubble (out_of_order f) xs)) s''"
    and "snd r = snd (bubble (out_of_order f) xs)"
proof -
  let ?ys = "fst (bubble (out_of_order f) xs)"
  from bp have inv: "ll_inv s' (S(l \<mapsto> with_payloads ns xs))" and len: "length xs = length ns"
    unfolding between_passes_def by (blast, metis length_map mset_eq_length)
  from len have snd_xs: "map snd (with_payloads ns xs) = xs"
    and again: "with_payloads (with_payloads ns xs) ys = with_payloads ns ys" for ys
    by (simp_all add: with_payloads_def)
  from post obtain N where N: "s'' = s'\<lparr>ll_nodes := N\<rparr>" "chain N NULL (with_payloads ns ?ys) NULL"
    "\<And>c. c \<notin> node_addrs ns \<Longrightarrow> N c = ll_nodes s' c" "snd r = snd (bubble (out_of_order f) xs)"
    unfolding pass_post_def snd_xs again by (auto simp: len)
  have at: "list_at (ll_lists s') (ll_nodes s') l (with_payloads ns xs)"
    by (rule ll_inv_list_at [OF inv]) simp
  have "ll_inv s'' ((S(l \<mapsto> with_payloads ns xs))(l \<mapsto> with_payloads ns ?ys))"
  proof (rule ll_inv_update [OF inv])
    show "list_at (ll_lists s'') (ll_nodes s'') l (with_payloads ns ?ys)"
      using at N(1,2) len by (simp add: list_at_iff)
    have "dom N = dom (ll_nodes s')"
    proof -
      have "c \<in> dom N \<longleftrightarrow> c \<in> dom (ll_nodes s')" for c
        using N(3) [of c] dchain_dom [OF N(2)] dchain_dom [OF list_atD(2) [OF at]] len
        by (cases "c \<in> node_addrs ns") (auto simp: domIff subset_iff)
      then show ?thesis by blast
    qed
    then show "below (ll_nodes s'') (next_addr s'')"
      using ll_invD(4) [OF inv] N(1) unfolding below_def dom_def by fastforce
  qed (use N len ll_invD [OF inv] in auto)
  with bp N(1,4) show "between_passes s S l ns f ?ys s''" "snd r = snd (bubble (out_of_order f) xs)"
    by (auto simp: between_passes_def bubble_stable)
qed


lemma sort_loop_law:
  assumes inv: "ll_inv s S" and l: "S l = Some ns" and ne: "ns \<noteq> []"
    and cmp: "swaps asc cmp = out_of_order f" "\<And>u v. asc \<Longrightarrow> cmp u v \<noteq> - (2 ^ 31)"
  shows "runs_to (whileM (\<lambda>swapped. ret swapped)
       (\<lambda>_. bnd (rd_list l) (\<lambda>h.
            bnd (sort_pass asc cmp (ll_head h, False)) (\<lambda>(_, swapped).
            ret swapped))) True) s
     (\<lambda>_ s'. \<exists>xs. between_passes s S l ns f xs s' \<and> sorted (map f xs))"
proof (rule runs_to_whileM_variant [where I = "\<lambda>k swapped s'. \<exists>xs.
    between_passes s S l ns f xs s' \<and>
    (if swapped then k = Suc (inversions f xs) else sorted (map f xs))"])
  fix k swapped s'
  assume "\<exists>xs. between_passes s S l ns f xs s' \<and>
      (if swapped then k = Suc (inversions f xs) else sorted (map f xs))"
  then obtain xs where bp: "between_passes s S l ns f xs s'"
    and k: "if swapped then k = Suc (inversions f xs) else sorted (map f xs)" by blast
  from bp have inv': "ll_inv s' (S(l \<mapsto> with_payloads ns xs))" and len: "length xs = length ns"
    unfolding between_passes_def by (blast, metis length_map mset_eq_length)
  note at = list_atD [OF ll_inv_list_at [OF inv', of l, simplified]]
  from ne len obtain a x ms where ms: "with_payloads ns xs = (a, x) # ms"
    by (cases ns; cases xs) auto
  have pass: "runs_to (sort_pass asc cmp (a, False)) s'
      (pass_post (swaps asc cmp) NULL ((a, x) # ms) False s')"
    by (rule sort_pass_law) (use at(2,3) ms cmp(2) in auto)
  have "\<exists>j < k. \<exists>xs. between_passes s S l ns f xs s'' \<and>
      (if snd r then j = Suc (inversions f xs) else sorted (map f xs))"
    if "swapped" and post: "pass_post (swaps asc cmp) NULL ((a, x) # ms) False s' r s''" for r s''
  proof -
    note st = between_passes_step [OF bp l post [unfolded cmp(1), folded ms]]
    show ?thesis
    proof (cases "snd r")
      case True
      with st inversions_bubble_less [of f xs] k that(1) show ?thesis by auto
    next
      case False
      with st bubble_sorted [of f xs] k that(1) show ?thesis by (intro exI [of _ 0]) auto
    qed
  qed
  then show "runs_to (ret swapped) s' (\<lambda>go s'.
      if go then runs_to (bnd (rd_list l) (\<lambda>h. bnd (sort_pass asc cmp (ll_head h, False))
        (\<lambda>(_, swapped). ret swapped))) s'
        (\<lambda>swapped s''. \<exists>j < k. \<exists>xs. between_passes s S l ns f xs s'' \<and>
          (if swapped then j = Suc (inversions f xs) else sorted (map f xs)))
      else \<exists>xs. between_passes s S l ns f xs s' \<and> sorted (map f xs))"
  proof (cases swapped)
    case True
    assume *: "\<And>r s''. swapped \<Longrightarrow> pass_post (swaps asc cmp) NULL ((a, x) # ms) False s' r s'' \<Longrightarrow>
      \<exists>j < k. \<exists>xs. between_passes s S l ns f xs s'' \<and>
        (if snd r then j = Suc (inversions f xs) else sorted (map f xs))"
    from runs_to_mono [OF pass * [OF True]] True at(1) ms show ?thesis
      by (simp add: wp split_beta split del: if_split)
  qed (use bp k in \<open>auto simp: wp\<close>)
next
  have "between_passes s S l ns f (map snd ns) s"
    using inv l
    by (auto simp: between_passes_def with_payloads_def zip_map_fst_snd map_upd_triv
        intro: exI [of _ "ll_nodes s"])
  then show "\<exists>xs. between_passes s S l ns f xs s \<and>
      (if True then Suc (inversions f (map snd ns)) = Suc (inversions f xs) else sorted (map f xs))"
    by auto
qed

text \<open>A stable rearrangement that is sorted is the library's \<open>sort_key\<close>.\<close>

lemma between_passes_sort_key:
  assumes "between_passes s S l ns f xs s'" and "sorted (map f xs)"
  shows "xs = sort_key f (map snd ns)"
proof (rule properties_for_sort_key [symmetric])
  show "mset xs = mset (map snd ns)" "sorted (map f xs)"
    using assms by (simp_all add: between_passes_def)
  have "filter (\<lambda>x. f x = f k) xs = filter (\<lambda>x. f x = f k) (map snd ns)" for k
    using assms(1) unfolding between_passes_def by blast
  then show "filter (\<lambda>x. f k = f x) xs = filter (\<lambda>x. f k = f x) (map snd ns)" for k
    by (simp only: eq_commute [of "f k"])
qed

lemma SortLinkedList_law:
  assumes inv: "ll_inv s S" and l: "S l = Some ns"
  shows "runs_to (SortLinkedList l asc (compares key)) s (\<lambda>_ s'.
    ll_inv s' (S(l \<mapsto> with_payloads ns (sort_key (sort_dir asc key) (map snd ns)))) \<and>
    (\<exists>N. s' = s\<lparr>ll_nodes := N\<rparr>))"
proof -
  let ?f = "sort_dir asc key"
  note at = list_atD [OF ll_inv_list_at [OF inv l]]
  show ?thesis
  proof (cases "length ns < 2")
    case True
    then have "sort_key ?f (map snd ns) = map snd ns"
      by (cases ns; cases "tl ns") auto
    with True at inv l show ?thesis
      by (auto simp: SortLinkedList_def wp count_simps with_payloads_def zip_map_fst_snd map_upd_triv
          intro: exI [of _ "ll_nodes s"])
  next
    case False
    then have "ns \<noteq> []" by auto
    have "compares key u v \<noteq> - (2 ^ 31)" for u v by (simp add: compares_def)
    note loop = sort_loop_law [OF inv l \<open>ns \<noteq> []\<close> swaps_compares this]
    show ?thesis
      by (simp add: SortLinkedList_def wp at count_simps [OF at(4)] False, rule runs_to_mono [OF loop])
        (metis between_passes_def between_passes_sort_key)
  qed
qed

section \<open>Property\<close>

lemma with_payloads_payloads:
  "length xs = length ns \<Longrightarrow> map snd (with_payloads ns xs) = xs \<and> map fst (with_payloads ns xs) = map fst ns"
  by (simp add: with_payloads_def)

text \<open>C13. \<open>SortLinkedList\<close> ends, and leaves the same nodes holding the same payloads sorted in the
  requested direction, equal ones in their old order, for every comparator that returns -1, 0 or
  1 as the header demands; nothing else in memory changes.\<close>

theorem sort_correct:
  assumes "ll_inv s S" and "S l = Some ns"
  shows "runs_to (SortLinkedList l asc (compares key)) s (\<lambda>_ s'. \<exists>ms.
    ll_inv s' (S(l \<mapsto> ms)) \<and> map fst ms = map fst ns \<and>
    mset (map snd ms) = mset (map snd ns) \<and>
    sorted_wrt (\<lambda>x y. if asc then key x \<le> key y else key y \<le> key x) (map snd ms) \<and>
    (\<forall>k. filter (\<lambda>x. key x = k) (map snd ms) = filter (\<lambda>x. key x = k) (map snd ns)) \<and>
    (\<exists>N. s' = s\<lparr>ll_nodes := N\<rparr>))"
proof (rule runs_to_mono [OF SortLinkedList_law [OF assms]])
  fix s'
  let ?f = "sort_dir asc key" and ?ms = "with_payloads ns (sort_key (sort_dir asc key) (map snd ns))"
  assume *: "ll_inv s' (S(l \<mapsto> ?ms)) \<and> (\<exists>N. s' = s\<lparr>ll_nodes := N\<rparr>)"
  have p: "map snd ?ms = sort_key ?f (map snd ns)" "map fst ?ms = map fst ns"
    using with_payloads_payloads [of "sort_key ?f (map snd ns)" ns] by simp_all
  have "sorted_wrt (\<lambda>x y. ?f x \<le> ?f y) (map snd ?ms)"
    using sorted_sort_key [of ?f "map snd ns"] by (simp add: p sorted_map)
  then have "sorted_wrt (\<lambda>x y. if asc then key x \<le> key y else key y \<le> key x) (map snd ?ms)"
    by (rule sorted_wrt_mono_rel [rotated]) (simp add: sort_dir_def split: if_splits)
  moreover have "filter (\<lambda>x. key x = k) (map snd ?ms) = filter (\<lambda>x. key x = k) (map snd ns)" for k
    using sort_key_stable [of ?f "sort_dir asc (\<lambda>_. k) 0" "map snd ns"]
    by (simp add: p sort_dir_def split: if_splits)
  ultimately show "\<exists>ms. ll_inv s' (S(l \<mapsto> ms)) \<and> map fst ms = map fst ns \<and>
      mset (map snd ms) = mset (map snd ns) \<and>
      sorted_wrt (\<lambda>x y. if asc then key x \<le> key y else key y \<le> key x) (map snd ms) \<and>
      (\<forall>k. filter (\<lambda>x. key x = k) (map snd ms) = filter (\<lambda>x. key x = k) (map snd ns)) \<and>
      (\<exists>N. s' = s\<lparr>ll_nodes := N\<rparr>)"
    using * p by (intro exI [of _ ?ms]) simp
qed

lemma sort_correct_witness:
  "runs_to (SortLinkedList 1 True (compares int)) demo_lists (\<lambda>_ s'. \<exists>ms.
     ll_inv s' [1 \<mapsto> ms] \<and> map snd ms = [10, 20])"
proof (rule runs_to_mono [OF sort_correct [OF demo_lists_inv]])
  show "[1 \<mapsto> [(2, 20), (3, 10)]] 1 = Some [(2, 20), (3, 10)]" by simp
next
  fix s'
  assume "\<exists>ms. ll_inv s' ([1 \<mapsto> [(2, 20), (3, 10)]](1 \<mapsto> ms)) \<and>
    map fst ms = map fst [(2 :: addr, 20 :: addr), (3, 10)] \<and>
    mset (map snd ms) = mset (map snd [(2 :: addr, 20), (3, 10)]) \<and>
    sorted_wrt (\<lambda>x y. if True then int x \<le> int y else int y \<le> int x) (map snd ms) \<and>
    (\<forall>k. filter (\<lambda>x. int x = k) (map snd ms) = filter (\<lambda>x. int x = k) (map snd [(2 :: addr, 20), (3, 10)])) \<and>
    (\<exists>N. s' = demo_lists\<lparr>ll_nodes := N\<rparr>)"
  then obtain ms where ms: "ll_inv s' [1 \<mapsto> ms]" "mset (map snd ms) = {#10, 20#}"
    "sorted_wrt (\<le>) (map snd ms)" by auto
  then have "map snd ms = sort [10, 20]" by (intro properties_for_sort [symmetric]) simp_all
  with ms(1) show "\<exists>ms. ll_inv s' [1 \<mapsto> ms] \<and> map snd ms = [10, 20]" by auto
qed

end
