(* ===== verification/Bytes.thy ===== *)
theory Bytes
  imports Memory
begin

text \<open>
  Raw bytes: the \<open>char*\<close> arrays of the program, reads and writes of a part of one
  (\<open>memcpy\<close>, the fields of a struct behind a cast pointer), and the layout of a 32-bit
  integer. Both ends copy structs as they lie in memory; the layout is that of a
  little-endian machine (x86), where \<open>uint32_t\<close> and \<open>int\<close> are aligned at 4 bytes.
\<close>

section \<open>Byte arrays in memory\<close>

text \<open>\<open>malloc(n)\<close> of raw bytes: nothing has been written to them yet.\<close>

definition malloc_bytes :: "nat \<Rightarrow> (mem, addr) prog" where
  "malloc_bytes n = malloc_obj chars chars_update (replicate n None)"

text \<open>
  The \<open>n\<close> bytes from offset \<open>off\<close> of the array at \<open>p\<close>, and the replacement of the bytes
  from an offset; reaching outside of the array is undefined. Copying no bytes asks nothing
  of the offset.
\<close>

definition read_bytes :: "addr \<Rightarrow> nat \<Rightarrow> nat \<Rightarrow> (mem, 8 word option list) prog" where
  "read_bytes p off n =
     bnd (load chars p) (\<lambda>bs.
     if off + n \<le> length bs then ret (take n (drop off bs)) else halt Undefined)"

definition splice :: "nat \<Rightarrow> 'a list \<Rightarrow> 'a list \<Rightarrow> 'a list" where
  "splice off new bs = take off bs @ new @ drop (off + length new) bs"

definition write_bytes :: "addr \<Rightarrow> nat \<Rightarrow> 8 word option list \<Rightarrow> (mem, unit) prog" where
  "write_bytes p off new =
     bnd (load chars p) (\<lambda>bs.
     if off + length new \<le> length bs then store chars chars_update p (splice off new)
     else halt Undefined)"

definition free_bytes :: "addr \<Rightarrow> (mem, unit) prog" where
  "free_bytes = dealloc chars chars_update"

lemma length_splice [simp]: "off + length new \<le> length bs \<Longrightarrow> length (splice off new bs) = length bs"
  by (simp add: splice_def)

lemma splice_nth: "off + length new \<le> length bs \<Longrightarrow> i < length bs \<Longrightarrow>
    splice off new bs ! i = (if off \<le> i \<and> i < off + length new then new ! (i - off) else bs ! i)"
  by (auto simp: splice_def nth_append)

lemma splice_Nil [simp]: "splice off [] bs = bs"
  by (simp add: splice_def)

lemma splice_whole: "length new = length bs \<Longrightarrow> splice 0 new bs = new"
  by (simp add: splice_def)

section \<open>32-bit integers\<close>

definition le32 :: "32 word \<Rightarrow> 8 word list" where
  "le32 w = map (\<lambda>i. ucast (drop_bit (8 * i) w)) [0, 1, 2, 3]"

fun of_le32 :: "8 word list \<Rightarrow> 32 word" where
  "of_le32 [] = 0"
| "of_le32 (b # bs) = ucast b OR push_bit 8 (of_le32 bs)"

lemma length_le32 [simp]: "length (le32 w) = 4"
  by (simp add: le32_def)

lemma of_le32_le32 [simp]: "of_le32 (le32 w) = w"
proof (rule bit_word_eqI)
  fix n assume n: "n < LENGTH(32)"
  then consider "n < 8" | "8 \<le> n" "n < 16" | "16 \<le> n" "n < 24" | "24 \<le> n" "n < 32" by fastforce
  then show "bit (of_le32 (le32 w)) n = bit w n"
    by cases (use n in \<open>auto simp: le32_def bit_simps\<close>)
qed

text \<open>
  A field that is read must have been written: a byte that is \<open>None\<close> makes the read
  undefined.
\<close>

definition initialised :: "'a option list \<Rightarrow> 'a list option" where
  "initialised bs = (if None \<in> set bs then None else Some (map the bs))"

lemma initialised_Some [simp]: "initialised (map Some xs) = Some xs"
  by (simp add: initialised_def comp_def image_iff)

definition read_word :: "addr \<Rightarrow> nat \<Rightarrow> (mem, 32 word) prog" where
  "read_word p off =
     bnd (read_bytes p off 4) (\<lambda>bs.
     case initialised bs of None \<Rightarrow> halt Undefined | Some ws \<Rightarrow> ret (of_le32 ws))"

definition read_bool :: "addr \<Rightarrow> nat \<Rightarrow> (mem, bool) prog" where
  "read_bool p off =
     bnd (read_bytes p off 1) (\<lambda>bs.
     case initialised bs of None \<Rightarrow> halt Undefined | Some ws \<Rightarrow> ret (hd ws \<noteq> 0))"

text \<open>\<open>word_at bs off\<close>: the value of the 32-bit field at offset \<open>off\<close>, when it is there.\<close>

definition word_at :: "8 word option list \<Rightarrow> nat \<Rightarrow> 32 word option" where
  "word_at bs off =
     (if off + 4 \<le> length bs then map_option of_le32 (initialised (take 4 (drop off bs))) else None)"

lemma runs_to_read_bytes [wp]:
  "runs_to (read_bytes p off n) s Q =
     (case chars s p of None \<Rightarrow> False
      | Some bs \<Rightarrow> off + n \<le> length bs \<and> Q (take n (drop off bs)) s)"
  by (auto simp: read_bytes_def wp split: option.splits)

lemma runs_to_write_bytes [wp]:
  "runs_to (write_bytes p off new) s Q =
     (case chars s p of None \<Rightarrow> False
      | Some bs \<Rightarrow> off + length new \<le> length bs \<and>
          Q () (s\<lparr>chars := (chars s)(p \<mapsto> splice off new bs)\<rparr>))"
  by (auto simp: write_bytes_def wp split: option.splits)

lemma runs_to_read_word [wp]:
  "runs_to (read_word p off) s Q =
     (case chars s p of None \<Rightarrow> False
      | Some bs \<Rightarrow> (case word_at bs off of None \<Rightarrow> False | Some w \<Rightarrow> Q w s))"
  by (auto simp: read_word_def word_at_def wp split: option.splits)

lemma runs_to_malloc_bytes [wp]:
  "runs_to (malloc_bytes n) s Q =
     (if oom s (Suc (next_addr s)) then Q NULL (s\<lparr>next_addr := Suc (next_addr s)\<rparr>)
      else Q (Suc (next_addr s)) (s\<lparr>next_addr := Suc (next_addr s),
             chars := (chars s)(Suc (next_addr s) \<mapsto> replicate n None)\<rparr>))"
  by (simp add: malloc_bytes_def wp Let_def)

lemma unat_of_nat32: "n < 2 ^ 32 \<Longrightarrow> unat (of_nat n :: 32 word) = n"
  by (simp add: unsigned_of_nat take_bit_nat_eq_self)

section \<open>The integer type \<open>int\<close>\<close>

text \<open>Signed overflow is undefined.\<close>

definition in_int :: "int \<Rightarrow> bool" where
  "in_int i \<longleftrightarrow> - (2 ^ 31) \<le> i \<and> i < 2 ^ 31"

definition add_int :: "int \<Rightarrow> int \<Rightarrow> ('s, int) prog" where
  "add_int i j = (if in_int (i + j) then ret (i + j) else halt Undefined)"

lemma runs_to_add_int [wp]: "runs_to (add_int i j) s Q = (in_int (i + j) \<and> Q (i + j) s)"
  by (simp add: add_int_def wp)

lemma sint_of_int32: "in_int i \<Longrightarrow> sint (word_of_int i :: 32 word) = i"
  using signed_of_int [where 'b = 32 and 'a = int, of i] by (simp add: in_int_def signed_take_bit_int_eq_self)

end
