(* ===== verification/Utils.thy ===== *)
theory Utils
  imports Bytes
begin

text \<open>
  The TCP part of utils.c, on the model of the network in the process memory, and the framing
  of \<open>recieve_tcp_block\<close> of multiplex_reader.c. A file descriptor is a number. The time-outs
  that \<open>setsockopt\<close> sets show up as a \<open>ReadError\<close> among the arrivals.
\<close>

section \<open>The system calls\<close>

text \<open>
  \<open>send\<close> takes what the limit of this call allows and returns how much that was, or -1.
  \<open>read\<close> returns what the next segment has, at most \<open>n\<close> bytes of it, stored from offset
  \<open>off\<close> of \<open>buf\<close>; 0 at the end of the stream; -1 on an error.
\<close>

definition sys_send :: "int \<Rightarrow> 8 word option list \<Rightarrow> (mem, int) prog" where
  "sys_send fd bs =
     (\<lambda>s. let lim = send_limits s (sends s); n = min (nat lim) (length bs) in
        Inr (if lim < 0 then (-1, s\<lparr>sends := Suc (sends s)\<rparr>)
             else (int n, s\<lparr>sends := Suc (sends s),
               net_out := (net_out s)(fd := net_out s fd @ take n bs)\<rparr>)))"

definition sys_read :: "int \<Rightarrow> addr \<Rightarrow> nat \<Rightarrow> nat \<Rightarrow> (mem, int) prog" where
  "sys_read fd buf off n =
     bnd (gets (\<lambda>s. net_in s fd)) (\<lambda>arrivals.
     case arrivals of
       [] \<Rightarrow> ret 0
     | ReadError # rest \<Rightarrow>
         seq (modifies (\<lambda>s. s\<lparr>net_in := (net_in s)(fd := rest)\<rparr>)) (ret (-1))
     | Segment bs # rest \<Rightarrow>
         seq (modifies (\<lambda>s. s\<lparr>net_in := (net_in s)(fd :=
                if length bs \<le> n then rest else Segment (drop n bs) # rest)\<rparr>))
        (seq (write_bytes buf off (map Some (take n bs)))
             (ret (int (min n (length bs))))))"

section \<open>Operations\<close>

text \<open>A negative length becomes a huge \<open>size_t\<close>: the call would read far outside the message.\<close>

definition send_tcp :: "addr \<Rightarrow> int \<Rightarrow> int \<Rightarrow> (mem, int) prog" where
  "send_tcp mesg len sockfd =
     (if len < 0 then halt Undefined
      else bnd (read_bytes mesg 0 (nat len)) (sys_send sockfd))"

definition recieve_tcp :: "addr \<Rightarrow> int \<Rightarrow> int \<Rightarrow> (mem, int) prog" where
  "recieve_tcp buf buf_len sockfd =
     (if buf_len < 0 then halt Undefined else sys_read sockfd buf 0 (nat buf_len))"

text \<open>
  The two loops of \<open>recieve_tcp_block\<close> are \<open>read_until\<close> with the size of the block's first
  field and with the size that this field holds. The locals are \<open>index\<close> and the result of
  the last \<open>read\<close>; the loop is left when that is less than 1. The block size is compared as
  an unsigned number.
\<close>

definition read_until :: "int \<Rightarrow> addr \<Rightarrow> nat \<Rightarrow> nat \<Rightarrow> (mem, nat \<times> int) prog" where
  "read_until sockfd buf goal start =
     whileM (\<lambda>(index, r). ret (1 \<le> r \<and> index < goal))
       (\<lambda>(index, r). bnd (sys_read sockfd buf index (goal - index)) (\<lambda>r.
          ret (if r < 1 then index else index + nat r, r))) (start, 1)"

text \<open>\<open>buf_len\<close> and \<open>timeout\<close> are parameters of the C function; \<open>buf_len\<close> is not used.\<close>

definition recieve_tcp_block :: "addr \<Rightarrow> int \<Rightarrow> int \<Rightarrow> (mem, int) prog" where
  "recieve_tcp_block buf buf_len sockfd =
     bnd (read_until sockfd buf 4 0) (\<lambda>(index, r).
     if r < 1 then ret r
     else
       bnd (read_word buf 0) (\<lambda>block_size.
       bnd (read_until sockfd buf (unat block_size) index) (\<lambda>(index, r).
       if r < 1 then ret r else ret (int index))))"

section \<open>Laws of the system calls\<close>

text \<open>What a call of \<open>send\<close> takes of the bytes \<open>bs\<close>.\<close>

definition accepted :: "mem \<Rightarrow> 'b list \<Rightarrow> 'b list" where
  "accepted s bs = take (nat (send_limits s (sends s))) bs"

lemma runs_to_sys_send [wp]:
  "runs_to (sys_send fd bs) s Q =
     (if send_limits s (sends s) < 0 then Q (-1) (s\<lparr>sends := Suc (sends s)\<rparr>)
      else Q (int (length (accepted s bs))) (s\<lparr>sends := Suc (sends s),
             net_out := (net_out s)(fd := net_out s fd @ accepted s bs)\<rparr>))"
  by (cases "nat (send_limits s (sends s)) \<le> length bs")
    (simp_all add: runs_to_def sys_send_def accepted_def Let_def)

lemma runs_to_sys_read [wp]:
  "runs_to (sys_read fd buf off n) s Q =
     (case net_in s fd of
        [] \<Rightarrow> Q 0 s
      | ReadError # rest \<Rightarrow> Q (-1) (s\<lparr>net_in := (net_in s)(fd := rest)\<rparr>)
      | Segment bs # rest \<Rightarrow>
          runs_to (write_bytes buf off (map Some (take n bs)))
            (s\<lparr>net_in := (net_in s)(fd :=
                if length bs \<le> n then rest else Segment (drop n bs) # rest)\<rparr>)
            (\<lambda>_. Q (int (min n (length bs)))))"
  by (simp add: sys_read_def wp del: runs_to_write_bytes split: list.splits arrival.splits)

section \<open>Framing\<close>

text \<open>
  \<open>pending s fd\<close>: the bytes that will still arrive; \<open>clean s fd\<close>: they arrive without errors,
  in segments that are not empty.
\<close>

fun segment_bytes :: "arrival \<Rightarrow> 8 word list" where
  "segment_bytes (Segment bs) = bs"
| "segment_bytes ReadError = []"

definition pending :: "mem \<Rightarrow> int \<Rightarrow> 8 word list" where
  "pending s fd = concat (map segment_bytes (net_in s fd))"

definition clean :: "mem \<Rightarrow> int \<Rightarrow> bool" where
  "clean s fd \<longleftrightarrow> (\<forall>a \<in> set (net_in s fd). \<exists>bs. a = Segment bs \<and> bs \<noteq> [])"

lemma splice_splice:
  "off + length as + length bs \<le> length xs \<Longrightarrow>
    splice (off + length as) bs (splice off as xs) = splice off (as @ bs) xs"
  by (simp add: splice_def add.assoc add.left_commute add.commute)

text \<open>The loop of \<open>read_until\<close>, on a stream of segments that ends, or goes on with a failing \<open>read\<close>.\<close>

abbreviation read_loop :: "int \<Rightarrow> addr \<Rightarrow> nat \<Rightarrow> nat \<times> int \<Rightarrow> (mem, nat \<times> int) prog" where
  "read_loop sockfd buf goal \<equiv> whileM (\<lambda>(index, r). ret (1 \<le> r \<and> index < goal))
     (\<lambda>(index, r). bnd (sys_read sockfd buf index (goal - index)) (\<lambda>r.
        ret (if r < 1 then index else index + nat r, r)))"

lemma read_loop_unfold:
  "read_loop fd buf goal (index, r) =
     (if 1 \<le> r \<and> index < goal then bnd (sys_read fd buf index (goal - index)) (\<lambda>r.
        read_loop fd buf goal (if r < 1 then index else index + nat r, r))
      else ret (index, r))"
  by (subst whileM_unfold) (simp add: bnd_ret bnd_assoc)

lemma read_loop_done:
  assumes "r < 1 \<or> goal \<le> index"
  shows "runs_to (read_loop fd buf goal (index, r)) s Q = Q (index, r) s"
  using assms by (subst read_loop_unfold) (auto simp: runs_to_ret)

text \<open>One segment is read whole when there is room for it, and otherwise ends the loop.\<close>

lemma read_loop_segment:
  assumes "net_in s fd = Segment seg # rest" and "seg \<noteq> []" and "chars s buf = Some bs"
    and "index < goal" "index + length seg \<le> length bs \<or> goal \<le> length bs" "1 \<le> r"
  shows "length seg \<le> goal - index \<Longrightarrow> runs_to (read_loop fd buf goal (index, r)) s Q =
      runs_to (read_loop fd buf goal (index + length seg, int (length seg))) (s\<lparr>net_in := (net_in s)(fd := rest),
        chars := (chars s)(buf \<mapsto> splice index (map Some seg) bs)\<rparr>) Q"
    and "goal - index < length seg \<Longrightarrow> goal \<le> length bs \<Longrightarrow> runs_to (read_loop fd buf goal (index, r)) s Q =
      Q (goal, int (goal - index)) (s\<lparr>net_in := (net_in s)(fd := Segment (drop (goal - index) seg) # rest),
        chars := (chars s)(buf \<mapsto> splice index (map Some (take (goal - index) seg)) bs)\<rparr>)"
proof -
  have "1 \<le> length seg" using assms(2) by (cases seg) simp_all
  then show "length seg \<le> goal - index \<Longrightarrow> runs_to (read_loop fd buf goal (index, r)) s Q =
      runs_to (read_loop fd buf goal (index + length seg, int (length seg))) (s\<lparr>net_in := (net_in s)(fd := rest),
        chars := (chars s)(buf \<mapsto> splice index (map Some seg) bs)\<rparr>) Q"
    using assms by (subst read_loop_unfold) (auto simp: wp)
  show "runs_to (read_loop fd buf goal (index, r)) s Q =
      Q (goal, int (goal - index)) (s\<lparr>net_in := (net_in s)(fd := Segment (drop (goal - index) seg) # rest),
        chars := (chars s)(buf \<mapsto> splice index (map Some (take (goal - index) seg)) bs)\<rparr>)"
    if "goal - index < length seg" "goal \<le> length bs"
  proof -
    define d where "d = goal - index"
    have d: "0 < d" "goal = index + d" using assms(4) by (simp_all add: d_def)
    have "runs_to (sys_read fd buf index d) s P = P (int d) (s\<lparr>net_in := (net_in s)(fd := Segment (drop d seg) # rest),
        chars := (chars s)(buf \<mapsto> splice index (map Some (take d seg)) bs)\<rparr>)" for P
      using assms that d by (simp add: wp)
    then show ?thesis
      using assms(4,6) d unfolding d_def [symmetric]
      by (simp add: read_loop_unfold [of _ _ _ index r] runs_to_bnd) (simp add: read_loop_unfold wp)
  qed
qed

lemma read_loop_enough:
  assumes "net_in s fd = map Segment segs @ tail" and "[] \<notin> set segs"
    and "goal - index \<le> length (concat segs)" "index \<le> goal" "chars s buf = Some bs" "goal \<le> length bs" "1 \<le> r"
  shows "runs_to (read_loop fd buf goal (index, r)) s (\<lambda>(i, r') s'. i = goal \<and> 1 \<le> r' \<and>
    (\<exists>segs'. [] \<notin> set segs' \<and> concat segs' = drop (goal - index) (concat segs) \<and>
      s' = s\<lparr>net_in := (net_in s)(fd := map Segment segs' @ tail),
        chars := (chars s)(buf \<mapsto> splice index (map Some (take (goal - index) (concat segs))) bs)\<rparr>))"
  using assms
proof (induction segs arbitrary: s index bs r)
  case Nil
  have "index = goal" using Nil(3,4) by simp
  moreover have upd: "(net_in s)(fd := tail) = net_in s" "(chars s)(buf \<mapsto> bs) = chars s"
    using Nil(1,5) by (auto simp: fun_upd_idem)
  ultimately show ?case
    unfolding read_loop_done [OF disjI2 [OF Nil(3) [simplified]]]
    using Nil(7) by (simp, intro exI [of _ "[]"], simp)
next
  case (Cons seg segs)
  have net: "net_in s fd = Segment seg # map Segment segs @ tail" "seg \<noteq> []" using Cons.prems(1,2) by auto
  consider "index = goal" | "index < goal" "length seg \<le> goal - index" | "index < goal" "goal - index < length seg"
    using Cons.prems(4) by linarith
  then show ?case
  proof cases
    case 1
    have "(net_in s)(fd := map Segment (seg # segs) @ tail) = net_in s" "(chars s)(buf \<mapsto> bs) = chars s"
      using Cons.prems(1,5) by (auto simp: fun_upd_idem)
    with 1 Cons.prems(2,7) show ?thesis
      unfolding read_loop_done [OF disjI2 [OF eq_refl [OF 1 [symmetric]]]] prod.case
      by (intro conjI exI [of _ "seg # segs"]) simp_all
  next
    case 2
    let ?s = "s\<lparr>net_in := (net_in s)(fd := map Segment segs @ tail), chars := (chars s)(buf \<mapsto> splice index (map Some seg) bs)\<rparr>"
    have r: "1 \<le> int (length seg)" using Cons.prems(2) by (cases seg) auto
    have d: "goal - (index + length seg) \<le> length (concat segs)" "index + length seg \<le> goal" using 2 Cons.prems(3) by simp_all
    have "splice (index + length seg) ys (splice index (map Some seg) bs) = splice index (map Some seg @ ys) bs"
      if "length ys \<le> goal - (index + length seg)" for ys :: "8 word option list"
      using splice_splice [of index "map Some seg" ys bs] that 2 Cons.prems(6) by simp
    then have sp: "splice (index + length seg) (map Some (take (goal - (index + length seg)) (concat segs))) (splice index (map Some seg) bs)
      = splice index (map Some (take (goal - index) (concat (seg # segs)))) bs"
      using 2 by simp
    have "runs_to (read_loop fd buf goal (index + length seg, int (length seg))) ?s (\<lambda>(i, r') s'. i = goal \<and> 1 \<le> r' \<and>
      (\<exists>segs'. [] \<notin> set segs' \<and> concat segs' = drop (goal - (index + length seg)) (concat segs) \<and>
        s' = ?s\<lparr>net_in := (net_in ?s)(fd := map Segment segs' @ tail), chars := (chars ?s)(buf \<mapsto>
          splice (index + length seg) (map Some (take (goal - (index + length seg)) (concat segs))) (splice index (map Some seg) bs))\<rparr>))"
      by (rule Cons.IH) (use Cons.prems(2,6) d r in simp_all)
    then show ?thesis
      unfolding read_loop_segment(1) [OF net Cons.prems(5) 2(1) disjI2 [OF Cons.prems(6)] Cons.prems(7) 2(2)] sp
      by (rule runs_to_mono) (use 2 in auto)
  next
    case 3
    let ?segs = "drop (goal - index) seg # segs"
    have z: "goal - (index + length seg) = 0" using 3(2) by simp
    then have "[] \<notin> set ?segs \<and> concat ?segs = drop (goal - index) (concat (seg # segs)) \<and>
      take (goal - index) (concat (seg # segs)) = take (goal - index) seg"
      using Cons.prems(2) 3 by simp
    then show ?thesis
      unfolding read_loop_segment(2) [OF net Cons.prems(5) 3(1) disjI2 [OF Cons.prems(6)] Cons.prems(7) 3(2) Cons.prems(6)]
      unfolding prod.case using 3(1) z by (intro conjI exI [of _ ?segs]) simp_all
  qed
qed

text \<open>What the loop reports when the stream stops before the goal: 0 at its end, -1 at a failing \<open>read\<close>.\<close>

definition stops :: "arrival list \<Rightarrow> bool" where
  "stops tail \<longleftrightarrow> tail = [] \<or> hd tail = ReadError"

lemma read_loop_short:
  assumes "net_in s fd = map Segment segs @ tail" and "[] \<notin> set segs" and "stops tail"
    and "length (concat segs) < goal - index" "chars s buf = Some bs" "index + length (concat segs) \<le> length bs" "1 \<le> r"
  shows "runs_to (read_loop fd buf goal (index, r)) s (\<lambda>v s'. v = (index + length (concat segs), if tail = [] then 0 else -1) \<and>
    s' = s\<lparr>net_in := (net_in s)(fd := tl tail), chars := (chars s)(buf \<mapsto> splice index (map Some (concat segs)) bs)\<rparr>)"
  using assms
proof (induction segs arbitrary: s index bs r)
  case Nil
  have lt: "index < goal" using Nil(4) by simp
  have upd: "(chars s)(buf \<mapsto> bs) = chars s" using Nil(5) by (auto simp: fun_upd_idem)
  show ?case
  proof (cases tail)
    case Nil
    moreover from this have "(net_in s)(fd := []) = net_in s" using Nil.prems(1) by (auto simp: fun_upd_idem)
    ultimately show ?thesis using Nil.prems(1,7) lt upd
      by (subst read_loop_unfold) (simp add: runs_to_bnd runs_to_sys_read read_loop_done)
  next
    case (Cons a as)
    then show ?thesis using Nil.prems(1,3,7) lt upd
      by (subst read_loop_unfold) (simp add: runs_to_bnd runs_to_sys_read read_loop_done stops_def)
  qed
next
  case (Cons seg segs)
  have net: "net_in s fd = Segment seg # map Segment segs @ tail" "seg \<noteq> []" using Cons.prems(1,2) by auto
  have lt: "index < goal" "length seg \<le> goal - index" "index + length seg \<le> length bs" using Cons.prems(4,6) by simp_all
  let ?s = "s\<lparr>net_in := (net_in s)(fd := map Segment segs @ tail), chars := (chars s)(buf \<mapsto> splice index (map Some seg) bs)\<rparr>"
  have r: "1 \<le> int (length seg)" using net(2) by (cases seg) auto
  have sp: "splice (index + length seg) (map Some (concat segs)) (splice index (map Some seg) bs)
      = splice index (map Some (concat (seg # segs))) bs"
    using splice_splice [of index "map Some seg" "map Some (concat segs)" bs] Cons.prems(6) by simp
  have "runs_to (read_loop fd buf goal (index + length seg, int (length seg))) ?s (\<lambda>v s'.
      v = (index + length seg + length (concat segs), if tail = [] then 0 else -1) \<and>
      s' = ?s\<lparr>net_in := (net_in ?s)(fd := tl tail), chars := (chars ?s)(buf \<mapsto>
        splice (index + length seg) (map Some (concat segs)) (splice index (map Some seg) bs))\<rparr>)"
    by (rule Cons.IH) (use Cons.prems(2-4,6) r in simp_all)
  then show ?case
    unfolding read_loop_segment(1) [OF net Cons.prems(5) lt(1) disjI1 [OF lt(3)] Cons.prems(7) lt(2)] sp
    by (rule runs_to_mono) auto
qed

lemma clean_segments:
  assumes "clean s fd"
  obtains segs where "net_in s fd = map Segment segs" "[] \<notin> set segs" "pending s fd = concat segs"
proof (rule that [of "map segment_bytes (net_in s fd)"])
  show "net_in s fd = map Segment (map segment_bytes (net_in s fd))"
    using assms by (simp add: clean_def, intro map_idI [symmetric]) auto
qed (use assms in \<open>auto simp: clean_def pending_def\<close>)

lemma read_until_law:
  assumes cl: "clean s fd" and p: "pending s fd = xs @ rest" and n: "goal = start + length xs"
    and b: "chars s buf = Some bs" "goal \<le> length bs"
  shows "runs_to (read_until fd buf goal start) s (\<lambda>(index, r) s'. index = goal \<and> 1 \<le> r \<and>
    pending s' fd = rest \<and> clean s' fd \<and> (\<exists>as. s' = s\<lparr>net_in := (net_in s)(fd := as),
      chars := (chars s)(buf \<mapsto> splice start (map Some xs) bs)\<rparr>))"
proof -
  obtain segs where segs: "net_in s fd = map Segment segs @ []" "[] \<notin> set segs" "concat segs = xs @ rest"
    using clean_segments [OF cl] p by (metis append_Nil2)
  have l: "goal - start \<le> length (concat segs)" "start \<le> goal" using n segs(3) by simp_all
  show ?thesis
    unfolding read_until_def
  proof (rule runs_to_mono [OF read_loop_enough [OF segs(1,2) l b, of 1]], simp, clarify)
    fix i r s' segs'
    assume *: "(1 :: int) \<le> r" "[] \<notin> set segs'" "concat segs' = drop (goal - start) (concat segs)"
    let ?s = "s\<lparr>net_in := (net_in s)(fd := map Segment segs' @ []),
      chars := (chars s)(buf \<mapsto> splice start (map Some (take (goal - start) (concat segs))) bs)\<rparr>"
    have "map segment_bytes (map Segment segs') = segs'" by (simp add: comp_def)
    then have "pending ?s fd = rest" using *(3) segs(3) n by (simp add: pending_def)
    moreover have "clean ?s fd" using *(2) by (auto simp: clean_def)
    ultimately show "goal = goal \<and> 1 \<le> r \<and> pending ?s fd = rest \<and> clean ?s fd \<and>
      (\<exists>as. ?s = s\<lparr>net_in := (net_in s)(fd := as), chars := (chars s)(buf \<mapsto> splice start (map Some xs) bs)\<rparr>)"
      using *(1) segs(3) n by simp blast
  qed
qed

lemma word_at_start:
  assumes "length xs = 4"
  shows "word_at (map Some xs @ bs) 0 = Some (of_le32 xs)"
  using assms by (simp add: word_at_def)

lemma recieve_tcp_block_law:
  assumes "clean s fd" and "pending s fd = blk @ rest" and "4 \<le> length blk"
    and "unat (of_le32 (take 4 blk)) = length blk"
    and "chars s buf = Some bs" and "length blk \<le> length bs"
  shows "runs_to (recieve_tcp_block buf buf_len fd) s (\<lambda>r s'. r = int (length blk) \<and>
    pending s' fd = rest \<and> clean s' fd \<and> (\<exists>as. s' = s\<lparr>net_in := (net_in s)(fd := as),
      chars := (chars s)(buf \<mapsto> map Some blk @ drop (length blk) bs)\<rparr>))"
proof -
  let ?h = "take 4 blk" let ?t = "drop 4 blk"
  have h: "length ?h = 4" and blk: "blk = ?h @ ?t" using assms(3) by simp_all
  let ?s = "\<lambda>as xs. s\<lparr>net_in := (net_in s)(fd := as), chars := (chars s)(buf \<mapsto> splice 0 (map Some xs) bs)\<rparr>"
  have p: "pending s fd = ?h @ (?t @ rest)" using assms(2) by simp
  have first: "runs_to (read_until fd buf 4 0) s (\<lambda>(index, r) s'. index = 4 \<and> 1 \<le> r \<and>
      pending s' fd = ?t @ rest \<and> clean s' fd \<and> (\<exists>as. s' = ?s as ?h))"
    by (rule read_until_law [OF assms(1) p _ assms(5)]) (use h assms(3,6) in simp_all)
  have second: "runs_to (read_until fd buf (length blk) 4) s' (\<lambda>(index, r) s''. index = length blk \<and> 1 \<le> r \<and>
      pending s'' fd = rest \<and> clean s'' fd \<and> (\<exists>as. s'' = ?s as blk))"
    if s': "pending s' fd = ?t @ rest" "clean s' fd" "s' = ?s as ?h" for s' as
  proof -
    have sp: "splice 4 (map Some ?t) (splice 0 (map Some ?h) bs) = splice 0 (map Some blk) bs"
      using splice_splice [of 0 "map Some ?h" "map Some ?t" bs] h blk assms(3,6)
      by (simp flip: map_append)
    show ?thesis
      by (rule runs_to_mono [OF read_until_law [OF s'(2,1), of _ 4 buf "splice 0 (map Some ?h) bs"]])
        (use s'(3) assms(3,6) h sp in auto)
  qed
  have w: "word_at (splice 0 (map Some ?h) bs) 0 = Some (of_le32 ?h)"
    using h by (simp add: splice_def word_at_start)
  have fin: "splice 0 (map Some blk) bs = map Some blk @ drop (length blk) bs"
    by (simp add: splice_def)
  show ?thesis
    unfolding recieve_tcp_block_def wp
  proof (rule runs_to_mono [OF first], clarify, goal_cases)
    case (1 r s' as)
    then show ?case
      by (simp add: w wp assms(4), intro runs_to_mono [OF second]) (auto simp: fin wp)
  qed
qed

section \<open>Properties\<close>

text \<open>C8. \<open>recieve_tcp_block\<close> cuts the byte stream of a connection into the blocks that were sent,
  however the network has split or joined them on the way: it returns the size of the next block,
  leaves exactly that block at the start of the buffer, and leaves everything after it pending.\<close>

theorem block_is_framed:
  assumes "clean s fd" and "pending s fd = blk @ rest" and "4 \<le> length blk"
    and "unat (of_le32 (take 4 blk)) = length blk"
    and "chars s buf = Some bs" and "length blk \<le> length bs"
  shows "runs_to (recieve_tcp_block buf buf_len fd) s (\<lambda>r s'. r = int (length blk) \<and>
    pending s' fd = rest \<and> clean s' fd \<and> (\<exists>as. s' = s\<lparr>net_in := (net_in s)(fd := as),
      chars := (chars s)(buf \<mapsto> map Some blk @ drop (length blk) bs)\<rparr>))"
  using assms by (rule recieve_tcp_block_law)

lemma block_is_framed_witness:
  "runs_to (recieve_tcp_block 1 16396 5) (mem0\<lparr>chars := [1 \<mapsto> [None, None, None, None, None, None, None, None]],
      net_in := (\<lambda>_. [])(5 := [Segment [6, 0], Segment [0, 0, 65, 66, 9], Segment [9]])\<rparr>)
    (\<lambda>r s'. r = 6 \<and> chars s' 1 = Some (map Some [6, 0, 0, 0, 65, 66] @ [None, None]) \<and> pending s' 5 = [9, 9])"
proof -
  let ?s = "mem0\<lparr>chars := [1 \<mapsto> [None, None, None, None, None, None, None, None]],
      net_in := (\<lambda>_. [])(5 := [Segment [6, 0], Segment [0, 0, 65, 66, 9], Segment [9]])\<rparr>"
  have p: "clean ?s 5" "pending ?s 5 = [6, 0, 0, 0, 65, 66] @ [9, 9]"
    by (simp_all add: clean_def pending_def)
  have "unat (of_le32 [6, 0, 0, 0]) = 6" by simp
  with block_is_framed [OF p, of 1 "[None, None, None, None, None, None, None, None]" 16396]
  show ?thesis by (auto elim!: runs_to_mono)
qed

text \<open>C34. When the connection is closed or a \<open>read\<close> fails before a block is complete, wherever in the
  block that is, \<open>recieve_tcp_block\<close> returns 0 or -1: never the number of bytes that it has read. It
  has taken all that arrived, and has stored it at the start of the buffer.\<close>

theorem end_of_stream:
  assumes net: "net_in s fd = map Segment segs @ tail" "[] \<notin> set segs" "stops tail"
    and b: "chars s buf = Some bs" "length (concat segs) \<le> length bs"
    and cut: "length (concat segs) < 4 \<or> length (concat segs) < unat (of_le32 (take 4 (concat segs)))"
  shows "runs_to (recieve_tcp_block buf buf_len fd) s (\<lambda>r s'. r = (if tail = [] then 0 else -1) \<and>
    s' = s\<lparr>net_in := (net_in s)(fd := tl tail),
      chars := (chars s)(buf \<mapsto> map Some (concat segs) @ drop (length (concat segs)) bs)\<rparr>)"
proof (cases "length (concat segs) < 4")
  case True
  then have l: "length (concat segs) < 4 - 0" "0 + length (concat segs) \<le> length bs" using b(2) by simp_all
  show ?thesis
    unfolding recieve_tcp_block_def runs_to_bnd read_until_def
    by (rule runs_to_mono [OF read_loop_short [OF net l(1) b(1) l(2), of 1]]) (auto simp: wp splice_def)
next
  case False
  define xs where "xs = concat segs"
  define size where "size = unat (of_le32 (take 4 xs))"
  have xs: "4 \<le> length xs" "length xs < size" "length xs \<le> length bs" using False cut b(2) by (simp_all add: xs_def size_def)
  let ?s = "\<lambda>as ys. s\<lparr>net_in := (net_in s)(fd := as), chars := (chars s)(buf \<mapsto> splice 0 (map Some ys) bs)\<rparr>"
  have w: "word_at (splice 0 (map Some (take 4 xs)) bs) 0 = Some (of_le32 (take 4 xs))"
    using xs(1) by (simp add: splice_def word_at_start)
  have "4 - 0 \<le> length (concat segs)" "4 \<le> length bs" using xs by (simp_all add: xs_def)
  from read_loop_enough [OF net(1,2) this(1) _ b(1) this(2), of 1, folded xs_def]
  have first: "runs_to (read_until fd buf 4 0) s (\<lambda>(i, r) s'. i = 4 \<and> 1 \<le> r \<and>
      (\<exists>segs'. [] \<notin> set segs' \<and> concat segs' = drop 4 xs \<and> s' = ?s (map Segment segs' @ tail) (take 4 xs)))"
    by (simp add: read_until_def)
  have second: "runs_to (read_until fd buf size 4) (?s (map Segment segs' @ tail) (take 4 xs))
      (\<lambda>v s'. v = (length xs, if tail = [] then 0 else -1) \<and> s' = ?s (tl tail) xs)"
    if segs': "[] \<notin> set segs'" "concat segs' = drop 4 xs" for segs'
  proof -
    have sp: "splice 4 (map Some (drop 4 xs)) (splice 0 (map Some (take 4 xs)) bs) = splice 0 (map Some xs) bs"
      using splice_splice [of 0 "map Some (take 4 xs)" "map Some (drop 4 xs)" bs] xs by (simp flip: map_append)
    show ?thesis
      unfolding read_until_def
      by (rule runs_to_mono [OF read_loop_short [OF _ segs'(1) net(3), of _ fd size 4 buf "splice 0 (map Some (take 4 xs)) bs" 1]])
        (use segs'(2) xs sp in auto)
  qed
  show ?thesis
    unfolding recieve_tcp_block_def runs_to_bnd xs_def [symmetric]
  proof (rule runs_to_mono [OF first], clarify, goal_cases)
    case (1 i r s' segs')
    then show ?case
      by (simp add: w wp size_def [symmetric] split del: if_split, intro runs_to_mono [OF second])
        (auto simp: wp splice_def)
  qed
qed

lemma end_of_stream_witness:
  "runs_to (recieve_tcp_block 1 16396 5) (mem0\<lparr>chars := [1 \<mapsto> replicate 8 None],
      net_in := (\<lambda>_. [])(5 := [Segment [6, 0]])\<rparr>)
    (\<lambda>r s'. r = 0 \<and> net_in s' 5 = [] \<and> chars s' 1 = Some (map Some [6, 0] @ replicate 6 None)) \<and>
   runs_to (recieve_tcp_block 1 16396 5) (mem0\<lparr>chars := [1 \<mapsto> replicate 8 None],
      net_in := (\<lambda>_. [])(5 := [Segment [6, 0, 0], Segment [0, 65], ReadError, Segment [66]])\<rparr>)
    (\<lambda>r s'. r = -1 \<and> net_in s' 5 = [Segment [66]] \<and> chars s' 1 = Some (map Some [6, 0, 0, 0, 65] @ replicate 3 None))"
proof
  let ?s = "\<lambda>n. mem0\<lparr>chars := [1 \<mapsto> replicate 8 None], net_in := (\<lambda>_. [])(5 := n)\<rparr>"
  show "runs_to (recieve_tcp_block 1 16396 5) (?s [Segment [6, 0]])
    (\<lambda>r s'. r = 0 \<and> net_in s' 5 = [] \<and> chars s' 1 = Some (map Some [6, 0] @ replicate 6 None))"
    by (rule runs_to_mono [OF end_of_stream [of _ 5 "[[6, 0]]" "[]" 1 "replicate 8 None"]])
      (simp_all add: stops_def)
  have "unat (of_le32 [6, 0, 0, 0]) = 6" by simp
  then show "runs_to (recieve_tcp_block 1 16396 5) (?s [Segment [6, 0, 0], Segment [0, 65], ReadError, Segment [66]])
    (\<lambda>r s'. r = -1 \<and> net_in s' 5 = [Segment [66]] \<and> chars s' 1 = Some (map Some [6, 0, 0, 0, 65] @ replicate 3 None))"
    by (intro runs_to_mono [OF end_of_stream [of _ 5 "[[6, 0, 0], [0, 65]]" "[ReadError, Segment [66]]" 1 "replicate 8 None"]])
      (simp_all add: stops_def)
qed

text \<open>C40. The length of the buffer is not used: a block that says it is longer than the buffer is
  written past the end of the buffer.\<close>

theorem block_overflows_buffer:
  assumes "net_in s fd = Segment (le32 n @ xs) # as" and "unat n = 4 + length xs" and "xs \<noteq> []"
    and "chars s buf = Some bs" and "4 \<le> length bs" and "length bs < unat n"
  shows "recieve_tcp_block buf buf_len fd s = Inl Undefined"
proof -
  let ?s = "s\<lparr>net_in := (net_in s)(fd := Segment xs # as),
    chars := (chars s)(buf \<mapsto> splice 0 (map Some (le32 n)) bs)\<rparr>"
  have "runs_to (sys_read fd buf 0 4) s (\<lambda>r s'. r = 4 \<and> s' = ?s)"
    using assms(1,3,4,5) by (simp add: wp)
  then have r: "sys_read fd buf 0 4 s = Inr (4, ?s)" by (auto simp: runs_to_iff)
  have first: "read_until fd buf 4 0 s = Inr ((4, 4), ?s)"
    unfolding read_until_def
    by (subst whileM_iter) (auto simp: prog_defs r intro: whileM_exit)
  have "runs_to (read_word buf 0) ?s (\<lambda>w s'. w = n \<and> s' = ?s)"
    using assms(5) word_at_start [of "le32 n"] by (simp add: wp splice_def)
  then have w: "read_word buf 0 ?s = Inr (n, ?s)" by (auto simp: runs_to_iff)
  have "write_bytes buf 4 (map Some xs) t = Inl Undefined" if "chars t = chars ?s" for t
    using that assms(2,5,6) by (simp add: write_bytes_def prog_defs)
  then have "sys_read fd buf 4 (unat n - 4) ?s = Inl Undefined"
    using assms(2) by (simp add: sys_read_def prog_defs)
  then have "read_until fd buf (unat n) 4 ?s = Inl Undefined"
    using assms(2,3) unfolding read_until_def by - (subst whileM_unfold, simp add: prog_defs)
  then show ?thesis by (simp add: recieve_tcp_block_def prog_defs first w)
qed

lemma block_overflows_buffer_witness:
  "recieve_tcp_block 1 16396 5 (mem0\<lparr>chars := [1 \<mapsto> replicate 5 None],
     net_in := (\<lambda>_. [])(5 := [Segment (le32 6 @ [65, 66])])\<rparr>) = Inl Undefined"
  by (rule block_overflows_buffer [of _ _ 6 "[65, 66]" "[]" _ "replicate 5 None"]) simp_all
end
