(* ===== verification/Float32.thy ===== *)
theory Float32
  imports Prelude
begin

text \<open>
  The single-precision arithmetic of the two lines of multiplex_writer.c that compute with a
  \<open>float\<close>: every operation rounds its exact result to the nearest number with a significand
  of 24 bits, ties to even (IEEE 754 binary32, evaluated in that format). Numbers are
  rationals; the values that occur are in the normal range, so there is neither overflow nor
  underflow.
\<close>

section \<open>Rounding\<close>

text \<open>The exponent of a positive number: that of the greatest power of two below it.\<close>

definition exponent :: "rat \<Rightarrow> int" where
  "exponent x =
     (let (p, q) = quotient_of x; d = int (floorlog 2 (nat p)) - int (floorlog 2 (nat q))
      in if 2 powi d \<le> x then d else d - 1)"

definition round_half_even :: "rat \<Rightarrow> int" where
  "round_half_even y =
     (let f = \<lfloor>y\<rfloor>; r = y - of_int f in if r < 1 / 2 \<or> (r = 1 / 2 \<and> even f) then f else f + 1)"

definition fl :: "rat \<Rightarrow> rat" where
  "fl x =
     (if x = 0 then 0
      else let u = 2 powi (exponent \<bar>x\<bar> - 23)
           in sgn x * (of_int (round_half_even (\<bar>x\<bar> / u)) * u))"

section \<open>What rounding preserves\<close>

lemma floorlog_two:
  assumes "0 < n"
  shows "2 ^ floorlog 2 n \<le> 2 * n" and "n < 2 ^ floorlog 2 n"
proof -
  from floorlog_bounds [of n 2] assms
  have *: "2 ^ (floorlog 2 n - 1) \<le> n \<and> n < 2 ^ floorlog 2 n" by simp
  have "floorlog 2 n \<noteq> 0" using * assms by (intro notI) simp
  then obtain k where "floorlog 2 n = Suc k" using not0_implies_Suc by blast
  with * show "2 ^ floorlog 2 n \<le> 2 * n" and "n < 2 ^ floorlog 2 n" by simp_all
qed

lemma floorlog_rat:
  assumes "0 < p"
  shows "2 ^ floorlog 2 (nat p) \<le> 2 * (of_int p :: rat)" and "(of_int p :: rat) < 2 ^ floorlog 2 (nat p)"
proof -
  let ?k = "floorlog 2 (nat p)"
  have "int (2 ^ ?k) \<le> int (2 * nat p)" "int (nat p) < int (2 ^ ?k)"
    using floorlog_two [of "nat p"] assms by (simp_all only: of_nat_le_iff of_nat_less_iff)
  with assms have "2 ^ ?k \<le> 2 * p" "p < 2 ^ ?k" by simp_all
  then have "(of_int (2 ^ ?k) :: rat) \<le> of_int (2 * p)" "(of_int p :: rat) < of_int (2 ^ ?k)"
    by (simp_all only: of_int_le_iff of_int_less_iff)
  then show "2 ^ ?k \<le> 2 * (of_int p :: rat)" and "(of_int p :: rat) < 2 ^ ?k" by simp_all
qed

lemma exponent_bounds:
  assumes "0 < x"
  shows "2 powi exponent x \<le> x" and "x < 2 powi (exponent x + 1)"
proof -
  obtain p q where pq: "quotient_of x = (p, q)" by force
  have q: "0 < q" using quotient_of_denom_pos [OF pq] .
  have x: "x = of_int p / of_int q" using quotient_of_div [OF pq] .
  with assms q have p: "0 < p" by (simp add: zero_less_divide_iff)
  let ?a = "floorlog 2 (nat p)" and ?b = "floorlog 2 (nat q)"
  let ?d = "int ?a - int ?b"
  note P = floorlog_rat [OF p] and Q = floorlog_rat [OF q]
  have d: "(2 :: rat) powi ?d = 2 ^ ?a / 2 ^ ?b"
    by (simp add: power_int_diff)
  have qr: "0 < (of_int q :: rat)" using q by simp
  have "x < 2 ^ ?a / of_int q"
    unfolding x using P(2) qr by (rule divide_strict_right_mono)
  also have "\<dots> \<le> 2 ^ ?a / (2 ^ ?b / 2)"
    using Q(1) qr by (intro divide_left_mono) (auto intro: mult_pos_pos)
  finally have up: "x < 2 powi (?d + 1)"
    by (simp add: power_int_add d mult.commute)
  have "2 powi ?d / 2 = (2 ^ ?a / 2) / (2 ^ ?b :: rat)"
    using d by simp
  also have "\<dots> \<le> (2 ^ ?a / 2) / of_int q"
    using Q(2) qr by (intro divide_left_mono) (auto intro: mult_pos_pos)
  also have "\<dots> \<le> x"
    unfolding x using P(1) qr by (intro divide_right_mono) auto
  finally have low: "2 powi (?d - 1) \<le> x"
    by (simp add: power_int_diff)
  show "2 powi exponent x \<le> x" and "x < 2 powi (exponent x + 1)"
    using up low by (simp_all add: exponent_def pq Let_def not_le)
qed

lemma round_half_even_ge: "of_int n \<le> y \<Longrightarrow> n \<le> round_half_even y"
proof -
  assume "of_int n \<le> y"
  then have "n \<le> \<lfloor>y\<rfloor>" by (simp add: le_floor_iff)
  then show ?thesis by (simp add: round_half_even_def Let_def)
qed

lemma round_half_even_le:
  assumes "y \<le> of_int n"
  shows "round_half_even y \<le> n"
proof (cases "y = of_int n")
  case False
  with assms have "\<lfloor>y\<rfloor> < n" by (simp add: floor_less_iff)
  then show ?thesis by (simp add: round_half_even_def Let_def)
qed (simp add: round_half_even_def)

lemma powi_le: "(2 :: rat) powi a \<le> x \<Longrightarrow> x < 2 powi b \<Longrightarrow> a < b"
  using power_int_increasing [of b a "2 :: rat"] by fastforce

lemma fl_pos:
  assumes "0 < x"
  shows "2 powi exponent x \<le> fl x" and "fl x \<le> 2 powi (exponent x + 1)"
    and "x = 2 powi exponent x \<Longrightarrow> fl x = x"
proof -
  let ?e = "exponent x" let ?u = "(2 :: rat) powi (?e - 23)"
  have u: "0 < ?u" and e: "2 powi ?e = of_int (2 ^ 23) * ?u" "2 powi (?e + 1) = of_int (2 ^ 24) * ?u"
    by (simp_all add: power_int_add power_int_diff)
  have fl: "fl x = of_int (round_half_even (x / ?u)) * ?u"
    using assms by (simp add: fl_def Let_def)
  note b = exponent_bounds [OF assms]
  have lo: "of_int (2 ^ 23) \<le> x / ?u" using b(1) u unfolding e by (simp add: pos_le_divide_eq)
  then have lo': "2 ^ 23 \<le> round_half_even (x / ?u)" by (rule round_half_even_ge)
  have hi: "x / ?u \<le> of_int (2 ^ 24)"
    using b(2) u unfolding e by (simp add: pos_divide_le_eq less_imp_le)
  then have hi': "round_half_even (x / ?u) \<le> 2 ^ 24" by (rule round_half_even_le)
  show "2 powi ?e \<le> fl x"
    unfolding fl e using lo' u by (intro mult_right_mono) (simp_all only: of_int_le_iff less_imp_le)
  show "fl x \<le> 2 powi (?e + 1)"
    unfolding fl e using hi' u by (intro mult_right_mono) (simp_all only: of_int_le_iff less_imp_le)
  assume x: "x = 2 powi ?e"
  from this e(1) have "x = of_int (2 ^ 23) * ?u" by (rule trans)
  with u have "x / ?u = of_int (2 ^ 23)" by (metis less_irrefl nonzero_mult_div_cancel_right)
  then have "round_half_even (x / ?u) = 2 ^ 23"
    by (intro antisym round_half_even_le round_half_even_ge) simp_all
  then show "fl x = x" unfolding fl using x e by simp
qed

text \<open>Rounding does not cross a power of two, and changes a number by less than a factor of two.\<close>

lemma fl_ge:
  assumes "2 powi k \<le> x"
  shows "2 powi k \<le> fl x"
proof -
  have x: "0 < x" using assms by (rule less_le_trans [rotated]) simp
  have "k \<le> exponent x" using powi_le [OF assms exponent_bounds(2) [OF x]] by simp
  then have "(2 :: rat) powi k \<le> 2 powi exponent x" by (rule power_int_increasing) simp
  with fl_pos(1) [OF x] show ?thesis by simp
qed

lemma fl_le:
  assumes "0 < x" and "x \<le> 2 powi k"
  shows "fl x \<le> 2 powi k"
proof (cases "exponent x + 1 \<le> k")
  case True
  then have "(2 :: rat) powi (exponent x + 1) \<le> 2 powi k" by (rule power_int_increasing) simp
  with fl_pos(2) [OF assms(1)] show ?thesis by simp
next
  case False
  then have "(2 :: rat) powi k \<le> 2 powi exponent x" by (intro power_int_increasing) simp_all
  with assms(2) exponent_bounds(1) [OF assms(1)] have "x = 2 powi exponent x" by linarith
  with fl_pos(3) [OF assms(1)] assms(2) show ?thesis by simp
qed

lemma fl_half_double:
  assumes "0 < x"
  shows "x / 2 \<le> fl x" and "fl x \<le> 2 * x"
  using fl_pos(1,2) [OF assms] exponent_bounds [OF assms] by (simp_all add: power_int_add)

text \<open>Integers of at most \<open>p\<close> bits are represented exactly with a significand of \<open>p\<close> bits.\<close>

lemma significand_int:
  fixes n :: int and p :: nat
  defines "u \<equiv> (2 :: rat) powi (exponent (of_int n) - (int p - 1))"
  assumes "0 < n" and "n < 2 ^ p"
  shows "of_int (round_half_even (of_int n / u)) * u = of_int n"
proof -
  let ?x = "of_int n :: rat" let ?e = "exponent ?x"
  have x: "0 < ?x" using assms(2) by simp
  have "?x < of_int (2 ^ p)" using assms(3) by (simp only: of_int_less_iff)
  then have "?x < 2 powi int p" by simp
  with exponent_bounds(1) [OF x] have "?e < int p" by (rule powi_le)
  then have "u * 2 ^ nat (int p - 1 - ?e) = 1"
    unfolding u_def by (simp add: power_int_diff power_int_def power_one_over split: if_splits)
  moreover have "u \<noteq> 0" by (simp add: u_def)
  ultimately have "?x / u = of_int (n * 2 ^ nat (int p - 1 - ?e))"
    by (simp add: nonzero_divide_eq_eq algebra_simps)
  then have "of_int (round_half_even (?x / u)) = ?x / u"
    by (metis antisym order_refl round_half_even_ge round_half_even_le)
  then show ?thesis by (simp add: u_def)
qed

lemma fl_int: "0 \<le> n \<Longrightarrow> n < 2 ^ 24 \<Longrightarrow> fl (of_int n) = of_int n"
  using significand_int [of n 24] by (cases "n = 0") (simp_all add: fl_def Let_def)

end
