(* ===== verification/Host.thy ===== *)
theory Host
  imports Utils Float32
begin

text \<open>
  The process around the memory image: sockets, datagrams, the clock, random numbers and
  threads; and the rest of utils.c on it. A program on the memory image runs in a process
  through \<open>lift\<close>. Byte order is that of a little-endian machine.
\<close>

section \<open>The process\<close>

record sockaddr_in =
  sin_addr :: "32 word"
  sin_port :: "16 word"

record client_info =
  ci_num_conn :: "32 word"
  ci_sock_fd :: int
  ci_sock_port :: int

record mp_writer_init =
  wi_client_fd :: int
  wi_queue :: addr

datatype buffer_handler = Save_buffer | Send_buffer | Bounce_buffer

record mp_reader_init =
  ri_client_fd :: int
  ri_ht :: addr
  ri_handler :: buffer_handler
  ri_handler_arg :: addr

record bounce_buf_arg =
  bb_queues :: addr
  bb_n_queues :: int

datatype sock_type = SOCK_STREAM | SOCK_DGRAM

datatype packet = Packet sockaddr_in "8 word list" | Recv_error

text \<open>The start routine of a thread and its argument.\<close>

datatype thread = Serve_client addr | Writer_thread addr | Reader_thread addr

text \<open>
  \<open>udp_in fd\<close> are the datagrams that arrive at a socket; a socket with a time-out gives up
  when there is none. \<open>udp_out\<close> has what was sent. \<open>in_use\<close> are the addresses that
  cannot be bound, for each type of socket;
  \<open>bound\<close>, \<open>listening\<close> and \<open>connected\<close> list the calls that succeeded. The results of the
  \<open>n\<close>-th calls of \<open>rand\<close>, \<open>accept\<close>, \<open>connect\<close> and \<open>gettimeofday\<close> are functions of
  \<open>n\<close>. \<open>junk\<close> are the bytes found in memory that was not initialised. \<open>inet_addr\<close> of the
  library is the parameter \<open>host_address\<close>; it is \<open>None\<close> for a string that is no address.
\<close>

record host =
  image :: mem
  client_infos :: "addr \<rightharpoonup> client_info"
  writer_inits :: "addr \<rightharpoonup> mp_writer_init"
  reader_inits :: "addr \<rightharpoonup> mp_reader_init"
  bounce_args :: "addr \<rightharpoonup> bounce_buf_arg"
  threads :: "thread list"
  next_fd :: int
  udp_in :: "int \<Rightarrow> packet list"
  udp_timeout :: "int \<Rightarrow> bool"
  udp_out :: "(int \<times> sockaddr_in \<times> 8 word list) list"
  sendto_fails :: bool
  in_use :: "sock_type \<Rightarrow> sockaddr_in \<Rightarrow> bool"
  bound :: "(int \<times> sockaddr_in) list"
  listening :: "(int \<times> int) list"
  refused :: "nat \<Rightarrow> bool"
  connects :: nat
  connected :: "(int \<times> sockaddr_in) list"
  accept_fd :: "nat \<Rightarrow> int"
  accepts :: nat
  rand_value :: "nat \<Rightarrow> nat"
  rands :: nat
  clock :: "nat \<Rightarrow> int \<times> int"
  clock_reads :: nat
  start_time :: "int \<times> int"
  junk :: "nat \<Rightarrow> 8 word"
  host_address :: "string \<Rightarrow> 32 word option"

definition lift :: "(mem, 'a) prog \<Rightarrow> (host, 'a) prog" where
  "lift m = (\<lambda>s. case m (image s) of Inl e \<Rightarrow> Inl e | Inr (x, t) \<Rightarrow> Inr (x, s\<lparr>image := t\<rparr>))"

lemma runs_to_lift [wp]: "runs_to (lift m) s Q = runs_to m (image s) (\<lambda>x t. Q x (s\<lparr>image := t\<rparr>))"
  by (simp add: runs_to_def lift_def split: sum.splits prod.splits)

text \<open>\<open>malloc\<close> of a struct outside of the memory image; it counts as an allocation of the image.\<close>

definition malloc_host :: "(host \<Rightarrow> addr \<rightharpoonup> 'o) \<Rightarrow> (((addr \<rightharpoonup> 'o) \<Rightarrow> (addr \<rightharpoonup> 'o)) \<Rightarrow> host \<Rightarrow> host) \<Rightarrow>
    'o \<Rightarrow> (host, addr) prog" where
  "malloc_host sel upd v =
     (\<lambda>s. let a = Suc (next_addr (image s)); s1 = s\<lparr>image := (image s)\<lparr>next_addr := a\<rparr>\<rparr>
      in if oom (image s) a then Inr (NULL, s1) else Inr (a, upd (\<lambda>_. (sel s1)(a \<mapsto> v)) s1))"

lemma runs_to_malloc_host [wp]:
  "runs_to (malloc_host sel upd v) s Q =
     (let a = Suc (next_addr (image s)); s1 = s\<lparr>image := (image s)\<lparr>next_addr := a\<rparr>\<rparr>
      in if oom (image s) a then Q NULL s1 else Q a (upd (\<lambda>_. (sel s1)(a \<mapsto> v)) s1))"
  by (simp add: malloc_host_def runs_to_def Let_def)

text \<open>Arrays on the stack have addresses of their own and need no \<open>malloc\<close>.\<close>

definition local_obj :: "(mem \<Rightarrow> addr \<rightharpoonup> 'o) \<Rightarrow> (((addr \<rightharpoonup> 'o) \<Rightarrow> (addr \<rightharpoonup> 'o)) \<Rightarrow> mem \<Rightarrow> mem) \<Rightarrow>
    'o \<Rightarrow> (mem, addr) prog" where
  "local_obj sel upd v =
     (\<lambda>s. let a = Suc (next_addr s); s1 = s\<lparr>next_addr := a\<rparr> in Inr (a, upd (\<lambda>_. (sel s1)(a \<mapsto> v)) s1))"

lemma runs_to_local_obj [wp]:
  "runs_to (local_obj sel upd v) s Q =
     (let a = Suc (next_addr s); s1 = s\<lparr>next_addr := a\<rparr> in Q a (upd (\<lambda>_. (sel s1)(a \<mapsto> v)) s1))"
  by (simp add: local_obj_def runs_to_def Let_def)

definition start_thread :: "thread \<Rightarrow> (host, unit) prog" where
  "start_thread t = modifies (\<lambda>s. s\<lparr>threads := threads s @ [t]\<rparr>)"

section \<open>Byte order and numerals\<close>

definition htonl :: "32 word \<Rightarrow> 32 word" where
  "htonl w = of_le32 (rev (le32 w))"

definition ntohl :: "32 word \<Rightarrow> 32 word" where
  "ntohl = htonl"

definition htons :: "16 word \<Rightarrow> 16 word" where
  "htons w = push_bit 8 w OR drop_bit 8 w"

definition ntohs :: "16 word \<Rightarrow> 16 word" where
  "ntohs = htons"

text \<open>The two bytes of a \<open>uint16_t\<close> in memory.\<close>

definition le16 :: "16 word \<Rightarrow> 8 word list" where
  "le16 w = [ucast w, ucast (drop_bit 8 w)]"

definition of_le16 :: "8 word list \<Rightarrow> 16 word" where
  "of_le16 bs = ucast (bs ! 0) OR push_bit 8 (ucast (bs ! 1))"

text \<open>\<open>atoi\<close>: white space, a sign, decimal digits; undefined when the value is no \<open>int\<close>.\<close>

fun digits :: "int \<Rightarrow> string \<Rightarrow> int" where
  "digits v [] = v"
| "digits v (c # cs) =
     (let k = int (of_char c) in if 48 \<le> k \<and> k \<le> 57 then digits (10 * v + k - 48) cs else v)"

definition atoi :: "string \<Rightarrow> (host, int) prog" where
  "atoi str =
     (let cs = dropWhile (\<lambda>c. c \<in> {CHR '' '', CHR 0x09, CHR 0x0A, CHR 0x0B, CHR 0x0C, CHR 0x0D}) str;
          v = (case cs of
                 [] \<Rightarrow> 0
               | c # ds \<Rightarrow> if c = CHR ''-'' then - digits 0 ds
                           else if c = CHR ''+'' then digits 0 ds else digits 0 cs)
      in if in_int v then ret v else halt Undefined)"

section \<open>System calls\<close>

definition sys_socket :: "(host, int) prog" where
  "sys_socket = bnd (gets next_fd) (\<lambda>fd. seq (modifies (\<lambda>s. s\<lparr>next_fd := fd + 1\<rparr>)) (ret fd))"

definition sys_bind :: "sock_type \<Rightarrow> int \<Rightarrow> sockaddr_in \<Rightarrow> (host, int) prog" where
  "sys_bind type fd a =
     bnd (gets (\<lambda>s. in_use s type a)) (\<lambda>taken.
     if taken then ret (-1)
     else seq (modifies (\<lambda>s. s\<lparr>in_use := (in_use s)(type := (in_use s type)(a := True)), bound := bound s @ [(fd, a)]\<rparr>)) (ret 0))"

definition sys_connect :: "int \<Rightarrow> sockaddr_in \<Rightarrow> (host, int) prog" where
  "sys_connect fd a =
     bnd (gets (\<lambda>s. refused s (connects s))) (\<lambda>no.
     seq (modifies (\<lambda>s. s\<lparr>connects := Suc (connects s)\<rparr>))
    (if no then ret (-1)
     else seq (modifies (\<lambda>s. s\<lparr>connected := connected s @ [(fd, a)]\<rparr>)) (ret 0)))"

definition sys_accept :: "(host, int) prog" where
  "sys_accept = bnd (gets (\<lambda>s. accept_fd s (accepts s))) (\<lambda>fd.
     seq (modifies (\<lambda>s. s\<lparr>accepts := Suc (accepts s)\<rparr>)) (ret fd))"

definition sys_rand :: "(host, nat) prog" where
  "sys_rand = bnd (gets (\<lambda>s. rand_value s (rands s))) (\<lambda>r.
     seq (modifies (\<lambda>s. s\<lparr>rands := Suc (rands s)\<rparr>)) (ret r))"

definition gettimeofday :: "(host, int \<times> int) prog" where
  "gettimeofday = bnd (gets (\<lambda>s. clock s (clock_reads s))) (\<lambda>t.
     seq (modifies (\<lambda>s. s\<lparr>clock_reads := Suc (clock_reads s)\<rparr>)) (ret t))"

text \<open>
  \<open>recvfrom\<close> into a variable whose bytes were \<open>old\<close>: the result, the new bytes, and the
  address of the sender. A datagram that is too long is cut off.
\<close>

definition sys_recvfrom :: "int \<Rightarrow> 8 word list \<Rightarrow> sockaddr_in \<Rightarrow> (host, int \<times> 8 word list \<times> sockaddr_in) prog" where
  "sys_recvfrom fd old peer =
     bnd (gets (\<lambda>s. udp_in s fd)) (\<lambda>packets.
     case packets of
       [] \<Rightarrow> bnd (gets (\<lambda>s. udp_timeout s fd)) (\<lambda>timed. if timed then ret (-1, old, peer) else halt Blocked)
     | p # rest \<Rightarrow>
         seq (modifies (\<lambda>s. s\<lparr>udp_in := (udp_in s)(fd := rest)\<rparr>))
         (case p of
            Recv_error \<Rightarrow> ret (-1, old, peer)
          | Packet from bs \<Rightarrow>
              let got = take (length old) bs in
              ret (int (length got), got @ drop (length got) old, from)))"

section \<open>utils.c\<close>

text \<open>
  A message is passed as its bytes, a socket address as its value; what a function stores through
  a pointer is part of its result.
\<close>

definition set_time :: "(host, unit) prog" where
  "set_time = bnd gettimeofday (\<lambda>t. modifies (\<lambda>s. s\<lparr>start_time := t\<rparr>))"

text \<open>
  The arithmetic on \<open>double\<close> rounds to 53 bits. The sum is of seconds and of milliseconds.
\<close>

definition fl64 :: "rat \<Rightarrow> rat" where
  "fl64 x =
     (if x = 0 then 0
      else let u = 2 powi (exponent \<bar>x\<bar> - 52)
           in sgn x * (of_int (round_half_even (\<bar>x\<bar> / u)) * u))"

definition get_time :: "(host, rat) prog" where
  "get_time =
     bnd gettimeofday (\<lambda>(end_sec, end_usec).
     bnd (gets start_time) (\<lambda>(start_sec, start_usec).
     let time = fl64 (of_int (end_sec - start_sec))
     in ret (fl64 (time + fl64 (fl64 (of_int (end_usec - start_usec)) / 1000)))))"

definition send_udp :: "8 word list \<Rightarrow> sockaddr_in \<Rightarrow> int \<Rightarrow> (host, int) prog" where
  "send_udp mesg sock_addr sockfd =
     bnd (gets sendto_fails) (\<lambda>fails.
     if fails then ret (-1)
     else seq (modifies (\<lambda>s. s\<lparr>udp_out := udp_out s @ [(sockfd, sock_addr, mesg)]\<rparr>))
              (ret (int (length mesg))))"

definition recieve_udp :: "8 word list \<Rightarrow> sockaddr_in \<Rightarrow> int \<Rightarrow> int \<Rightarrow>
    (host, int \<times> 8 word list \<times> sockaddr_in) prog" where
  "recieve_udp buf sock_addr sockfd timeout =
     seq (whenM (timeout \<noteq> 0) (modifies (\<lambda>s. s\<lparr>udp_timeout := (udp_timeout s)(sockfd := True)\<rparr>)))
         (sys_recvfrom sockfd buf sock_addr)"

text \<open>\<open>inet_addr\<close> returns -1 for a string that is no address.\<close>

definition open_udp :: "string \<Rightarrow> 32 word \<Rightarrow> (host, sockaddr_in \<times> int) prog" where
  "open_udp addr port =
     bnd sys_socket (\<lambda>sockfd.
     bnd (gets (\<lambda>s. host_address s addr)) (\<lambda>a.
     ret (\<lparr>sin_addr = (case a of None \<Rightarrow> -1 | Some w \<Rightarrow> w), sin_port = htons (ucast port)\<rparr>, sockfd)))"

text \<open>
  The result, and the new socket. The socket is bound to the address of the network card, at
  port 5000; the result of \<open>bind\<close> is ignored.
\<close>

definition open_tcp :: "string \<Rightarrow> 32 word \<Rightarrow> string option \<Rightarrow> (host, int \<times> int) prog" where
  "open_tcp addr port nic_addr =
     bnd sys_socket (\<lambda>sockfd.
     bnd (gets (\<lambda>s. host_address s addr)) (\<lambda>a.
     let servaddr = \<lparr>sin_addr = (case a of None \<Rightarrow> -1 | Some w \<Rightarrow> w), sin_port = htons (ucast port)\<rparr> in
     bnd (case nic_addr of
            None \<Rightarrow> ret False
          | Some nic \<Rightarrow>
              bnd (gets (\<lambda>s. host_address s nic)) (\<lambda>n.
              case n of
                None \<Rightarrow> ret True
              | Some w \<Rightarrow> bnd (sys_bind SOCK_STREAM sockfd \<lparr>sin_addr = w, sin_port = htons 5000\<rparr>) (\<lambda>_. ret False)))
         (\<lambda>failed.
     if failed then ret (-1, sockfd)
     else
       bnd (whileM (\<lambda>r. ret (r = -1)) (\<lambda>_. sys_connect sockfd servaddr) (-1)) (\<lambda>r.
       ret (r, sockfd)))))"

section \<open>The clock\<close>

text \<open>Integers of at most 53 bits are represented exactly.\<close>

lemma fl64_int: "\<bar>n\<bar> < 2 ^ 53 \<Longrightarrow> fl64 (of_int n) = of_int n"
  using significand_int [of "\<bar>n\<bar>" 53] by (cases "n = 0") (simp_all add: fl64_def Let_def sgn_if)

lemma get_time_law:
  assumes "start_time s = (t, u)" and "clock s (clock_reads s) = (t + int sec, u + 1000 * int msec)"
    and "sec < 2 ^ 52" and "1000 * msec < 2 ^ 52"
  shows "runs_to get_time s (\<lambda>r s'. r = of_nat sec + of_nat msec)"
proof -
  have m: "fl64 (1000 * of_nat msec) = 1000 * of_nat msec" "fl64 (of_nat msec) = of_nat msec"
    "fl64 (of_nat sec) = of_nat sec" "fl64 (of_nat sec + of_nat msec) = of_nat sec + of_nat msec"
    using fl64_int [of "1000 * int msec"] fl64_int [of "int msec"] fl64_int [of "int sec"]
      fl64_int [of "int sec + int msec"] assms(3,4) by simp_all
  then show ?thesis using assms(1,2) by (simp add: get_time_def gettimeofday_def wp)
qed

end
