(* ===== verification/HashTable.thy ===== *)
theory HashTable
  imports LinkedList
begin

text \<open>
  HashTable.c: the chained hash table from 64-bit keys to pointers, its iterator and its
  resizing, one definition per C function in the order of the file. A return parameter is
  a returned value, \<open>None\<close> when the function does not store through it.
\<close>

section \<open>Access to the record, its locks and its buckets\<close>

abbreviation rd_ht :: "addr \<Rightarrow> (mem, HashTableRecord) prog" where
  "rd_ht \<equiv> load ht_recs"

abbreviation wr_ht :: "addr \<Rightarrow> (HashTableRecord \<Rightarrow> HashTableRecord) \<Rightarrow> (mem, unit) prog" where
  "wr_ht \<equiv> store ht_recs ht_recs_update"

abbreviation rd_kv :: "addr \<Rightarrow> (mem, HTKeyValue) prog" where
  "rd_kv \<equiv> load kvs"

abbreviation wr_kv :: "addr \<Rightarrow> (HTKeyValue \<Rightarrow> HTKeyValue) \<Rightarrow> (mem, unit) prog" where
  "wr_kv \<equiv> store kvs kvs_update"

abbreviation rd_hit :: "addr \<Rightarrow> (mem, HTIterRecord) prog" where
  "rd_hit \<equiv> load ht_iters"

abbreviation wr_hit :: "addr \<Rightarrow> (HTIterRecord \<Rightarrow> HTIterRecord) \<Rightarrow> (mem, unit) prog" where
  "wr_hit \<equiv> store ht_iters ht_iters_update"

text \<open>\<open>sem_wait\<close> and \<open>sem_post\<close> on the two semaphores of the record.\<close>

definition wait_wrt :: "addr \<Rightarrow> (mem, unit) prog" where
  "wait_wrt ht = bnd (rd_ht ht) (\<lambda>r.
     if wrt r = 0 then halt Blocked else wr_ht ht (wrt_update (\<lambda>n. n - 1)))"

definition post_wrt :: "addr \<Rightarrow> (mem, unit) prog" where
  "post_wrt ht = wr_ht ht (wrt_update Suc)"

definition wait_mutex :: "addr \<Rightarrow> (mem, unit) prog" where
  "wait_mutex ht = bnd (rd_ht ht) (\<lambda>r.
     if mutex r = 0 then halt Blocked else wr_ht ht (mutex_update (\<lambda>n. n - 1)))"

definition post_mutex :: "addr \<Rightarrow> (mem, unit) prog" where
  "post_mutex ht = wr_ht ht (mutex_update Suc)"

text \<open>\<open>ht->buckets[i]\<close>, read and written; an index outside the array is undefined.\<close>

definition get_bucket :: "addr \<Rightarrow> nat \<Rightarrow> (mem, addr) prog" where
  "get_bucket ht i =
     bnd (rd_ht ht) (\<lambda>r.
     bnd (load ptr_arrays (buckets r)) (\<lambda>bs.
     if i < length bs then ret (bs ! i) else halt Undefined))"

definition set_bucket :: "addr \<Rightarrow> nat \<Rightarrow> addr \<Rightarrow> (mem, unit) prog" where
  "set_bucket ht i l =
     bnd (rd_ht ht) (\<lambda>r.
     bnd (load ptr_arrays (buckets r)) (\<lambda>bs.
     if i < length bs then store ptr_arrays ptr_arrays_update (buckets r) (\<lambda>bs. bs[i := l])
     else halt Undefined))"

section \<open>Operations on tables\<close>

definition NullFree :: "addr \<Rightarrow> (mem, unit) prog" where
  "NullFree freeme = ret ()"

text \<open>
  \<open>allocate_bucket\<close> is one round of the loop of \<open>AllocateHashTable\<close>; it says whether it
  failed and freed what the earlier rounds made. The elements of the bucket array are stored
  before they are read, so their values right after \<open>malloc\<close> do not matter.
\<close>

definition allocate_bucket :: "addr \<Rightarrow> 32 word \<Rightarrow> (mem, 32 word \<times> bool) prog" where
  "allocate_bucket ht i =
     bnd AllocateLinkedList (\<lambda>l.
     seq (set_bucket ht (unat i) l)
    (if l = NULL then
       bnd (whileM (\<lambda>j. ret (j < i))
         (\<lambda>j. bnd (get_bucket ht (unat j)) (\<lambda>b.
              seq (FreeLinkedList b NullFree) (ret (j + 1)))) 0) (\<lambda>_.
       seq (dealloc ht_recs ht_recs_update ht) (ret (i, True)))
     else ret (i + 1, False)))"

definition AllocateHashTable :: "32 word \<Rightarrow> (mem, addr) prog" where
  "AllocateHashTable n =
     (if n = 0 then ret NULL
      else
        bnd (malloc_obj ht_recs ht_recs_update \<lparr>num_buckets = ucast n, num_elements = 0,
               buckets = NULL, wrt = 1, mutex = 1, readcount = 0\<rparr>) (\<lambda>ht.
        if ht = NULL then ret NULL
        else
          bnd (malloc_obj ptr_arrays ptr_arrays_update (replicate (unat n) NULL)) (\<lambda>arr.
          seq (wr_ht ht (buckets_update (\<lambda>_. arr)))
         (if arr = NULL then seq (dealloc ht_recs ht_recs_update ht) (ret NULL)
          else
            bnd (whileM (\<lambda>(i, failed). ret (\<not> failed \<and> i < n))
                   (\<lambda>(i, failed). allocate_bucket ht i) (0, False)) (\<lambda>(i, failed).
            ret (if failed then NULL else ht))))))"

text \<open>
  \<open>free_entries\<close> and \<open>free_bucket\<close> are the inner and the outer loop of \<open>FreeHashTable\<close>.
  \<open>nextKV\<close> is \<open>None\<close> while nothing has been stored in it.
\<close>

definition free_entries :: "addr \<Rightarrow> (addr \<Rightarrow> (mem, unit) prog) \<Rightarrow> addr option \<Rightarrow> (mem, unit) prog" where
  "free_entries bl value_free_function nextKV =
     whileM
       (\<lambda>_. bnd (NumElementsInLinkedList bl) (\<lambda>n. ret (n > 0)))
       (\<lambda>_. case nextKV of
              None \<Rightarrow> halt Undefined
            | Some p \<Rightarrow> bnd (rd_kv p) (\<lambda>kv.
                seq (value_free_function (kv_value kv)) (dealloc kvs kvs_update p))) ()"

definition free_bucket :: "addr \<Rightarrow> (addr \<Rightarrow> (mem, unit) prog) \<Rightarrow> 32 word \<Rightarrow> (mem, 32 word) prog" where
  "free_bucket table value_free_function i =
     bnd (get_bucket table (unat i)) (\<lambda>bl.
     bnd (PopLinkedList bl) (\<lambda>nextKV.
     seq (free_entries bl value_free_function nextKV)
    (seq (FreeLinkedList bl NullFree)
         (ret (i + 1)))))"

definition FreeHashTable :: "addr \<Rightarrow> (addr \<Rightarrow> (mem, unit) prog) \<Rightarrow> (mem, unit) prog" where
  "FreeHashTable table value_free_function =
     bnd (whileM
       (\<lambda>i :: 32 word. bnd (rd_ht table) (\<lambda>r. ret (ucast i < num_buckets r)))
       (free_bucket table value_free_function) 0) (\<lambda>_.
     bnd (rd_ht table) (\<lambda>r.
     seq (dealloc ptr_arrays ptr_arrays_update (buckets r))
         (dealloc ht_recs ht_recs_update table)))"

definition NumElementsInHashTable :: "addr \<Rightarrow> (mem, 64 word) prog" where
  "NumElementsInHashTable table = bnd (rd_ht table) (\<lambda>r. ret (num_elements r))"

definition FNV1_64_INIT :: "64 word" where
  "FNV1_64_INIT = 0xcbf29ce484222325"

definition FNV_64_PRIME :: "64 word" where
  "FNV_64_PRIME = 0x100000001b3"

fun FNVHash64_loop :: "64 word \<Rightarrow> 8 word list \<Rightarrow> 64 word" where
  "FNVHash64_loop hval [] = hval"
| "FNVHash64_loop hval (b # bs) = FNVHash64_loop ((hval XOR ucast b) * FNV_64_PRIME) bs"

definition FNVHash64 :: "8 word list \<Rightarrow> 64 word" where
  "FNVHash64 buffer = FNVHash64_loop FNV1_64_INIT buffer"

text \<open>The loop of \<open>FNVHashInt64\<close> that stores \<open>n\<close> octets, the lowest first.\<close>

fun octets :: "nat \<Rightarrow> 64 word \<Rightarrow> 8 word list" where
  "octets 0 hashme = []"
| "octets (Suc n) hashme = ucast (hashme AND 0xFF) # octets n (drop_bit 8 hashme)"

definition FNVHashInt64 :: "64 word \<Rightarrow> 64 word" where
  "FNVHashInt64 hashme = FNVHash64 (octets 8 hashme)"

definition HashKeyToBucketNum :: "addr \<Rightarrow> 64 word \<Rightarrow> (mem, 64 word) prog" where
  "HashKeyToBucketNum ht key =
     bnd (rd_ht ht) (\<lambda>r. if num_buckets r = 0 then halt Undefined else ret (key mod num_buckets r))"

text \<open>
  \<open>find_kv\<close> is the C function \<open>find\<close>: its result code and, when the key was found, the copy
  that goes to \<open>*found\<close> and the pointer that goes to \<open>*foundPtr\<close>. \<open>find_step\<close> is the body
  of its loop.
\<close>

definition find_step :: "addr \<Rightarrow> 64 word \<Rightarrow> bool \<Rightarrow> bool \<times> (HTKeyValue \<times> addr) option \<Rightarrow>
    (mem, bool \<times> (HTKeyValue \<times> addr) option) prog" where
  "find_step iter targetKey remove =
     (\<lambda>(nxt, res).
        bnd (LLIteratorGetPayload iter) (\<lambda>payload.
        bnd (rd_kv payload) (\<lambda>kv.
        if kv_key kv = targetKey then
          seq (whenM remove
                 (seq (dealloc kvs kvs_update payload)
                      (bnd (LLIteratorDelete iter NullFree) (\<lambda>_. ret ()))))
         (seq (LLIteratorFree iter)
              (ret (nxt, Some (kv, payload))))
        else bnd (LLIteratorNext iter) (\<lambda>nxt'. ret (nxt', None)))))"

definition find_kv :: "addr \<Rightarrow> 64 word \<Rightarrow> bool \<Rightarrow> (mem, int \<times> (HTKeyValue \<times> addr) option) prog" where
  "find_kv list targetKey remove =
     bnd (LLMakeIterator list 0) (\<lambda>iter.
     if iter = NULL then
       bnd (NumElementsInLinkedList list) (\<lambda>n. ret (if n > 0 then -1 else 0, None))
     else
       bnd (whileM (\<lambda>(nxt, res). ret (nxt \<and> res = None)) (find_step iter targetKey remove)
              (True, None)) (\<lambda>(nxt, res).
       case res of
         Some r \<Rightarrow> ret (1, Some r)
       | None \<Rightarrow> seq (LLIteratorFree iter) (ret (0, None))))"

text \<open>
  \<open>insert_locked\<close> is the part of \<open>InsertHashTable\<close> after the call to \<open>ResizeHashtable\<close>, and
  \<open>insert_with\<close> the whole body with that call as a parameter, because the two functions call
  each other. The \<open>uint32_t insertBucket\<close> truncates the bucket number.
\<close>

definition insert_locked :: "addr \<Rightarrow> HTKeyValue \<Rightarrow> (mem, int \<times> HTKeyValue option) prog" where
  "insert_locked table newkeyvalue =
     bnd (HashKeyToBucketNum table (kv_key newkeyvalue)) (\<lambda>insertBucket.
     bnd (get_bucket table (unat (ucast insertBucket :: 32 word))) (\<lambda>insertChain.
     bnd (find_kv insertChain (kv_key newkeyvalue) False) (\<lambda>(success, found).
     bnd (if success = -1 then ret (0, None)
          else case found of
            None \<Rightarrow>
              seq (wr_ht table (num_elements_update (\<lambda>n. n + 1)))
             (bnd (malloc_obj kvs kvs_update newkeyvalue) (\<lambda>newEntry.
              if newEntry = NULL then ret (0, None)
              else bnd (PushLinkedList insertChain newEntry) (\<lambda>b. ret (of_bool b, None))))
          | Some (_, p) \<Rightarrow>
              bnd (rd_kv p) (\<lambda>old.
              seq (wr_kv p (kv_value_update (\<lambda>_. kv_value newkeyvalue))) (ret (2, Some old)))) (\<lambda>res.
     seq (post_wrt table) (ret res)))))"

definition insert_with :: "(addr \<Rightarrow> (mem, unit) prog) \<Rightarrow> addr \<Rightarrow> HTKeyValue \<Rightarrow>
    (mem, int \<times> HTKeyValue option) prog" where
  "insert_with resize table newkeyvalue =
     seq (wait_wrt table) (seq (resize table) (insert_locked table newkeyvalue))"

definition LookupHashTable :: "addr \<Rightarrow> 64 word \<Rightarrow> (mem, int \<times> HTKeyValue option) prog" where
  "LookupHashTable table key =
     seq (wait_mutex table)
    (seq (wr_ht table (readcount_update (\<lambda>n. n + 1)))
    (seq (bnd (rd_ht table) (\<lambda>r. whenM (readcount r = 1) (wait_wrt table)))
    (seq (post_mutex table)
    (bnd (HashKeyToBucketNum table key) (\<lambda>lookupBucket.
     bnd (get_bucket table (unat lookupBucket)) (\<lambda>lookupChain.
     bnd (find_kv lookupChain key False) (\<lambda>(code, found).
     seq (wait_mutex table)
    (seq (wr_ht table (readcount_update (\<lambda>n. n - 1)))
    (seq (bnd (rd_ht table) (\<lambda>r. whenM (readcount r = 0) (post_wrt table)))
    (seq (post_mutex table)
         (ret (code, map_option fst found))))))))))))"

definition RemoveFromHashTable :: "addr \<Rightarrow> 64 word \<Rightarrow> (mem, int \<times> HTKeyValue option) prog" where
  "RemoveFromHashTable table key =
     seq (wait_wrt table)
    (bnd (HashKeyToBucketNum table key) (\<lambda>removeBucket.
     bnd (get_bucket table (unat removeBucket)) (\<lambda>removeChain.
     bnd (find_kv removeChain key True) (\<lambda>(success, found).
     seq (whenM (success = 1) (wr_ht table (num_elements_update (\<lambda>n. n - 1))))
    (seq (post_wrt table)
         (ret (success, map_option fst found)))))))"

section \<open>Iterators\<close>

text \<open>
  \<open>first_bucket\<close> is the loop that looks for the first non-empty bucket; when every bucket is
  empty it leaves \<open>bucket_num\<close> uninitialised, and reading it afterwards is undefined.
\<close>

definition first_bucket :: "addr \<Rightarrow> addr \<Rightarrow> (mem, 32 word \<times> bool) prog" where
  "first_bucket table iter =
     whileM
       (\<lambda>(i, found). bnd (rd_ht table) (\<lambda>r. ret (\<not> found \<and> ucast i < num_buckets r)))
       (\<lambda>(i, found).
          bnd (get_bucket table (unat i)) (\<lambda>b.
          bnd (NumElementsInLinkedList b) (\<lambda>n.
          if n > 0 then seq (wr_hit iter (bucket_num_update (\<lambda>_. ucast i))) (ret (i, True))
          else ret (i + 1, False)))) (0, False)"

definition HashTableMakeIterator :: "addr \<Rightarrow> (mem, addr) prog" where
  "HashTableMakeIterator table =
     bnd (malloc_obj ht_iters ht_iters_update
            \<lparr>is_valid = False, hit_ht = NULL, bucket_num = 0, bucket_it = NULL\<rparr>) (\<lambda>iter.
     if iter = NULL then ret NULL
     else bnd (rd_ht table) (\<lambda>r.
     if num_elements r = 0 then
       seq (wr_hit iter (\<lambda>h. h\<lparr>is_valid := False, hit_ht := table, bucket_it := NULL\<rparr>)) (ret iter)
     else
       seq (wr_hit iter (\<lambda>h. h\<lparr>is_valid := True, hit_ht := table\<rparr>))
      (bnd (first_bucket table iter) (\<lambda>(i, found).
       if \<not> found then halt Undefined
       else
         bnd (rd_hit iter) (\<lambda>h.
         bnd (get_bucket table (unat (bucket_num h))) (\<lambda>b.
         bnd (LLMakeIterator b 0) (\<lambda>li.
         seq (wr_hit iter (bucket_it_update (\<lambda>_. li)))
        (if li = NULL then seq (dealloc ht_iters ht_iters_update iter) (ret NULL)
         else ret iter))))))))"

definition HTIteratorFree :: "addr \<Rightarrow> (mem, unit) prog" where
  "HTIteratorFree iter =
     bnd (rd_hit iter) (\<lambda>h.
     seq (whenM (bucket_it h \<noteq> NULL)
            (seq (LLIteratorFree (bucket_it h)) (wr_hit iter (bucket_it_update (\<lambda>_. NULL)))))
    (seq (wr_hit iter (is_valid_update (\<lambda>_. False)))
         (dealloc ht_iters ht_iters_update iter)))"

text \<open>
  \<open>next_bucket\<close> is the do-while loop of \<open>HTIteratorNext\<close>: its locals are whether it goes on,
  whether it has passed the last bucket, and \<open>nextChain\<close>.
\<close>

definition next_bucket :: "addr \<Rightarrow> (mem, bool \<times> bool \<times> addr) prog" where
  "next_bucket iter =
     whileM (\<lambda>(go, past, nextChain). ret go)
       (\<lambda>_.
          seq (wr_hit iter (bucket_num_update (\<lambda>n. n + 1)))
         (bnd (rd_hit iter) (\<lambda>h.
          bnd (rd_ht (hit_ht h)) (\<lambda>r.
          if num_buckets r \<le> bucket_num h then
            seq (wr_hit iter (is_valid_update (\<lambda>_. False))) (ret (False, True, NULL))
          else
            bnd (get_bucket (hit_ht h) (unat (bucket_num h))) (\<lambda>chain.
            bnd (NumElementsInLinkedList chain) (\<lambda>n. ret (n = 0, False, chain)))))))
       (True, False, NULL)"

definition HTIteratorNext :: "addr \<Rightarrow> (mem, int) prog" where
  "HTIteratorNext iter =
     bnd (rd_hit iter) (\<lambda>h.
     if \<not> is_valid h then ret 0
     else
       bnd (LLIteratorHasNext (bucket_it h)) (\<lambda>more.
       if more then bnd (LLIteratorNext (bucket_it h)) (\<lambda>b. ret (of_bool b))
       else
         bnd (next_bucket iter) (\<lambda>(go, past, nextChain).
         if past then ret 0
         else
           seq (LLIteratorFree (bucket_it h))
          (bnd (LLMakeIterator nextChain 0) (\<lambda>li.
           seq (wr_hit iter (bucket_it_update (\<lambda>_. li))) (ret 1))))))"

definition HTIteratorPastEnd :: "addr \<Rightarrow> (mem, bool) prog" where
  "HTIteratorPastEnd iter =
     bnd (rd_hit iter) (\<lambda>h.
     if \<not> is_valid h then ret True
     else bnd (rd_ht (hit_ht h)) (\<lambda>r. ret (num_elements r = 0)))"

definition HTIteratorGet :: "addr \<Rightarrow> (mem, HTKeyValue option) prog" where
  "HTIteratorGet iter =
     bnd (HTIteratorPastEnd iter) (\<lambda>past.
     if past then ret None
     else bnd (rd_hit iter) (\<lambda>h.
       bnd (LLIteratorGetPayload (bucket_it h)) (\<lambda>payload.
       bnd (rd_kv payload) (\<lambda>kv. ret (Some kv)))))"

definition HTIteratorDelete :: "addr \<Rightarrow> (mem, int \<times> HTKeyValue option) prog" where
  "HTIteratorDelete iter =
     bnd (HTIteratorGet iter) (\<lambda>res.
     case res of
       None \<Rightarrow> ret (0, None)
     | Some kv \<Rightarrow>
         bnd (HTIteratorNext iter) (\<lambda>res.
         bnd (rd_hit iter) (\<lambda>h.
         bnd (RemoveFromHashTable (hit_ht h) (kv_key kv)) (\<lambda>(_, removed).
         ret (if res = 0 then 2 else 1, removed)))))"

section \<open>Resizing\<close>

text \<open>
  \<open>ResizeHashtable\<close> passes \<open>InsertHashTable\<close> its local variable \<open>item\<close>, which nothing
  initialises: each read returns the next value of \<open>uninit_item\<close>. \<open>resize_step\<close> is the body of
  its loop; it says whether the resizing was given up.
\<close>

definition read_uninit_item :: "(mem, HTKeyValue) prog" where
  "read_uninit_item =
     bnd (gets (\<lambda>s. uninit_item s (uninit_reads s))) (\<lambda>item.
     seq (modifies (uninit_reads_update Suc)) (ret item))"

definition swap_records :: "addr \<Rightarrow> addr \<Rightarrow> (mem, unit) prog" where
  "swap_records ht newht =
     bnd (rd_ht ht) (\<lambda>tmp.
     bnd (rd_ht newht) (\<lambda>r.
     seq (wr_ht ht (\<lambda>_. r)) (wr_ht newht (\<lambda>_. tmp))))"

definition resize_step :: "(addr \<Rightarrow> HTKeyValue \<Rightarrow> (mem, int \<times> HTKeyValue option) prog) \<Rightarrow>
    addr \<Rightarrow> addr \<Rightarrow> (mem, bool) prog" where
  "resize_step insert_kv newht it =
     bnd read_uninit_item (\<lambda>item.
     bnd (insert_kv newht item) (\<lambda>(res, dummy).
     if res \<noteq> 1 then
       seq (HTIteratorFree it) (seq (FreeHashTable newht NullFree) (ret True))
     else bnd (HTIteratorNext it) (\<lambda>_. ret False)))"

definition resize_with :: "(addr \<Rightarrow> HTKeyValue \<Rightarrow> (mem, int \<times> HTKeyValue option) prog) \<Rightarrow>
    addr \<Rightarrow> (mem, unit) prog" where
  "resize_with insert_kv ht =
     bnd (rd_ht ht) (\<lambda>r.
     if num_elements r < 3 * num_buckets r then ret ()
     else
       bnd (AllocateHashTable (ucast (num_buckets r * 9))) (\<lambda>newht.
       if newht = NULL then ret ()
       else
         bnd (HashTableMakeIterator ht) (\<lambda>it.
         if it = NULL then FreeHashTable newht NullFree
         else
           bnd (whileM
             (\<lambda>failed. if failed then ret False
                       else bnd (HTIteratorPastEnd it) (\<lambda>past. ret (\<not> past)))
             (\<lambda>_. resize_step insert_kv newht it) False) (\<lambda>failed.
           if failed then ret ()
           else
             seq (HTIteratorFree it)
            (seq (swap_records ht newht)
                 (FreeHashTable newht NullFree))))))"

text \<open>
  The mutual recursion is bounded by the number of frames of \<open>InsertHashTable\<close> that the
  stack can hold, the first argument.
\<close>

fun InsertHashTable :: "nat \<Rightarrow> addr \<Rightarrow> HTKeyValue \<Rightarrow> (mem, int \<times> HTKeyValue option) prog" where
  "InsertHashTable 0 table newkeyvalue = halt StackOverflow"
| "InsertHashTable (Suc depth) table newkeyvalue =
     insert_with (resize_with (InsertHashTable depth)) table newkeyvalue"

definition ResizeHashtable :: "nat \<Rightarrow> addr \<Rightarrow> (mem, unit) prog" where
  "ResizeHashtable depth ht = resize_with (InsertHashTable depth) ht"

end
