(* ===== verification/Queue.thy ===== *)
theory Queue
  imports Memory Fifo
begin

text \<open>
  queue.c: the queue of byte buffers between the threads that split buffers into blocks or
  receive them and the threads that send. First the operations, one definition per C
  function; then the invariant of all the queues in memory, a law per operation, and the
  proof that the queue is first-in-first-out.
\<close>

section \<open>Operations\<close>

abbreviation rd_q :: "addr \<Rightarrow> (mem, queue) prog" where
  "rd_q \<equiv> load queues"

abbreviation wr_q :: "addr \<Rightarrow> (queue \<Rightarrow> queue) \<Rightarrow> (mem, unit) prog" where
  "wr_q \<equiv> store queues queues_update"

abbreviation rd_qn :: "addr \<Rightarrow> (mem, queue_node) prog" where
  "rd_qn \<equiv> load q_nodes"

abbreviation wr_qn :: "addr \<Rightarrow> (queue_node \<Rightarrow> queue_node) \<Rightarrow> (mem, unit) prog" where
  "wr_qn \<equiv> store q_nodes q_nodes_update"

text \<open>\<open>sem_wait(&queue->wrt)\<close> and \<open>sem_post(&queue->wrt)\<close>.\<close>

definition q_wait :: "addr \<Rightarrow> (mem, unit) prog" where
  "q_wait q = bnd (rd_q q) (\<lambda>r. if q_wrt r = 0 then halt Blocked else wr_q q (q_wrt_update (\<lambda>n. n - 1)))"

definition q_post :: "addr \<Rightarrow> (mem, unit) prog" where
  "q_post q = wr_q q (q_wrt_update Suc)"

text \<open>A failed \<open>malloc\<close> sets \<open>errno\<close> to \<open>ENOMEM\<close>, which is 12.\<close>

definition ENOMEM :: int where
  "ENOMEM = 12"

definition allocate_queue :: "(mem, addr) prog" where
  "allocate_queue =
     bnd (malloc_obj queues queues_update
            \<lparr>q_head = NULL, q_tail = NULL, q_mutex = False, q_wrt = 1\<rparr>) (\<lambda>q.
     if q = NULL then halt (Exit ENOMEM) else ret q)"

definition free_queue :: "addr \<Rightarrow> (mem, unit) prog" where
  "free_queue queue =
     bnd (whileM
       (\<lambda>_. bnd (rd_q queue) (\<lambda>r. ret (q_head r \<noteq> NULL)))
       (\<lambda>_. bnd (rd_q queue) (\<lambda>r.
            bnd (rd_qn (q_head r)) (\<lambda>n.
            seq (wr_q queue (q_head_update (\<lambda>_. q_next n)))
                (dealloc q_nodes q_nodes_update (q_head r))))) ()) (\<lambda>_.
     dealloc queues queues_update queue)"

text \<open>\<open>dequeue\<close> returns the size and, when there is one, the buffer stored in \<open>*buf_ptr\<close>.\<close>

definition dequeue :: "addr \<Rightarrow> (mem, 32 word \<times> addr option) prog" where
  "dequeue queue =
     seq (q_wait queue)
    (bnd (rd_q queue) (\<lambda>r.
     if q_head r = NULL then seq (q_post queue) (ret (0, None))
     else
       bnd (rd_qn (q_tail r)) (\<lambda>old_tail.
       seq (wr_q queue (q_tail_update (\<lambda>_. q_prev old_tail)))
      (seq (if q_prev old_tail = NULL then wr_q queue (q_head_update (\<lambda>_. NULL))
            else wr_qn (q_prev old_tail) (q_next_update (\<lambda>_. NULL)))
      (seq (dealloc q_nodes q_nodes_update (q_tail r))
      (seq (q_post queue)
           (ret (q_buf_len old_tail, Some (q_buf old_tail)))))))))"

definition enqueue :: "addr \<Rightarrow> addr \<Rightarrow> 32 word \<Rightarrow> (mem, unit) prog" where
  "enqueue queue buf buf_len =
     seq (q_wait queue)
    (bnd (malloc_obj q_nodes q_nodes_update
            \<lparr>q_buf = NULL, q_buf_len = 0, q_prev = NULL, q_next = NULL\<rparr>) (\<lambda>new_head.
     if new_head = NULL then halt (Exit ENOMEM)
     else
       bnd (rd_q queue) (\<lambda>r.
       seq (wr_qn new_head (\<lambda>n. n\<lparr>q_buf := buf, q_buf_len := buf_len, q_next := q_head r,
                                   q_prev := NULL\<rparr>))
      (seq (wr_q queue (q_head_update (\<lambda>_. new_head)))
      (seq (if q_head r \<noteq> NULL then wr_qn (q_head r) (q_prev_update (\<lambda>_. new_head))
            else wr_q queue (q_tail_update (\<lambda>_. new_head)))
           (q_post queue))))))"

definition is_empty :: "addr \<Rightarrow> (mem, bool) prog" where
  "is_empty queue =
     seq (q_wait queue)
    (bnd (rd_q queue) (\<lambda>r.
     seq (q_post queue) (ret (q_head r = NULL))))"

section \<open>The queues in memory\<close>

type_synonym qitem = "addr \<times> 32 word"

abbreviation mk_qnode :: "qitem \<Rightarrow> addr \<Rightarrow> addr \<Rightarrow> queue_node" where
  "mk_qnode \<equiv> (\<lambda>x n p. \<lparr>q_buf = fst x, q_buf_len = snd x, q_prev = p, q_next = n\<rparr>)"

text \<open>
  No thread is inside an operation when the semaphore \<open>wrt\<close> is 1. The mutex is not used by
  queue.c itself but by the threads that wait for a block; the operations leave it alone.
\<close>

definition queue_rec :: "(addr \<times> qitem) list \<Rightarrow> queue \<Rightarrow> bool" where
  "queue_rec ns r \<longleftrightarrow> q_head r = first_of ns NULL \<and> q_tail r = last_of NULL ns \<and> q_wrt r = 1"

definition locked :: "mem \<Rightarrow> addr \<Rightarrow> bool option" where
  "locked s q = map_option q_mutex (queues s q)"

definition q_inv :: "mem \<Rightarrow> (addr \<rightharpoonup> (addr \<times> qitem) list) \<Rightarrow> bool" where
  "q_inv s S \<longleftrightarrow> structs mk_qnode queue_rec (queues s) (q_nodes s) (next_addr s) S"

lemmas q_inv_structs = q_inv_def [THEN iffD1]

lemma queue_atD:
  assumes "q_inv s S" and "S q = Some ns"
  shows "q \<noteq> NULL" "distinct (map fst ns)" "dchain mk_qnode (q_nodes s) NULL ns NULL"
  using structs_at [OF q_inv_structs [OF assms(1)] assms(2)]
  by (auto simp: struct_at_def)

lemma queue_recordE:
  assumes "q_inv s S" and "S q = Some ns"
  obtains m where "queues s q = Some \<lparr>q_head = first_of ns NULL, q_tail = last_of NULL ns,
    q_mutex = m, q_wrt = Suc 0\<rparr>"
proof -
  obtain h where h: "queues s q = Some h" "queue_rec ns h"
    using structs_at [OF q_inv_structs [OF assms(1)] assms(2)] by (auto simp: struct_at_def)
  from h(2) have "h = \<lparr>q_head = first_of ns NULL, q_tail = last_of NULL ns, q_mutex = q_mutex h,
      q_wrt = Suc 0\<rparr>" by (cases h) (simp add: queue_rec_def)
  with h(1) show thesis using that by simp
qed

section \<open>Laws\<close>

lemma allocate_queue_law:
  assumes "q_inv s S" and "\<not> oom s (Suc (next_addr s))"
  shows "runs_to allocate_queue s (\<lambda>q s'. q = Suc (next_addr s) \<and> q_inv s' (S(q \<mapsto> [])) \<and>
    s' = s\<lparr>next_addr := Suc (next_addr s), queues := queues s'\<rparr>)"
  using assms by (simp add: allocate_queue_def wp Let_def q_inv_def structs_new queue_rec_def)

lemma is_empty_law:
  assumes inv: "q_inv s S" and q: "S q = Some ns"
  shows "is_empty q s = Inr (ns = [], s)"
proof -
  note at = queue_atD [OF inv q]
  obtain m where m: "queues s q = Some \<lparr>q_head = first_of ns NULL, q_tail = last_of NULL ns,
    q_mutex = m, q_wrt = Suc 0\<rparr>" by (rule queue_recordE [OF inv q])
  then have "s\<lparr>queues := (queues s)(q \<mapsto> \<lparr>q_head = first_of ns NULL, q_tail = last_of NULL ns,
      q_mutex = m, q_wrt = Suc 0\<rparr>)\<rparr> = s"
    by (cases s) (simp add: fun_upd_idem)
  then show ?thesis
    using m first_of_null [OF at(3)]
    by (simp add: is_empty_def q_wait_def q_post_def prog_defs)
qed

text \<open>The operations change nothing but the queue part of memory.\<close>

definition q_frame :: "mem \<Rightarrow> mem \<Rightarrow> bool" where
  "q_frame s s' \<longleftrightarrow>
     s' = s\<lparr>next_addr := next_addr s', queues := queues s', q_nodes := q_nodes s'\<rparr> \<and>
     next_addr s \<le> next_addr s'"

lemma q_inv_update:
  assumes inv: "q_inv s S" and q: "S q = Some ns"
    and "struct_at mk_qnode queue_rec (queues s') (q_nodes s') q ns'"
    and "\<And>k. k \<noteq> q \<Longrightarrow> queues s' k = queues s k"
    and "\<And>a. a \<notin> node_addrs ns \<Longrightarrow> a \<notin> node_addrs ns' \<Longrightarrow> q_nodes s' a = q_nodes s a"
    and "\<And>a. a \<in> node_addrs ns \<Longrightarrow> a \<notin> node_addrs ns' \<Longrightarrow> q_nodes s' a = None"
    and "\<And>a. a \<in> node_addrs ns' \<Longrightarrow> a \<notin> node_addrs ns \<Longrightarrow> q_nodes s a = None"
    and "below (q_nodes s') (next_addr s')" and "next_addr s \<le> next_addr s'"
  shows "q_inv s' (S(q \<mapsto> ns'))"
  unfolding q_inv_def by (intro structs_update [OF q_inv_structs [OF inv] q]) (fact assms)+

lemma q_inv_fresh:
  assumes "q_inv s S" and "next_addr s < a"
  shows "q_nodes s a = None" "queues s a = None" "S a = None"
  by (rule structs_fresh [OF q_inv_structs [OF assms(1)] assms(2)])+

lemma q_invD:
  assumes "q_inv s S"
  shows "below (q_nodes s) (next_addr s)" "below (queues s) (next_addr s)"
  by (rule structsD [OF q_inv_structs [OF assms]])+

lemma enqueue_law:
  assumes inv: "q_inv s S" and q: "S q = Some ns"
  shows "if oom s (Suc (next_addr s)) then enqueue q buf n s = Inl (Exit ENOMEM)
    else runs_to (enqueue q buf n) s (\<lambda>_ s'.
      q_inv s' (S(q \<mapsto> (Suc (next_addr s), buf, n) # ns)) \<and> q_frame s s' \<and> locked s' = locked s)"
proof (cases "oom s (Suc (next_addr s))")
  case True
  obtain m where "queues s q = Some \<lparr>q_head = first_of ns NULL, q_tail = last_of NULL ns,
    q_mutex = m, q_wrt = Suc 0\<rparr>" by (rule queue_recordE [OF inv q])
  with True show ?thesis
    by (simp add: enqueue_def q_wait_def prog_defs malloc_obj_def)
next
  case False
  let ?a = "Suc (next_addr s)"
  note at = queue_atD [OF inv q]
  obtain m where m: "queues s q = Some \<lparr>q_head = first_of ns NULL, q_tail = last_of NULL ns,
    q_mutex = m, q_wrt = Suc 0\<rparr>" by (rule queue_recordE [OF inv q])
  note fr = q_inv_fresh [OF inv, of ?a, simplified]
  have nin: "?a \<notin> node_addrs ns" using dchain_dom [OF at(3)] fr(1) by auto
  have "runs_to (enqueue q buf n) s (\<lambda>_ s'.
      q_inv s' (S(q \<mapsto> (?a, buf, n) # ns)) \<and> q_frame s s' \<and> locked s' = locked s)"
  proof (cases ns)
    case Nil
    with False at m show ?thesis
      by (simp add: enqueue_def q_wait_def q_post_def wp Let_def q_frame_def)
        (rule conjI, rule q_inv_update [OF inv q];
          auto simp: struct_at_def queue_rec_def q_invD [OF inv] fr locked_def fun_eq_iff)
  next
    case (Cons b ms)
    obtain a y where b: "b = (a, y)" by (cases b)
    with Cons nin have ne: "a \<noteq> ?a" "?a \<notin> node_addrs ms" by auto
    from at Cons b have a: "a \<notin> node_addrs ms" by auto
    from at Cons b have la: "q_nodes s a = Some
        \<lparr>q_buf = fst y, q_buf_len = snd y, q_prev = NULL, q_next = first_of ms NULL\<rparr>" by simp
    from False at m Cons b ne a show ?thesis
      by (simp add: enqueue_def q_wait_def q_post_def wp Let_def q_frame_def)
        (rule conjI, rule q_inv_update [OF inv q];
          auto simp: struct_at_def queue_rec_def q_invD [OF inv] fr la locked_def fun_eq_iff)
  qed
  with False show ?thesis by simp
qed

lemma dequeue_law:
  assumes inv: "q_inv s S" and q: "S q = Some ns"
  shows "runs_to (dequeue q) s (\<lambda>r s'.
    if ns = [] then r = (0, None) \<and> s' = s
    else r = (snd (snd (last ns)), Some (fst (snd (last ns)))) \<and> q_inv s' (S(q \<mapsto> butlast ns)) \<and>
      q_frame s s' \<and> locked s' = locked s \<and> next_addr s' = next_addr s)"
proof (cases "ns = []")
  case True
  obtain m where m: "queues s q = Some \<lparr>q_head = first_of ns NULL, q_tail = last_of NULL ns,
    q_mutex = m, q_wrt = Suc 0\<rparr>" by (rule queue_recordE [OF inv q])
  then have "s\<lparr>queues := (queues s)(q \<mapsto> \<lparr>q_head = NULL, q_tail = NULL,
      q_mutex = m, q_wrt = Suc 0\<rparr>)\<rparr> = s"
    using True by (cases s) (simp add: fun_upd_idem)
  with True m show ?thesis
    by (simp add: dequeue_def q_wait_def q_post_def wp)
next
  case ne: False
  note at = queue_atD [OF inv q]
  obtain m where m: "queues s q = Some \<lparr>q_head = first_of ns NULL, q_tail = last_of NULL ns,
    q_mutex = m, q_wrt = Suc 0\<rparr>" by (rule queue_recordE [OF inv q])
  obtain ms a y where
    ms: "ns = ms @ [(a, y)]" and la: "last_of NULL ns = a"
      "q_nodes s a = Some (mk_qnode y NULL (last_of NULL ms))"
      "dchain mk_qnode (q_nodes s) NULL ms a"
    by (rule last_split [OF at(3) ne])
  from at ms have a: "a \<notin> node_addrs ms" "a \<noteq> NULL" by auto
  have ne0: "first_of ns NULL \<noteq> NULL" using first_of_null [OF at(3)] ne by simp
  show ?thesis
  proof (cases "ms = []")
    case True
    with at m la a ms show ?thesis
      by (simp add: dequeue_def q_wait_def q_post_def wp q_frame_def)
        (rule conjI, rule q_inv_update [OF inv q];
          auto simp: struct_at_def queue_rec_def q_invD [OF inv] la locked_def fun_eq_iff)
  next
    case False
    obtain ms' a' y' where
      ms': "ms = ms' @ [(a', y')]" and la': "last_of NULL ms = a'"
        "q_nodes s a' = Some (mk_qnode y' a (last_of NULL ms'))"
        "dchain mk_qnode (q_nodes s) NULL ms' a'"
      by (rule last_split [OF la(3) False])
    from at ms ms' have a': "a' \<notin> node_addrs ms'" "a' \<noteq> a" "a \<notin> node_addrs ms'" "a' \<noteq> NULL" by auto
    from ne0 at(1,2) m at(3) [unfolded ms ms', simplified] la la' a a' ms ms' show ?thesis
      by (simp add: dequeue_def q_wait_def q_post_def wp q_frame_def)
        (rule conjI, rule q_inv_update [OF inv q];
          auto simp: struct_at_def queue_rec_def q_invD [OF inv] la la' butlast_append locked_def fun_eq_iff)
  qed
qed

text \<open>\<open>free_queue\<close> frees the record and every node, and nothing else.\<close>

lemma free_queue_unfold:
  "free_queue q =
     bnd (rd_q q) (\<lambda>r.
     if q_head r \<noteq> NULL then
       bnd (rd_q q) (\<lambda>r. bnd (rd_qn (q_head r)) (\<lambda>n.
       seq (wr_q q (q_head_update (\<lambda>_. q_next n)))
      (seq (dealloc q_nodes q_nodes_update (q_head r)) (free_queue q))))
     else dealloc queues queues_update q)"
  unfolding free_queue_def by (subst whileM_unfold) (simp only: monad_laws)

lemma free_queue_loop:
  assumes "q \<noteq> NULL" and "dchain mk_qnode (q_nodes s) p ns NULL" and "distinct (map fst ns)"
    and "queues s q = Some h" and "q_head h = first_of ns NULL"
  shows "free_queue q s = Inr ((), s\<lparr>queues := (queues s)(q := None),
    q_nodes := q_nodes s |` (- node_addrs ns)\<rparr>)"
  using assms(2-5)
proof (induction ns arbitrary: s p h)
  case Nil
  then show ?case by (subst free_queue_unfold) (simp add: prog_defs assms(1))
next
  case (Cons b ns)
  obtain a y where b: "b = (a, y)" by (cases b)
  let ?s = "s\<lparr>queues := (queues s)(q \<mapsto> h\<lparr>q_head := first_of ns NULL\<rparr>),
    q_nodes := (q_nodes s)(a := None)\<rparr>"
  have "free_queue q s = free_queue q ?s"
    by (subst free_queue_unfold) (use Cons.prems b in \<open>simp add: prog_defs\<close>)
  also have "\<dots> = Inr ((), ?s\<lparr>queues := (queues ?s)(q := None),
      q_nodes := q_nodes ?s |` (- node_addrs ns)\<rparr>)"
    by (rule Cons.IH [where p = a and h = "h\<lparr>q_head := first_of ns NULL\<rparr>"]) (use Cons.prems b in \<open>simp_all add: fun_upd_same del: fun_upd_apply\<close>)
  finally have "free_queue q s = \<dots>" .
  moreover have "(q_nodes s)(a := None) |` (- node_addrs ns) = q_nodes s |` (- node_addrs (b # ns))"
    using b by (auto simp: restrict_map_def)
  ultimately show ?case by (simp del: fun_upd_apply)
qed

lemma free_queue_law:
  assumes inv: "q_inv s S" and q: "S q = Some ns"
  shows "runs_to (free_queue q) s (\<lambda>_ s'. q_inv s' (S(q := None)) \<and> q_frame s s' \<and>
    queues s' = (queues s)(q := None))"
proof -
  obtain m where m: "queues s q = Some \<lparr>q_head = first_of ns NULL, q_tail = last_of NULL ns,
    q_mutex = m, q_wrt = Suc 0\<rparr>" by (rule queue_recordE [OF inv q])
  show ?thesis
  using structs_remove [OF q_inv_structs [OF inv] q] queue_atD [OF inv q] m
  by (intro runs_toI [where s' = "s\<lparr>queues := (queues s)(q := None),
    q_nodes := q_nodes s |` (- node_addrs ns)\<rparr>"])
    (auto simp: free_queue_loop [where p = NULL] q_inv_def q_frame_def)
qed

section \<open>First in, first out\<close>

text \<open>
  \<open>q_fifo s F\<close>: memory is well formed, \<open>malloc\<close> does not fail, and \<open>F\<close> gives the
  buffers of each queue, oldest first.
\<close>

definition q_fifo :: "mem \<Rightarrow> (addr \<rightharpoonup> qitem list) \<Rightarrow> bool" where
  "q_fifo s F \<longleftrightarrow> (\<forall>n. \<not> oom s n) \<and>
     (\<exists>S. q_inv s S \<and> F = (\<lambda>q. map_option (\<lambda>ns. rev (map snd ns)) (S q)))"

lemma q_fifoE:
  assumes "q_fifo s F" and "F q = Some xs"
  obtains S ns where "q_inv s S" and "S q = Some ns" and "xs = rev (map snd ns)"
    and "\<forall>n. \<not> oom s n" and "F = (\<lambda>q. map_option (\<lambda>ns. rev (map snd ns)) (S q))"
  using assms by (auto simp: q_fifo_def)

lemma q_fifo_upd:
  assumes "q_inv s' (S(q \<mapsto> ns))" and "q_frame s s'" and "\<forall>n. \<not> oom s n"
    and "F = (\<lambda>q. map_option (\<lambda>ns. rev (map snd ns)) (S q))" and "ys = rev (map snd ns)"
  shows "q_fifo s' (F(q \<mapsto> ys))"
proof -
  have "oom s' = oom s" using assms(2) unfolding q_frame_def by (cases s; cases s') simp
  then show ?thesis
    using assms(1,3-5) unfolding q_fifo_def by (auto intro!: exI [of _ "S(q \<mapsto> ns)"])
qed

text \<open>A client that takes from a queue gets the buffer, or learns that there is none.\<close>

definition take_buffer :: "addr \<Rightarrow> (mem, qitem option) prog" where
  "take_buffer q = bnd (dequeue q) (\<lambda>(size, buf). ret (map_option (\<lambda>b. (b, size)) buf))"

interpretation queue: fifo q_fifo "\<lambda>q x. enqueue q (fst x) (snd x)" take_buffer "\<lambda>_. True"
proof (unfold_locales, goal_cases)
  case (1 s F q xs x)
  from 1(1,2) show ?case
  proof (rule q_fifoE)
    fix S ns assume *: "q_inv s S" "S q = Some ns" "xs = rev (map snd ns)" "\<forall>n. \<not> oom s n"
      "F = (\<lambda>q. map_option (\<lambda>ns. rev (map snd ns)) (S q))"
    from enqueue_law [OF *(1,2), of "fst x" "snd x"] *(4) show ?thesis
      by simp (erule runs_to_mono, use * in \<open>auto elim: q_fifo_upd\<close>)
  qed
next
  case (2 s F q)
  from 2 show ?case unfolding take_buffer_def wp
    by (rule q_fifoE, elim runs_to_mono [OF dequeue_law [where ns = "[]"]]) (use 2 in \<open>auto simp: wp\<close>)
next
  case (3 s F q x xs)
  from 3 show ?case unfolding take_buffer_def wp
    by (rule q_fifoE, elim runs_to_mono [OF dequeue_law])
      (auto dest!: rev_Cons_last simp: wp elim: q_fifo_upd)
qed simp

section \<open>Properties\<close>

text \<open>A memory with one queue that holds two buffers, the one at address 100 first.\<close>

definition demo_queue :: mem where
  "demo_queue = mem0\<lparr>next_addr := 3,
     queues := [1 \<mapsto> \<lparr>q_head = 3, q_tail = 2, q_mutex = False, q_wrt = 1\<rparr>],
     q_nodes := [2 \<mapsto> \<lparr>q_buf = 100, q_buf_len = 24, q_prev = 3, q_next = NULL\<rparr>,
                 3 \<mapsto> \<lparr>q_buf = 200, q_buf_len = 30, q_prev = NULL, q_next = 2\<rparr>]\<rparr>"

lemma demo_queue_inv: "q_inv demo_queue [1 \<mapsto> [(3, 200, 30), (2, 100, 24)]]"
  by (auto simp: demo_queue_def mem0_def q_inv_def structs_def struct_at_def queue_rec_def
      disjoint_chains_def owned_def below_def split: if_splits)

lemma demo_queue_simps [simp]: "next_addr demo_queue = 3" "oom demo_queue n = False"
  by (simp_all add: demo_queue_def mem0_def)

text \<open>C10. Any sequence of \<open>enqueue\<close> and \<open>dequeue\<close> on a queue answers as the abstract
  first-in-first-out queue does: buffers leave in the order they entered, each once, with its
  size, and \<open>dequeue\<close> on an empty queue hands out nothing; other queues keep their buffers.\<close>

theorem queue_is_fifo:
  assumes "q_fifo s F" and "F q = Some xs"
  shows "runs_to (run_fifo (\<lambda>q x. enqueue q (fst x) (snd x)) take_buffer q ops) s (\<lambda>rs s'.
    rs = fst (fifo_spec ops xs) \<and> q_fifo s' (F(q \<mapsto> snd (fifo_spec ops xs))))"
  using assms by (rule queue.run_fifo_spec) simp

lemma queue_is_fifo_witness:
  "runs_to (run_fifo (\<lambda>q x. enqueue q (fst x) (snd x)) take_buffer 1
       [Take, Put (300, 8), Take, Take, Take]) demo_queue
     (\<lambda>rs s'. rs = [Some (100, 24), Some (200, 30), Some (300, 8), None])"
proof -
  have "q_fifo demo_queue [1 \<mapsto> [(100, 24), (200, 30)]]"
    unfolding q_fifo_def using demo_queue_inv
    by (auto intro!: exI [of _ "[1 \<mapsto> [(3, 200, 30), (2, 100, 24)]]"])
  from queue_is_fifo [OF this, of 1 "[(100, 24), (200, 30)]" "[Take, Put (300, 8), Take, Take, Take]"]
  show ?thesis by (auto elim: runs_to_mono)
qed

text \<open>C19. Each operation of queue.c on a well-formed queue: \<open>is_empty\<close> changes nothing; \<open>dequeue\<close>
  returns size 0 and stores nothing when the queue is empty, and otherwise frees the node at the
  tail and returns its buffer; \<open>enqueue\<close> adds a node at the head, or exits the process when
  \<open>malloc\<close> fails. Each leaves the semaphore at 1, so the next operation is not blocked.\<close>

theorem queue_operations:
  assumes "q_inv s S" and "S q = Some ns"
  shows "is_empty q s = Inr (ns = [], s) \<and>
    (if ns = [] then dequeue q s = Inr ((0, None), s)
     else runs_to (dequeue q) s (\<lambda>r s'. r = (snd (snd (last ns)), Some (fst (snd (last ns)))) \<and>
       q_inv s' (S(q \<mapsto> butlast ns)) \<and> q_frame s s')) \<and>
    (if oom s (Suc (next_addr s)) then enqueue q buf n s = Inl (Exit ENOMEM)
     else runs_to (enqueue q buf n) s (\<lambda>_ s'.
       q_inv s' (S(q \<mapsto> (Suc (next_addr s), buf, n) # ns)) \<and> q_frame s s'))"
  using is_empty_law [OF assms] dequeue_law [OF assms] enqueue_law [OF assms, of buf n]
  by (auto simp: runs_to_iff)

lemma queue_operations_witness:
  "is_empty 1 demo_queue = Inr (False, demo_queue)"
  using queue_operations [OF demo_queue_inv, of 1 "[(3, 200, 30), (2, 100, 24)]"] by simp

text \<open>A queue lives from \<open>allocate_queue\<close>, which returns a fresh empty queue or exits, to
  \<open>free_queue\<close>, which frees the record and every node that is left and nothing else.\<close>

theorem queue_lifetime:
  assumes "q_inv s S"
  shows "(if oom s (Suc (next_addr s)) then allocate_queue s = Inl (Exit ENOMEM)
     else runs_to allocate_queue s (\<lambda>q s'. S q = None \<and> q_inv s' (S(q \<mapsto> [])))) \<and>
    (\<forall>q ns. S q = Some ns \<longrightarrow>
       runs_to (free_queue q) s (\<lambda>_ s'. q_inv s' (S(q := None)) \<and> q_frame s s'))"
proof (intro conjI allI impI)
  show "if oom s (Suc (next_addr s)) then allocate_queue s = Inl (Exit ENOMEM)
     else runs_to allocate_queue s (\<lambda>q s'. S q = None \<and> q_inv s' (S(q \<mapsto> [])))"
  proof (cases "oom s (Suc (next_addr s))")
    case True
    then show ?thesis by (simp add: allocate_queue_def malloc_obj_def prog_defs)
  next
    case False
    with allocate_queue_law [OF assms] q_inv_fresh(3) [OF assms, of "Suc (next_addr s)"]
    show ?thesis by (auto elim: runs_to_mono)
  qed
next
  fix q ns
  assume "S q = Some ns"
  from free_queue_law [OF assms this]
  show "runs_to (free_queue q) s (\<lambda>_ s'. q_inv s' (S(q := None)) \<and> q_frame s s')"
    by (rule runs_to_mono) simp
qed

lemma queue_lifetime_witness:
  "runs_to (free_queue 1) demo_queue (\<lambda>_ s'. q_inv s' Map.empty \<and> q_frame demo_queue s')"
proof -
  from queue_lifetime [OF demo_queue_inv, THEN conjunct2, rule_format,
      of 1 "[(3, 200, 30), (2, 100, 24)]"]
  have "runs_to (free_queue 1) demo_queue (\<lambda>_ s'.
      q_inv s' ([1 \<mapsto> [(3, 200, 30), (2, 100, 24)]](1 := None)) \<and> q_frame demo_queue s')"
    by simp
  then show ?thesis by (rule runs_to_mono) (simp add: fun_upd_idem del: fun_upd_apply)
qed

end
