(* ===== verification/Standards.thy ===== *)
theory Standards
  imports Bytes
begin

text \<open>
  multiplex_standards.h: the two kinds of block, how each lies in memory, and the constants.
  A block is recognised by the word at offset 4, which is the flag of an \<open>init_block\<close> and the
  sequence number of a \<open>data_block\<close>.
\<close>

definition BLOCK_SIZE :: int where
  "BLOCK_SIZE = 16384"

definition NO_TAG :: int where
  "NO_TAG = -1"

record data_block =
  db_block_size :: "32 word"
  db_seq_number :: "32 word"
  db_tag :: "32 word"

record init_block =
  ib_block_size :: "32 word"
  ib_flag :: "32 word"
  ib_buffer_size :: "32 word"
  ib_tag :: "32 word"
  ib_prev_tag :: "32 word"
  ib_last_block :: bool

text \<open>
  \<open>sizeof\<close> of the two structs: three words; and five words, a \<open>bool\<close> and three bytes of
  padding, which no statement of the program writes.
\<close>

definition sizeof_data_block :: nat where
  "sizeof_data_block = 12"

definition sizeof_init_block :: nat where
  "sizeof_init_block = 24"

definition data_block_bytes :: "data_block \<Rightarrow> 8 word option list" where
  "data_block_bytes b =
     map Some (le32 (db_block_size b) @ le32 (db_seq_number b) @ le32 (db_tag b))"

definition init_block_bytes :: "init_block \<Rightarrow> 8 word option list" where
  "init_block_bytes b =
     map Some (le32 (ib_block_size b) @ le32 (ib_flag b) @ le32 (ib_buffer_size b) @
       le32 (ib_tag b) @ le32 (ib_prev_tag b) @ [of_bool (ib_last_block b)])"

lemma length_data_block_bytes [simp]: "length (data_block_bytes b) = 12"
  by (simp add: data_block_bytes_def)

lemma length_init_block_bytes [simp]: "length (init_block_bytes b) = 21"
  by (simp add: init_block_bytes_def)

text \<open>What a reader finds at the offsets of the fields.\<close>

lemma word_at_append [simp]: "word_at (map Some (le32 w) @ bs) 0 = Some w"
  by (simp add: word_at_def)

lemma word_at_skip:
  "length as \<le> off \<Longrightarrow> word_at (as @ bs) off = word_at bs (off - length as)"
  by (auto simp: word_at_def)

lemma data_block_fields:
  "word_at (data_block_bytes b @ bs) 0 = Some (db_block_size b)"
  "word_at (data_block_bytes b @ bs) 4 = Some (db_seq_number b)"
  "word_at (data_block_bytes b @ bs) 8 = Some (db_tag b)"
  by (simp_all add: data_block_bytes_def word_at_skip)

lemma init_block_fields:
  "word_at (init_block_bytes b @ bs) 0 = Some (ib_block_size b)"
  "word_at (init_block_bytes b @ bs) 4 = Some (ib_flag b)"
  "word_at (init_block_bytes b @ bs) 8 = Some (ib_buffer_size b)"
  "word_at (init_block_bytes b @ bs) 12 = Some (ib_tag b)"
  "word_at (init_block_bytes b @ bs) 16 = Some (ib_prev_tag b)"
  "initialised (take 1 (drop 20 (init_block_bytes b @ bs))) = Some [of_bool (ib_last_block b)]"
  by (simp_all add: init_block_bytes_def word_at_skip)
     (simp add: initialised_def)

end
