(* ===== verification/Reader.thy ===== *)
theory Reader
  imports HashTable Queue Standards Utils
begin

text \<open>
  multiplex_reader.c: the thread that receives blocks, the table of the buffers that are being
  put together, and the delivery of finished buffers in the order of their tags. One definition
  per C function; the function \<open>handler\<close> of \<open>struct mp_reader_init\<close>, applied to its
  \<open>handler_arg\<close>, is a parameter.

  A tag is an \<open>int\<close>, kept as its 32 bits. The key of a table entry has 64 bits: a tag is
  sign-extended on its way to \<open>LookupHashTable\<close>, but zero-extended where it went through the
  \<open>uint32_t\<close> parameter of \<open>insert_dummy_buffer\<close>. The recursions of \<open>handle_block\<close> and of
  \<open>handle_finished_buffer_next\<close> are bounded by the frames that the stack can hold, the
  first argument.
\<close>

section \<open>Access to buffer records\<close>

abbreviation rd_info :: "addr \<Rightarrow> (mem, buffer_info) prog" where
  "rd_info \<equiv> load infos"

abbreviation wr_info :: "addr \<Rightarrow> (buffer_info \<Rightarrow> buffer_info) \<Rightarrow> (mem, unit) prog" where
  "wr_info \<equiv> store infos infos_update"

definition no_tag :: "32 word" where
  "no_tag = word_of_int NO_TAG"

text \<open>\<open>calloc\<close> of a \<open>buffer_info\<close>: all fields are zero.\<close>

definition calloc_info :: "(mem, addr) prog" where
  "calloc_info = malloc_obj infos infos_update
     \<lparr>bi_buffer = NULL, bi_buffer_size = 0, bi_tag = 0, bi_completed = False, bi_sent = False,
      bi_n_written = 0, bi_prev_tag = 0, bi_last_block = False, bi_mutex = False,
      bi_valid = False, bi_next_tag = 0, bi_waiting_queue = NULL\<rparr>"

definition lock_info :: "addr \<Rightarrow> (mem, unit) prog" where
  "lock_info p = bnd (rd_info p) (\<lambda>i.
     if bi_mutex i then halt Blocked else wr_info p (bi_mutex_update (\<lambda>_. True)))"

definition unlock_info :: "addr \<Rightarrow> (mem, unit) prog" where
  "unlock_info p = wr_info p (bi_mutex_update (\<lambda>_. False))"

section \<open>Buffers that are not there yet\<close>

text \<open>
  The result is the returned \<open>bool\<close> and \<open>*buffer\<close>. The code looks for result 2 only: when the
  insertion fails for lack of memory, the record is taken for inserted.
\<close>

definition insert_dummy_buffer :: "nat \<Rightarrow> addr \<Rightarrow> 32 word \<Rightarrow> 32 word \<Rightarrow> addr \<Rightarrow> (mem, bool \<times> addr) prog" where
  "insert_dummy_buffer fuel ht tag next_tag waiting_queue =
     bnd calloc_info (\<lambda>buffer.
     seq (wr_info buffer (\<lambda>i. i\<lparr>bi_mutex := False, bi_tag := tag, bi_valid := False,
            bi_next_tag := next_tag, bi_waiting_queue := waiting_queue\<rparr>))
    (bnd (InsertHashTable fuel ht \<lparr>kv_key = ucast tag, kv_value = buffer\<rparr>) (\<lambda>(res, dummy).
     if res = 2 then
       (case dummy of
          None \<Rightarrow> halt Undefined
        | Some kv \<Rightarrow>
            bnd (InsertHashTable fuel ht kv) (\<lambda>_.
            seq (dealloc infos infos_update buffer)
                (ret (False, kv_value kv))))
     else ret (True, buffer))))"

section \<open>Finished buffers\<close>

fun handle_finished_buffer_next :: "nat \<Rightarrow> (addr \<Rightarrow> 32 word \<Rightarrow> (mem, unit) prog) \<Rightarrow> addr \<Rightarrow> addr \<Rightarrow>
    (mem, unit) prog" where
  "handle_finished_buffer_next 0 handler ht buffer = halt StackOverflow"
| "handle_finished_buffer_next (Suc fuel) handler ht buffer =
     bnd (rd_info buffer) (\<lambda>i.
     seq (handler (bi_buffer i) (bi_buffer_size i))
    (bnd (rd_info buffer) (\<lambda>i.
     bnd (if bi_last_block i then ret (0, None) else LookupHashTable ht (scast (bi_next_tag i))) (\<lambda>(res, next_kv).
     seq (case next_kv of
            Some kv \<Rightarrow>
              if res = 1 then
                bnd (rd_info (kv_value kv)) (\<lambda>next_buf.
                if bi_completed next_buf then
                  seq (handle_finished_buffer_next fuel handler ht (kv_value kv))
                 (bnd (rd_info buffer) (\<lambda>i.
                  bnd (RemoveFromHashTable ht (scast (bi_tag i))) (\<lambda>_. ret ())))
                else ret ())
              else ret ()
          | None \<Rightarrow> ret ())
         (wr_info buffer (bi_sent_update (\<lambda>_. True)))))))"

text \<open>
  The first lookup compares with 0: after the code -1 of a lookup that ran out of memory,
  \<open>prev_buffer_kv\<close> is read without having been stored.
\<close>

definition handle_finished_buffer_prev :: "nat \<Rightarrow> (addr \<Rightarrow> 32 word \<Rightarrow> (mem, unit) prog) \<Rightarrow> addr \<Rightarrow> addr \<Rightarrow>
    (mem, unit) prog" where
  "handle_finished_buffer_prev fuel handler ht finished =
     bnd (rd_info finished) (\<lambda>i.
     if bi_prev_tag i \<noteq> no_tag then
       bnd (LookupHashTable ht (scast (bi_prev_tag i))) (\<lambda>(res, prev_kv).
       bnd (if res = 0 then
              bnd (insert_dummy_buffer fuel ht (bi_prev_tag i) (bi_tag i) NULL) (\<lambda>(added, prev). ret prev)
            else (case prev_kv of None \<Rightarrow> halt Undefined | Some kv \<Rightarrow> ret (kv_value kv))) (\<lambda>prev.
       bnd (rd_info prev) (\<lambda>p.
       if \<not> bi_sent p then wr_info prev (bi_next_tag_update (\<lambda>_. bi_tag i))
       else
         bnd (RemoveFromHashTable ht (scast (bi_prev_tag i))) (\<lambda>_.
         seq (dealloc infos infos_update prev)
             (handle_finished_buffer_next fuel handler ht finished)))))
     else handle_finished_buffer_next fuel handler ht finished)"

section \<open>Blocks\<close>

text \<open>
  The blocks that wait in the queue of the record \<open>p\<close> are handled, and the queue is freed;
  \<open>again\<close> is the recursive call of \<open>handle_block\<close>. The loop is there twice in the code.
\<close>

definition drain_waiting :: "(addr \<Rightarrow> (mem, unit) prog) \<Rightarrow> addr \<Rightarrow> (mem, unit) prog" where
  "drain_waiting again p =
     bnd (rd_info p) (\<lambda>i.
     whenM (bi_waiting_queue i \<noteq> NULL)
       (bnd (whileM
          (\<lambda>_. bnd (rd_info p) (\<lambda>i. bnd (is_empty (bi_waiting_queue i)) (\<lambda>e. ret (\<not> e))))
          (\<lambda>_. bnd (rd_info p) (\<lambda>i.
               bnd (dequeue (bi_waiting_queue i)) (\<lambda>(size, old_block).
               case old_block of None \<Rightarrow> halt Undefined | Some b \<Rightarrow> again b))) ()) (\<lambda>_.
        bnd (rd_info p) (\<lambda>i.
        seq (free_queue (bi_waiting_queue i))
            (wr_info p (bi_waiting_queue_update (\<lambda>_. NULL)))))))"

text \<open>The fields of an \<open>init_block\<close> go to the record, with a new byte array.\<close>

definition fill_in :: "addr \<Rightarrow> addr \<Rightarrow> (mem, unit) prog" where
  "fill_in block new_buf =
     bnd (read_word block 8) (\<lambda>buffer_size.
     bnd (malloc_bytes (unat buffer_size)) (\<lambda>buffer.
     bnd (read_word block 12) (\<lambda>tag.
     bnd (read_word block 16) (\<lambda>prev_tag.
     bnd (read_bool block 20) (\<lambda>last_block.
     wr_info new_buf (\<lambda>i. i\<lparr>bi_buffer := buffer, bi_tag := tag, bi_prev_tag := prev_tag,
       bi_last_block := last_block, bi_buffer_size := buffer_size, bi_valid := True\<rparr>))))))"

definition handle_init_block :: "nat \<Rightarrow> (addr \<Rightarrow> (mem, unit) prog) \<Rightarrow> addr \<Rightarrow> addr \<Rightarrow> (mem, unit) prog" where
  "handle_init_block fuel again ht block =
     bnd (read_word block 12) (\<lambda>tag.
     bnd (LookupHashTable ht (scast tag)) (\<lambda>(found, keyvalue).
     if found = 0 then
       bnd calloc_info (\<lambda>new_buf.
       seq (wr_info new_buf (\<lambda>i. i\<lparr>bi_mutex := False, bi_next_tag := no_tag\<rparr>))
      (seq (fill_in block new_buf)
      (bnd (rd_info new_buf) (\<lambda>i.
       bnd (InsertHashTable fuel ht \<lparr>kv_key = scast (bi_tag i), kv_value = new_buf\<rparr>) (\<lambda>(res, old).
       whenM (res = 2)
         (case old of
            None \<Rightarrow> halt Undefined
          | Some kv \<Rightarrow>
              bnd (rd_info (kv_value kv)) (\<lambda>repeat.
              seq (wr_info new_buf (bi_next_tag_update (\<lambda>_. bi_next_tag repeat)))
             (seq (drain_waiting again (kv_value kv))
                  (dealloc infos infos_update (kv_value kv))))))))))
     else
       (case keyvalue of
          None \<Rightarrow> halt Undefined
        | Some kv \<Rightarrow>
            let new_buf = kv_value kv in
            bnd (rd_info new_buf) (\<lambda>i.
            if bi_valid i then halt (Exit 1)
            else
              seq (lock_info new_buf)
             (seq (fill_in block new_buf)
             (seq (unlock_info new_buf)
                  (drain_waiting again new_buf)))))))"

text \<open>
  The part of \<open>handle_block\<close> from \<open>memcpy\<close> on; \<open>buffer_kv\<close> is \<open>None\<close> when no lookup has
  stored in it.
\<close>

definition store_data :: "nat \<Rightarrow> (addr \<Rightarrow> 32 word \<Rightarrow> (mem, unit) prog) \<Rightarrow> addr \<Rightarrow> addr \<Rightarrow> addr \<Rightarrow>
    HTKeyValue option \<Rightarrow> (mem, unit) prog" where
  "store_data fuel handler ht block buffer buffer_kv =
     bnd (read_word block 0) (\<lambda>block_size.
     bnd (read_word block 4) (\<lambda>seq_number.
     let data_size = block_size - of_nat sizeof_data_block in
     bnd (read_bytes block sizeof_data_block (unat data_size)) (\<lambda>data.
     bnd (rd_info buffer) (\<lambda>i.
     seq (write_bytes (bi_buffer i) (unat seq_number) data)
    (seq (lock_info buffer)
    (seq (wr_info buffer (bi_n_written_update (\<lambda>n. n + data_size)))
    (bnd (rd_info buffer) (\<lambda>i.
     seq (unlock_info buffer)
    (whenM (bi_n_written i = bi_buffer_size i)
       (seq (wr_info buffer (bi_completed_update (\<lambda>_. True)))
       (case buffer_kv of
          None \<Rightarrow> halt Undefined
        | Some kv \<Rightarrow> handle_finished_buffer_prev fuel handler ht (kv_value kv))))))))))))"

definition handle_data_block :: "nat \<Rightarrow> (addr \<Rightarrow> 32 word \<Rightarrow> (mem, unit) prog) \<Rightarrow> addr \<Rightarrow> addr \<Rightarrow>
    (mem, unit) prog" where
  "handle_data_block fuel handler ht block =
     bnd (read_word block 8) (\<lambda>tag.
     bnd (read_word block 0) (\<lambda>block_size.
     bnd (LookupHashTable ht (scast tag)) (\<lambda>(res, buffer_kv).
     if res \<noteq> 1 then
       bnd allocate_queue (\<lambda>waiting_queue.
       seq (enqueue waiting_queue block block_size)
      (bnd (insert_dummy_buffer fuel ht tag no_tag waiting_queue) (\<lambda>(added, buffer).
       if added then ret ()
       else
         bnd (rd_info buffer) (\<lambda>i.
         if \<not> bi_valid i then
           if bi_waiting_queue i \<noteq> NULL then
             seq (enqueue (bi_waiting_queue i) block block_size) (free_queue waiting_queue)
           else wr_info buffer (bi_waiting_queue_update (\<lambda>_. waiting_queue))
         else
           seq (free_queue waiting_queue)
               (store_data fuel handler ht block buffer None)))))
     else
       (case buffer_kv of
          None \<Rightarrow> halt Undefined
        | Some kv \<Rightarrow>
            let buffer = kv_value kv in
            bnd (rd_info buffer) (\<lambda>i.
            if \<not> bi_valid i then
              seq (whenM (bi_waiting_queue i = NULL)
                     (bnd allocate_queue (\<lambda>q. wr_info buffer (bi_waiting_queue_update (\<lambda>_. q)))))
             (bnd (rd_info buffer) (\<lambda>i. enqueue (bi_waiting_queue i) block block_size))
            else store_data fuel handler ht block buffer (Some kv))))))"

fun handle_block :: "nat \<Rightarrow> (addr \<Rightarrow> 32 word \<Rightarrow> (mem, unit) prog) \<Rightarrow> addr \<Rightarrow> addr \<Rightarrow> (mem, unit) prog" where
  "handle_block 0 handler ht block = halt StackOverflow"
| "handle_block (Suc fuel) handler ht block =
     bnd (read_word block 4) (\<lambda>head.
     if head = -1 then handle_init_block fuel (handle_block fuel handler ht) ht block
     else handle_data_block fuel handler ht block)"

section \<open>The receiving thread\<close>

text \<open>
  \<open>listen_once\<close> is the body of the loop of \<open>listen_for_block\<close>, which says whether it goes on: the
  loop ends when the connection is closed or fails. The result of \<open>malloc\<close> is not tested; storing
  through a null pointer is undefined.
\<close>

definition listen_once :: "nat \<Rightarrow> (addr \<Rightarrow> 32 word \<Rightarrow> (mem, unit) prog) \<Rightarrow> addr \<Rightarrow> int \<Rightarrow>
    (mem, bool) prog" where
  "listen_once fuel handler ht client_fd =
     (let max_size = BLOCK_SIZE + int sizeof_data_block in
     bnd (malloc_bytes (nat max_size)) (\<lambda>block.
     bnd (recieve_tcp_block block max_size client_fd) (\<lambda>r.
     if r = -1 \<or> r = 0 then ret False
     else seq (handle_block fuel handler ht block) (ret True))))"

definition listen_for_block :: "nat \<Rightarrow> (addr \<Rightarrow> 32 word \<Rightarrow> (mem, unit) prog) \<Rightarrow> addr \<Rightarrow> int \<Rightarrow>
    (mem, unit) prog" where
  "listen_for_block fuel handler ht client_fd =
     bnd (whileM ret (\<lambda>_. listen_once fuel handler ht client_fd) True) (\<lambda>_. ret ())"

end
