(* ===== verification/AbstractReader.thy ===== *)
theory AbstractReader
  imports Standards
begin

text \<open>
  What the receiving side does, without memory: a map from tags to the buffers that are being put
  together, and the list of the buffers that were handed to the handler. The functions follow
  those of multiplex_reader.c; \<open>None\<close> stands for the runs that the code does not get through
  (a duplicate tag, data outside its buffer, a block that is not framed, an exhausted stack).
\<close>

section \<open>State\<close>

text \<open>
  An entry is \<open>valid\<close> once its \<open>init_block\<close> has arrived; the blocks that came earlier are
  \<open>waiting\<close>, oldest first.
\<close>

record entry =
  en_valid :: bool
  en_data :: "8 word option list"
  en_written :: "32 word"
  en_prev :: "32 word"
  en_next :: "32 word"
  en_last :: bool
  en_done :: bool
  en_sent :: bool
  en_waiting :: "8 word option list list"

record areader =
  tab :: "32 word \<rightharpoonup> entry"
  out :: "8 word option list list"

abbreviation put_entry :: "32 word \<Rightarrow> entry \<Rightarrow> areader \<Rightarrow> areader" where
  "put_entry k e st \<equiv> st\<lparr>tab := (tab st)(k \<mapsto> e)\<rparr>"

abbreviation drop_entry :: "32 word \<Rightarrow> areader \<Rightarrow> areader" where
  "drop_entry k st \<equiv> st\<lparr>tab := (tab st)(k := None)\<rparr>"

definition dummy_entry :: "32 word \<Rightarrow> 8 word option list list \<Rightarrow> entry" where
  "dummy_entry nxt waiting =
     \<lparr>en_valid = False, en_data = [], en_written = 0, en_prev = 0, en_next = nxt, en_last = False,
      en_done = False, en_sent = False, en_waiting = waiting\<rparr>"

text \<open>
  The tags for which the table of 256 buckets that the program allocates is never resized: it has
  fewer than three entries per bucket when a new tag comes.
\<close>

definition tag_ok :: "32 word \<Rightarrow> bool" where
  "tag_ok k \<longleftrightarrow> unat k < 768"

section \<open>Steps\<close>

fun a_next :: "nat \<Rightarrow> 32 word \<Rightarrow> areader \<Rightarrow> areader option" where
  "a_next 0 k st = None"
| "a_next (Suc f) k st =
     (case tab st k of
        None \<Rightarrow> None
      | Some e \<Rightarrow>
          if \<not> en_valid e \<or> en_sent e then None
          else
            let st1 = put_entry k (e\<lparr>en_sent := True\<rparr>) (st\<lparr>out := out st @ [en_data e]\<rparr>) in
            case if en_last e then None else tab st1 (en_next e) of
              None \<Rightarrow> Some st1
            | Some n \<Rightarrow>
                if en_done n then map_option (drop_entry k) (a_next f (en_next e) st1) else Some st1)"

definition a_prev :: "nat \<Rightarrow> 32 word \<Rightarrow> areader \<Rightarrow> areader option" where
  "a_prev f k st =
     (case tab st k of
        None \<Rightarrow> None
      | Some e \<Rightarrow>
          if en_prev e = -1 then a_next f k st
          else if \<not> tag_ok (en_prev e) then None
          else
            case tab st (en_prev e) of
              None \<Rightarrow> Some (put_entry (en_prev e) (dummy_entry k []) st)
            | Some p \<Rightarrow>
                if \<not> en_sent p then Some (put_entry (en_prev e) (p\<lparr>en_next := k\<rparr>) st)
                else a_next f k (drop_entry (en_prev e) st))"

definition a_store :: "nat \<Rightarrow> 32 word \<Rightarrow> 32 word \<Rightarrow> 8 word option list \<Rightarrow> entry \<Rightarrow> areader \<Rightarrow> areader option" where
  "a_store f k off data e st =
     (if en_sent e \<or> length (en_data e) < unat off + length data then None
      else
        let e' = e\<lparr>en_data := splice (unat off) data (en_data e),
                   en_written := en_written e + of_nat (length data)\<rparr> in
        if en_written e' = of_nat (length (en_data e')) then a_prev f k (put_entry k (e'\<lparr>en_done := True\<rparr>) st)
        else Some (put_entry k e' st))"

definition a_data :: "nat \<Rightarrow> 8 word option list \<Rightarrow> areader \<Rightarrow> areader option" where
  "a_data f blk st =
     (case (word_at blk 0, word_at blk 4, word_at blk 8) of
        (Some sz, Some off, Some k) \<Rightarrow>
          if f = 0 \<or> unat sz \<noteq> length blk \<or> length blk < 12 \<or> \<not> tag_ok k \<or> off = -1 then None
          else
            (case tab st k of
               None \<Rightarrow> Some (put_entry k (dummy_entry (-1) [blk]) st)
             | Some e \<Rightarrow>
                 if \<not> en_valid e then Some (put_entry k (e\<lparr>en_waiting := en_waiting e @ [blk]\<rparr>) st)
                 else a_store f k off (drop 12 blk) e st)
      | _ \<Rightarrow> None)"

fun a_drain :: "nat \<Rightarrow> 8 word option list list \<Rightarrow> areader \<Rightarrow> areader option" where
  "a_drain f [] st = Some st"
| "a_drain f (blk # bs) st =
     (case f of
        0 \<Rightarrow> None
      | Suc g \<Rightarrow> (case a_data g blk st of None \<Rightarrow> None | Some st' \<Rightarrow> a_drain f bs st'))"

definition a_init :: "nat \<Rightarrow> 8 word option list \<Rightarrow> areader \<Rightarrow> areader option" where
  "a_init f blk st =
     (case (word_at blk 8, word_at blk 12, word_at blk 16, initialised (take 1 (drop 20 blk))) of
        (Some sz, Some k, Some prev, Some [lst]) \<Rightarrow>
          if f = 0 \<or> \<not> tag_ok k then None
          else
            (case tab st k of
               None \<Rightarrow>
                 Some (put_entry k \<lparr>en_valid = True, en_data = replicate (unat sz) None, en_written = 0,
                   en_prev = prev, en_next = -1, en_last = (lst \<noteq> 0), en_done = False, en_sent = False,
                   en_waiting = []\<rparr> st)
             | Some e \<Rightarrow>
                 if en_valid e then None
                 else a_drain f (en_waiting e) (put_entry k (e\<lparr>en_valid := True,
                   en_data := replicate (unat sz) None, en_prev := prev, en_last := (lst \<noteq> 0),
                   en_waiting := []\<rparr>) st))
      | _ \<Rightarrow> None)"

definition a_block :: "nat \<Rightarrow> 8 word option list \<Rightarrow> areader \<Rightarrow> areader option" where
  "a_block f blk st =
     (case f of
        0 \<Rightarrow> None
      | Suc g \<Rightarrow>
          (case word_at blk 4 of
             None \<Rightarrow> None
           | Some head \<Rightarrow> if head = -1 then a_init g blk st else a_data g blk st))"

fun a_blocks :: "nat \<Rightarrow> 8 word option list list \<Rightarrow> areader \<Rightarrow> areader option" where
  "a_blocks f [] st = Some st"
| "a_blocks f (blk # bs) st = (case a_block f blk st of None \<Rightarrow> None | Some st' \<Rightarrow> a_blocks f bs st')"

definition a_empty :: areader where
  "a_empty = \<lparr>tab = Map.empty, out = []\<rparr>"


text \<open>A delivered entry stays as it is while its successors are delivered.\<close>

lemma a_next_keeps: "a_next f j st = Some st' \<Longrightarrow> tab st k = Some e \<Longrightarrow> en_sent e \<Longrightarrow> tab st' k = Some e"
proof (induction f arbitrary: j st st')
  case (Suc f)
  then obtain d where d: "tab st j = Some d" "en_valid d" "\<not> en_sent d" by (auto split: option.splits if_splits)
  with Suc.prems(2,3) have ne: "k \<noteq> j" by auto
  let ?st = "put_entry j (d\<lparr>en_sent := True\<rparr>) (st\<lparr>out := out st @ [en_data d]\<rparr>)"
  have k: "tab ?st k = Some e" using ne Suc.prems(2) by simp
  have "st' = ?st \<or> (\<exists>st2. a_next f (en_next d) ?st = Some st2 \<and> st' = drop_entry j st2)"
    using Suc.prems(1) d by (auto simp: Let_def split: option.splits if_splits)
  then show ?case using k ne Suc.IH [OF _ k Suc.prems(3)] by auto
qed simp

lemma a_next_out: "a_next f j st = Some st' \<Longrightarrow> set (out st) \<subseteq> set (out st')"
proof (induction f arbitrary: j st st')
  case (Suc f)
  then obtain d where d: "tab st j = Some d" "en_valid d" "\<not> en_sent d" by (auto split: option.splits if_splits)
  let ?st = "put_entry j (d\<lparr>en_sent := True\<rparr>) (st\<lparr>out := out st @ [en_data d]\<rparr>)"
  have "st' = ?st \<or> (\<exists>st2. a_next f (en_next d) ?st = Some st2 \<and> st' = drop_entry j st2)"
    using Suc.prems(1) d by (auto simp: Let_def split: option.splits if_splits)
  then show ?case using Suc.IH [of "en_next d" ?st] by auto
qed simp

lemma a_prev_out: "a_prev f k st = Some st' \<Longrightarrow> set (out st) \<subseteq> set (out st')"
  by (auto simp: a_prev_def split: option.splits if_splits dest!: a_next_out)

lemma a_data_out: "a_data f blk st = Some st' \<Longrightarrow> set (out st) \<subseteq> set (out st')"
  by (auto simp: a_data_def a_store_def Let_def split: option.splits if_splits dest!: a_prev_out)

lemma a_drain_out: "a_drain f bs st = Some st' \<Longrightarrow> set (out st) \<subseteq> set (out st')"
proof (induction bs arbitrary: st)
  case (Cons blk bs)
  then obtain g st1 where "a_data g blk st = Some st1" "a_drain f bs st1 = Some st'"
    by (auto split: nat.splits option.splits)
  then show ?case using Cons.IH a_data_out by blast
qed simp

lemma a_block_out: "a_block f blk st = Some st' \<Longrightarrow> set (out st) \<subseteq> set (out st')"
  by (auto simp: a_block_def a_init_def split: option.splits nat.splits list.splits if_splits
      dest!: a_data_out a_drain_out)
end
