(* ===== verification/Chunks.thy ===== *)
theory Chunks
  imports Bytes
begin

text \<open>
  The pieces of a buffer: \<open>chunks u off bs\<close> cuts \<open>bs\<close> into pieces of \<open>u\<close> bytes, each with its
  offset, and pieces spliced into a buffer in any order put \<open>bs\<close> together again.
\<close>

section \<open>Cutting\<close>

function chunks :: "nat \<Rightarrow> nat \<Rightarrow> 'a list \<Rightarrow> (nat \<times> 'a list) list" where
  "chunks u off bs =
     (if bs = [] \<or> u = 0 then [] else (off, take u bs) # chunks u (off + u) (drop u bs))"
  by auto
termination
  by (relation "measure (\<lambda>(u, off, bs). length bs)") auto

declare chunks.simps [simp del]

lemma chunks_Nil [simp]: "chunks u off [] = []"
  by (simp add: chunks.simps)

lemma chunks_step: "bs \<noteq> [] \<Longrightarrow> 0 < u \<Longrightarrow>
    chunks u off bs = (off, take u bs) # chunks u (off + u) (drop u bs)"
  by (subst chunks.simps) simp

lemma concat_chunks: "0 < u \<Longrightarrow> concat (map snd (chunks u off bs)) = bs"
  by (induction u off bs rule: chunks.induct) (subst chunks.simps, simp)

lemma chunks_total: "0 < u \<Longrightarrow> sum_list (map (\<lambda>p. length (snd p)) (chunks u off bs)) = length bs"
  using concat_chunks [of u off bs]
  by (metis (no_types, lifting) length_concat map_map comp_apply map_eq_conv)

text \<open>\<open>piece bs p\<close>: the pair \<open>p\<close> is a nonempty part of \<open>bs\<close> with its offset.\<close>

definition piece :: "'a list \<Rightarrow> nat \<times> 'a list \<Rightarrow> bool" where
  "piece bs p \<longleftrightarrow> snd p \<noteq> [] \<and> fst p + length (snd p) \<le> length bs \<and>
     (\<forall>i < length (snd p). snd p ! i = bs ! (fst p + i))"

lemma chunks_pieces:
  "p \<in> set (chunks u off (drop off bs)) \<Longrightarrow> piece bs p \<and> length (snd p) \<le> u \<and> off \<le> fst p"
proof (induction u off "drop off bs" arbitrary: off rule: chunks.induct)
  case (1 u off)
  show ?case
  proof (cases "drop off bs = [] \<or> u = 0")
    case True
    with "1.prems" show ?thesis by (auto simp: chunks.simps)
  next
    case False
    with "1.prems" have "p = (off, take u (drop off bs)) \<or> p \<in> set (chunks u (off + u) (drop (off + u) bs))"
      by (subst (asm) chunks.simps) (auto simp: add.commute)
    with "1.hyps" [of "off + u"] False show ?thesis
      by (auto simp: piece_def add.commute)
  qed
qed

lemma chunks_cover:
  "0 < u \<Longrightarrow> off \<le> i \<Longrightarrow> i < length bs \<Longrightarrow>
    \<exists>p \<in> set (chunks u off (drop off bs)). fst p \<le> i \<and> i < fst p + length (snd p)"
proof (induction "length bs - off" arbitrary: off rule: less_induct)
  case less
  then have "drop off bs \<noteq> []" by simp
  then have c: "chunks u off (drop off bs) =
      (off, take u (drop off bs)) # chunks u (off + u) (drop (off + u) bs)"
    using chunks_step [of "drop off bs" u off] less.prems(1) by (simp add: add.commute)
  show ?case
  proof (cases "i < off + u")
    case True
    with less.prems show ?thesis by (intro bexI [of _ "(off, take u (drop off bs))"]) (auto simp: c)
  next
    case False
    with less.prems less.hyps [of "off + u"] show ?thesis by (auto simp: c)
  qed
qed

section \<open>Putting together\<close>

text \<open>\<open>assemble ps b\<close> splices the pieces \<open>ps\<close> into the buffer \<open>b\<close>, the first one first.\<close>

definition assemble :: "(nat \<times> 'a list) list \<Rightarrow> 'a list \<Rightarrow> 'a list" where
  "assemble ps b = fold (\<lambda>p. splice (fst p) (snd p)) ps b"

lemma assemble_simps [simp]:
  "assemble [] b = b"
  "assemble (p # ps) b = assemble ps (splice (fst p) (snd p) b)"
  "assemble (ps @ qs) b = assemble qs (assemble ps b)"
  by (simp_all add: assemble_def)

text \<open>Where pieces of \<open>bs\<close> have been spliced in, the buffer agrees with \<open>bs\<close>.\<close>

lemma assemble_nth:
  assumes "\<forall>p \<in> set ps. piece bs p" and "length b = length bs"
  shows "length (assemble ps b) = length bs \<and> (\<forall>i < length bs. assemble ps b ! i =
    (if \<exists>p \<in> set ps. fst p \<le> i \<and> i < fst p + length (snd p) then bs ! i else b ! i))"
  using assms
proof (induction ps arbitrary: b)
  case (Cons p ps)
  let ?b = "splice (fst p) (snd p) b"
  have p: "fst p + length (snd p) \<le> length b" "length ?b = length bs"
    using Cons.prems by (auto simp: piece_def)
  have IH: "length (assemble ps ?b) = length bs \<and> (\<forall>i < length bs. assemble ps ?b ! i =
    (if \<exists>p \<in> set ps. fst p \<le> i \<and> i < fst p + length (snd p) then bs ! i else ?b ! i))"
    using Cons.prems p by (intro Cons.IH) auto
  have "?b ! i = bs ! i" if "fst p \<le> i" "i < fst p + length (snd p)" for i
    using that p Cons.prems by (auto simp: splice_nth piece_def)
  moreover have "?b ! i = b ! i" if "\<not> (fst p \<le> i \<and> i < fst p + length (snd p))" "i < length bs" for i
    using that p Cons.prems by (auto simp: splice_nth)
  ultimately show ?case using IH by auto
qed simp

lemma assemble_chunks:
  assumes "0 < u" and "set ps = set (chunks u 0 bs)" and "length b = length bs"
  shows "assemble ps b = bs"
proof -
  have "\<forall>p \<in> set ps. piece bs p" using chunks_pieces [of _ u 0 bs] assms(2) by auto
  from assemble_nth [OF this assms(3)] chunks_cover [OF assms(1), of 0 _ bs] assms(2)
  show ?thesis by (intro nth_equalityI) auto
qed

end
