(* ===== verification/Writer.thy ===== *)
theory Writer
  imports Queue Standards Float32 Chunks
begin

text \<open>
  multiplex_writer.c: the splitting of a buffer into an \<open>init_block\<close> and data blocks, which it
  hands to the queues of the connections, and the thread that sends the blocks of a queue. First
  the operations, one definition per C function; then the choice of the block size, and what the
  queues hold afterwards.
\<close>

section \<open>Operations\<close>

text \<open>
  \<open>pthread_mutex_lock\<close> and \<open>pthread_mutex_unlock\<close> on the mutex of a queue. In the
  sequential model no other thread can release a held mutex, and \<open>pthread_cond_signal\<close> has
  no effect.
\<close>

definition lock_queue :: "addr \<Rightarrow> (mem, unit) prog" where
  "lock_queue q = bnd (rd_q q) (\<lambda>r. if q_mutex r then halt Blocked else wr_q q (q_mutex_update (\<lambda>_. True)))"

definition unlock_queue :: "addr \<Rightarrow> (mem, unit) prog" where
  "unlock_queue q = wr_q q (q_mutex_update (\<lambda>_. False))"

definition write_block_to_queue :: "addr \<Rightarrow> addr \<Rightarrow> 32 word \<Rightarrow> (mem, unit) prog" where
  "write_block_to_queue queue block block_size =
     seq (lock_queue queue) (seq (enqueue queue block block_size) (unlock_queue queue))"

definition min_int :: "int \<Rightarrow> int \<Rightarrow> int" where
  "min_int n m = (if n > m then m else n)"

text \<open>\<open>queues[i]\<close>, for an array of pointers.\<close>

definition array_get :: "addr \<Rightarrow> int \<Rightarrow> (mem, addr) prog" where
  "array_get arr i =
     bnd (load ptr_arrays arr) (\<lambda>xs.
     if 0 \<le> i \<and> nat i < length xs then ret (xs ! nat i) else halt Undefined)"

text \<open>
  The size of the blocks: the buffer is divided by the least \<open>float\<close> \<open>divisor\<close> that makes a
  block small enough. Each operation rounds (\<open>fl\<close>); the conversion to \<open>int\<close> truncates.
  \<open>choose_unif_size\<close> is \<open>None\<close> when the loop does not end.
\<close>

definition block_quotient :: "int \<Rightarrow> int \<Rightarrow> rat \<Rightarrow> rat" where
  "block_quotient buf_len num_queues divisor =
     fl (fl (of_int buf_len) / fl (divisor * fl (of_int num_queues)))"

definition truncate_int :: "rat \<Rightarrow> int" where
  "truncate_int x = (if x \<ge> 0 then \<lfloor>x\<rfloor> else \<lceil>x\<rceil>)"

definition choose_unif_size :: "int \<Rightarrow> int \<Rightarrow> int option" where
  "choose_unif_size buf_len num_queues =
     map_option (\<lambda>divisor. truncate_int (block_quotient buf_len num_queues divisor))
       (while_option (\<lambda>divisor. block_quotient buf_len num_queues divisor > of_int BLOCK_SIZE)
          (\<lambda>divisor. fl (divisor + 1)) 1)"

text \<open>
  The body of the loop that makes the data blocks, the increment included; its locals are the
  parameters of \<open>multiplex_write_queues\<close> and \<open>i\<close>.
\<close>

definition write_block :: "addr \<Rightarrow> int \<Rightarrow> addr \<Rightarrow> int \<Rightarrow> int \<Rightarrow> int \<Rightarrow> int \<Rightarrow> (mem, int) prog" where
  "write_block qarr num_queues buffer buf_len tag unif_size i =
     (let actual_size = word_of_int (min_int unif_size (buf_len - i)) :: 32 word in
     bnd (malloc_bytes (sizeof_data_block + unat actual_size)) (\<lambda>headered_block.
     if headered_block = NULL then halt (Exit 1)
     else
       seq (write_bytes headered_block 0 (data_block_bytes
              \<lparr>db_block_size = actual_size + of_nat sizeof_data_block,
               db_seq_number = word_of_int i, db_tag = word_of_int tag\<rparr>))
      (bnd (read_bytes buffer (nat i) (unat actual_size)) (\<lambda>bs.
       seq (write_bytes headered_block sizeof_data_block bs)
      (bnd (array_get qarr (i mod num_queues)) (\<lambda>q.
       seq (write_block_to_queue q headered_block (of_nat sizeof_data_block + actual_size))
           (add_int i unif_size)))))))"

text \<open>
  \<open>write_init_block\<close> is the part that queues the \<open>init_block\<close>. A failed \<open>malloc\<close> is not tested
  there: the stores through the null pointer are undefined.
\<close>

definition write_init_block :: "addr \<Rightarrow> int \<Rightarrow> int \<Rightarrow> int \<Rightarrow> int \<Rightarrow> (mem, unit) prog" where
  "write_init_block qarr num_queues buf_len tag prev_tag =
     bnd (malloc_bytes sizeof_init_block) (\<lambda>init.
     if init = NULL then halt Undefined
     else
       seq (write_bytes init 0 (init_block_bytes
              \<lparr>ib_block_size = of_nat sizeof_init_block, ib_flag = -1,
               ib_buffer_size = word_of_int buf_len, ib_tag = word_of_int tag,
               ib_prev_tag = word_of_int prev_tag, ib_last_block = False\<rparr>))
      (bnd (array_get qarr (num_queues - 1)) (\<lambda>q.
       write_block_to_queue q init (of_nat sizeof_init_block))))"

text \<open>\<open>*next_tag\<close> is a parameter and, after the call, the returned value.\<close>

definition multiplex_write_queues :: "addr \<Rightarrow> int \<Rightarrow> addr \<Rightarrow> int \<Rightarrow> int \<Rightarrow> (mem, int) prog" where
  "multiplex_write_queues qarr num_queues buffer buf_len next_tag =
     bnd (add_int next_tag 1) (\<lambda>tag.
     seq (write_init_block qarr num_queues buf_len tag next_tag)
    (case choose_unif_size buf_len num_queues of
       None \<Rightarrow> halt Diverges
     | Some unif_size \<Rightarrow>
         bnd (whileM (\<lambda>i. ret (i < buf_len))
                (write_block qarr num_queues buffer buf_len tag unif_size) 0) (\<lambda>_.
         ret tag)))"

section \<open>The size of the blocks\<close>

lemma block_quotient_at_limit:
  assumes "0 < n" and "0 < l" and "l < 2 ^ 31" and "n < 2 ^ 24"
  shows "block_quotient l n (of_int (2 ^ 17)) \<le> 2 ^ 14"
proof -
  have l: "fl (of_int l) \<le> 2 powi 31" "(2 :: rat) powi 0 \<le> fl (of_int l)"
    using assms by (intro fl_le fl_ge; simp)+
  have "(2 :: rat) powi 17 \<le> fl (of_int (2 ^ 17) * fl (of_int n))"
    using assms by (intro fl_ge) (simp add: fl_int)
  with l have "0 < fl (of_int l) / fl (of_int (2 ^ 17) * fl (of_int n))"
    and "fl (of_int l) / fl (of_int (2 ^ 17) * fl (of_int n)) \<le> 2 powi 14"
    by (simp_all add: divide_le_eq)
  then have "fl (fl (of_int l) / fl (of_int (2 ^ 17) * fl (of_int n))) \<le> 2 powi 14" by (rule fl_le)
  then show ?thesis by (simp add: block_quotient_def)
qed

lemma block_quotient_first:
  assumes "0 < n" and "n \<le> l" and "n < 2 ^ 24"
  shows "1 \<le> block_quotient l n 1"
proof -
  have "of_int n \<le> fl (of_int l)"
  proof (cases "l < 2 ^ 24")
    case False
    then have "2 powi 24 \<le> fl (of_int l)" by (intro fl_ge) simp
    moreover have "(of_int n :: rat) < of_int (2 ^ 24)" using assms(3) by (simp only: of_int_less_iff)
    ultimately show ?thesis by simp
  qed (use assms in \<open>simp add: fl_int\<close>)
  then have "2 powi 0 \<le> fl (of_int l) / of_int n" using assms(1) by simp
  from fl_ge [OF this] show ?thesis
    using assms by (simp add: block_quotient_def fl_int)
qed

lemma block_quotient_next:
  assumes "0 < n" and "n < 2 ^ 24" and "2 \<le> k" and "0 < l"
    and "2 ^ 14 < block_quotient l n (of_int (k - 1))"
  shows "1 \<le> block_quotient l n (of_int k)"
proof -
  let ?l = "fl (of_int l)" and ?n = "of_int n :: rat" and ?k = "of_int k :: rat"
  have n: "0 < ?n" and k: "2 \<le> ?k" using assms by simp_all
  have fn: "fl ?n = ?n" using assms by (simp add: fl_int)
  have l: "0 < ?l" using fl_half_double(1) [of "of_int l"] assms(4) by simp
  let ?a = "fl ((?k - 1) * ?n)" and ?b = "fl (?k * ?n)"
  have a: "(?k - 1) * ?n / 2 \<le> ?a" and b: "?b \<le> 2 * (?k * ?n)" "?k * ?n / 2 \<le> ?b"
    using fl_half_double [of "(?k - 1) * ?n"] fl_half_double [of "?k * ?n"] n k by simp_all
  have "?k * ?n \<le> 2 * (?k - 1) * ?n" using k n by (intro mult_right_mono) auto
  with a b have ab: "?b \<le> 8 * ?a" by (simp add: algebra_simps)
  have b0: "0 < ?b" using b(2) n k by (intro less_le_trans [OF _ b(2)]) auto
  with ab have a0: "0 < ?a" by simp
  have "\<not> ?l / ?a \<le> 2 powi 14"
  proof
    assume "?l / ?a \<le> 2 powi 14"
    with l a0 have "fl (?l / ?a) \<le> 2 powi 14" by (intro fl_le) simp_all
    with assms(5) show False by (simp add: block_quotient_def fn)
  qed
  with a0 have "16384 * ?a < ?l" by (simp add: not_le less_divide_eq)
  with ab a0 have "?b \<le> ?l" by linarith
  with b0 have "2 powi 0 \<le> ?l / ?b" by simp
  from fl_ge [OF this] show ?thesis by (simp add: block_quotient_def fn)
qed

text \<open>
  With at least as many bytes as queues the loop ends, after less than \<open>2\<^sup>1\<^sup>7\<close> rounds, and
  the size fits a block and is not zero.
\<close>

lemma choose_unif_size_law:
  assumes "0 < n" and "n < 2 ^ 24" and "n \<le> l" and "l < 2 ^ 31"
  shows "\<exists>u. choose_unif_size l n = Some u \<and> 0 < u \<and> u \<le> BLOCK_SIZE"
proof -
  let ?Q = "block_quotient l n" let ?big = "\<lambda>d. of_int BLOCK_SIZE < ?Q d"
  let ?I = "\<lambda>d. \<exists>k. d = of_int k \<and> 1 \<le> k \<and> k \<le> 2 ^ 17 \<and> (k = 1 \<or> 2 ^ 14 < ?Q (of_int (k - 1)))"
  have l: "0 < l" using assms by simp
  have step: "?I (fl (d + 1)) \<and> nat (2 ^ 17 - \<lfloor>fl (d + 1)\<rfloor>) < nat (2 ^ 17 - \<lfloor>d\<rfloor>)"
    if "?I d" and big: "?big d" for d
  proof -
    from that obtain k where k: "d = of_int k" "1 \<le> k" "k \<le> 2 ^ 17" by blast
    with block_quotient_at_limit [OF assms(1) l assms(4,2)] big have "k \<noteq> 2 ^ 17"
      by (auto simp: BLOCK_SIZE_def)
    with k have k': "k < 2 ^ 17" by simp
    then have "fl (of_int (k + 1)) = of_int (k + 1)" using k by (intro fl_int) simp_all
    then have d': "fl (d + 1) = of_int (k + 1)" using k(1) by simp
    have "?I (of_int (k + 1))"
      using big k k' by (intro exI [of _ "k + 1"]) (simp_all add: BLOCK_SIZE_def)
    with k k' show ?thesis unfolding d' by simp
  qed
  have I1: "?I 1" by (intro exI [of _ 1]) simp
  obtain d where d: "while_option ?big (\<lambda>d. fl (d + 1)) 1 = Some d"
    using measure_while_option_Some [of ?I ?big "\<lambda>d. fl (d + 1)" "\<lambda>d. nat (2 ^ 17 - \<lfloor>d\<rfloor>)"] step I1
    by blast
  have "?I d" using while_option_rule [of ?I, OF _ d I1] step by blast
  then obtain k where k: "d = of_int k" "1 \<le> k" "k = 1 \<or> 2 ^ 14 < ?Q (of_int (k - 1))" by blast
  have "1 \<le> ?Q d"
    using block_quotient_first [OF assms(1,3,2)] block_quotient_next [OF assms(1,2) _ l, of k] k
    by (cases "k = 1") simp_all
  moreover have "\<not> ?big d" using while_option_stop [OF d] .
  ultimately show ?thesis
    using d by (simp add: choose_unif_size_def truncate_int_def BLOCK_SIZE_def le_floor_iff floor_le_iff)
qed

section \<open>What the queues hold\<close>

lemma q_inv_mutex:
  assumes inv: "q_inv s S" and q: "S q = Some ns" and m: "queues s q = Some r"
  shows "q_inv (s\<lparr>queues := (queues s)(q \<mapsto> r\<lparr>q_mutex := b\<rparr>)\<rparr>) S"
proof -
  have "q_inv (s\<lparr>queues := (queues s)(q \<mapsto> r\<lparr>q_mutex := b\<rparr>)\<rparr>) (S(q \<mapsto> ns))"
    by (rule q_inv_update [OF inv q])
      (use structs_at [OF q_inv_structs [OF inv] q] m in
        \<open>auto simp: struct_at_def queue_rec_def q_invD [OF inv]\<close>)
  with q show ?thesis by (simp add: fun_upd_idem)
qed

lemma q_frame_queues:
  "q_frame s s' \<Longrightarrow> q_frame s (s'\<lparr>queues := N\<rparr>)"
  "q_frame (s\<lparr>queues := N\<rparr>) s' \<Longrightarrow> q_frame s s'"
  by (cases s; cases s'; simp add: q_frame_def)+

lemma write_block_to_queue_law:
  assumes inv: "q_inv s S" and q: "S q = Some ns" and l: "locked s q = Some False"
    and "\<not> oom s (Suc (next_addr s))"
  shows "runs_to (write_block_to_queue q buf n) s (\<lambda>_ s'.
    q_inv s' (S(q \<mapsto> (Suc (next_addr s), buf, n) # ns)) \<and> q_frame s s' \<and> locked s' = locked s)"
proof -
  obtain r where r: "queues s q = Some r" "\<not> q_mutex r" using l by (auto simp: locked_def)
  let ?s = "s\<lparr>queues := (queues s)(q \<mapsto> r\<lparr>q_mutex := True\<rparr>)\<rparr>"
  have e: "runs_to (enqueue q buf n) ?s (\<lambda>_ s'. q_inv s' (S(q \<mapsto> (Suc (next_addr s), buf, n) # ns)) \<and>
      q_frame ?s s' \<and> locked s' = locked ?s)"
    using enqueue_law [OF q_inv_mutex [OF inv q r(1)] q] assms(4) by simp
  show ?thesis
    unfolding write_block_to_queue_def lock_queue_def unlock_queue_def
    by ((use r in \<open>simp add: wp\<close>), rule runs_to_mono [OF e])
      (use q_inv_mutex [of _ "S(q \<mapsto> (Suc (next_addr s), buf, n) # ns)" q] in
        \<open>auto simp: locked_def fun_eq_iff intro: q_frame_queues dest: q_frame_queues(2)
          split: option.splits if_splits\<close>)
qed

text \<open>
  \<open>separate F\<close>: no byte array is queued twice; \<open>wire s F\<close>: the blocks that the queues \<open>F\<close>
  point to, as bytes; \<open>holding s W\<close>: no queue is locked, \<open>malloc\<close> does not fail, and the queues
  hold the blocks \<open>W\<close>, oldest first. \<open>holding_with K s W\<close> says \<open>K\<close> of the queues in
  addition, for a \<open>K\<close> that \<open>keeps\<close> when a byte array made after the first \<open>n\<close> allocations is
  put on a queue of \<open>Q\<close>.
\<close>

definition separate :: "(addr \<rightharpoonup> qitem list) \<Rightarrow> bool" where
  "separate F \<longleftrightarrow> (\<forall>q xs. F q = Some xs \<longrightarrow> distinct (map fst xs)) \<and>
     (\<forall>q q' xs ys. F q = Some xs \<longrightarrow> F q' = Some ys \<longrightarrow> q \<noteq> q' \<longrightarrow> fst ` set xs \<inter> fst ` set ys = {})"

definition sendable :: "mem \<Rightarrow> (addr \<rightharpoonup> qitem list) \<Rightarrow> bool" where
  "sendable s F \<longleftrightarrow> q_fifo s F \<and> below (chars s) (next_addr s) \<and> separate F \<and>
     (\<forall>q xs. F q = Some xs \<longrightarrow> locked s q = Some False \<and>
        (\<forall>x \<in> set xs. \<exists>bs. chars s (fst x) = Some bs \<and> unat (snd x) \<le> length bs))"

definition wire :: "mem \<Rightarrow> (addr \<rightharpoonup> qitem list) \<Rightarrow> (addr \<rightharpoonup> 8 word option list list)" where
  "wire s F = (\<lambda>q. map_option (map (\<lambda>x. take (unat (snd x)) (the (chars s (fst x))))) (F q))"

definition holding_with :: "((addr \<rightharpoonup> qitem list) \<Rightarrow> bool) \<Rightarrow> mem \<Rightarrow>
    (addr \<rightharpoonup> 8 word option list list) \<Rightarrow> bool" where
  "holding_with K s W \<longleftrightarrow> (\<exists>F. sendable s F \<and> W = wire s F \<and> K F)"

abbreviation holding :: "mem \<Rightarrow> (addr \<rightharpoonup> 8 word option list list) \<Rightarrow> bool" where
  "holding \<equiv> holding_with (\<lambda>_. True)"

lemmas holding_def = holding_with_def

definition keeps :: "((addr \<rightharpoonup> qitem list) \<Rightarrow> bool) \<Rightarrow> nat \<Rightarrow> addr set \<Rightarrow> bool" where
  "keeps K n Q \<longleftrightarrow> (\<forall>F q xs b m. K F \<longrightarrow> q \<in> Q \<longrightarrow> F q = Some xs \<longrightarrow> n < b \<longrightarrow> K (F(q \<mapsto> xs @ [(b, m)])))"

lemma keeps_True [simp]: "keeps (\<lambda>_. True) n Q"
  by (simp add: keeps_def)

text \<open>The writer allocates, fills new byte arrays and changes queues; nothing else.\<close>

definition wr_frame :: "mem \<Rightarrow> mem \<Rightarrow> bool" where
  "wr_frame s s' \<longleftrightarrow>
     s' = s\<lparr>next_addr := next_addr s', queues := queues s', q_nodes := q_nodes s', chars := chars s'\<rparr> \<and>
     next_addr s \<le> next_addr s' \<and> chars s \<subseteq>\<^sub>m chars s'"

lemma wr_frame_refl [simp]: "wr_frame s s"
  by (simp add: wr_frame_def)

lemma wr_frame_trans: "wr_frame s s' \<Longrightarrow> wr_frame s' s'' \<Longrightarrow> wr_frame s s''"
  unfolding wr_frame_def by (cases s; cases s'; cases s'') (auto elim: map_le_trans)

lemma wr_frameD:
  assumes "wr_frame s s'"
  shows "ptr_arrays s' = ptr_arrays s" "oom s' = oom s" "infos s' = infos s"
    "chars s a = Some bs \<Longrightarrow> chars s' a = Some bs"
  using assms unfolding wr_frame_def
  by (cases s; cases s'; simp add: map_le_def; force)+

lemma q_frame_wr: "q_frame s s' \<Longrightarrow> wr_frame s s'"
  unfolding wr_frame_def q_frame_def by (cases s; cases s') auto

text \<open>A new byte array.\<close>

abbreviation with_bytes :: "8 word option list \<Rightarrow> mem \<Rightarrow> mem" where
  "with_bytes bs s \<equiv> s\<lparr>next_addr := Suc (next_addr s), chars := (chars s)(Suc (next_addr s) \<mapsto> bs)\<rparr>"

lemma with_bytes_new:
  assumes "sendable s F"
  shows "sendable (with_bytes bs s) F" and "wire (with_bytes bs s) F = wire s F"
    and "wr_frame s (with_bytes bs s)" and "F q = Some xs \<Longrightarrow> Suc (next_addr s) \<notin> fst ` set xs"
proof -
  have b: "below (chars s) (next_addr s)" using assms by (simp add: sendable_def)
  then have fresh: "chars s (Suc (next_addr s)) = None" by (rule below_fresh) simp
  have new: "fst x \<noteq> Suc (next_addr s)" if "F q = Some xs" "x \<in> set xs" for x q xs
    using assms that fresh unfolding sendable_def by (metis option.distinct(1))
  then show "F q = Some xs \<Longrightarrow> Suc (next_addr s) \<notin> fst ` set xs" by force
  from assms have "q_fifo (with_bytes bs s) F"
    by (simp add: sendable_def q_fifo_def q_inv_def)
      (blast intro: structs_mono [OF _ le_SucI [OF order_refl]])
  with assms b new show "sendable (with_bytes bs s) F"
    by (simp add: sendable_def locked_def)
  show "wire (with_bytes bs s) F = wire s F"
    unfolding wire_def using new
    by (intro ext map_option_cong refl map_cong) (auto simp: option.set_sel)
  show "wr_frame s (with_bytes bs s)"
    using fresh by (auto simp: wr_frame_def map_le_def)
qed

lemma sendable_put:
  assumes F: "sendable s F" and xs: "F q = Some xs"
    and b: "chars s b = Some bs" "unat n = length bs"
    and new: "\<And>q xs. F q = Some xs \<Longrightarrow> b \<notin> fst ` set xs"
  shows "runs_to (write_block_to_queue q b n) s (\<lambda>_ s'. wr_frame s s' \<and>
    sendable s' (F(q \<mapsto> xs @ [(b, n)])) \<and> wire s' (F(q \<mapsto> xs @ [(b, n)])) =
      (wire s F)(q \<mapsto> the (wire s F q) @ [bs]))"
proof -
  have l: "locked s q = Some False" using F xs by (simp add: sendable_def)
  obtain S ns where S: "q_inv s S" "S q = Some ns" "xs = rev (map snd ns)" "\<forall>n. \<not> oom s n"
      "F = (\<lambda>q. map_option (\<lambda>ns. rev (map snd ns)) (S q))"
    using q_fifoE [of s F q xs] F xs by (auto simp: sendable_def)
  have sep: "separate (F(q \<mapsto> xs @ [(b, n)]))"
    using F xs new by (auto simp: sendable_def separate_def)
  show ?thesis
  proof (rule runs_to_mono [OF write_block_to_queue_law [OF S(1,2) l]])
    fix x s'
    assume s': "q_inv s' (S(q \<mapsto> (Suc (next_addr s), b, n) # ns)) \<and> q_frame s s' \<and> locked s' = locked s"
    then have "q_fifo s' (F(q \<mapsto> xs @ [(b, n)]))" using S by (auto elim: q_fifo_upd)
    moreover have c: "chars s' = chars s" "next_addr s \<le> next_addr s'"
      using s' unfolding q_frame_def by (cases s; cases s'; simp)+
    ultimately have "sendable s' (F(q \<mapsto> xs @ [(b, n)]))"
      using F s' b xs l sep by (auto simp: sendable_def intro: below_mono)
    moreover have "wire s' (F(q \<mapsto> xs @ [(b, n)])) = (wire s F)(q \<mapsto> the (wire s F q) @ [bs])"
      using xs b c by (auto simp: wire_def fun_eq_iff)
    ultimately show "wr_frame s s' \<and> sendable s' (F(q \<mapsto> xs @ [(b, n)])) \<and>
        wire s' (F(q \<mapsto> xs @ [(b, n)])) = (wire s F)(q \<mapsto> the (wire s F q) @ [bs])"
      using s' by (auto intro: q_frame_wr)
  qed (use S(4) in simp)
qed

text \<open>A block in a new byte array goes to a queue.\<close>

lemma holding_send:
  assumes "holding_with K s W" and "W q = Some bss" and "unat n = length bs"
    and K: "keeps K m Q" "q \<in> Q" "m \<le> next_addr s"
  shows "runs_to (write_block_to_queue q (Suc (next_addr s)) n) (with_bytes bs s)
    (\<lambda>_ s'. holding_with K s' (W(q \<mapsto> bss @ [bs])) \<and> wr_frame s s')"
proof -
  obtain F where F: "sendable s F" "W = wire s F" "K F" using assms(1) by (auto simp: holding_def)
  then obtain xs where xs: "F q = Some xs" using assms(2) by (auto simp: wire_def)
  note new = with_bytes_new(1-3) [OF F(1), where bs = bs] and fresh = with_bytes_new(4) [OF F(1)]
  have "K (F(q \<mapsto> xs @ [(Suc (next_addr s), n)]))"
    using K F(3) xs unfolding keeps_def by (meson le_imp_less_Suc)
  then show ?thesis
    by (intro runs_to_mono [OF sendable_put [OF new(1) xs _ assms(3) fresh]])
      (use F assms(2) new(2,3) in \<open>auto simp: holding_def elim: wr_frame_trans\<close>)
qed

text \<open>
  The blocks that a buffer becomes: an \<open>init_block\<close> on the last queue, and one data block for
  each piece of \<open>u\<close> bytes, on the queue that its offset selects.
\<close>

definition init_bytes :: "int \<Rightarrow> int \<Rightarrow> nat \<Rightarrow> 8 word option list" where
  "init_bytes tag prev_tag len =
     init_block_bytes \<lparr>ib_block_size = 24, ib_flag = -1, ib_buffer_size = of_nat len,
       ib_tag = word_of_int tag, ib_prev_tag = word_of_int prev_tag, ib_last_block = False\<rparr> @
     replicate 3 None"

definition data_bytes :: "int \<Rightarrow> nat \<times> 8 word option list \<Rightarrow> 8 word option list" where
  "data_bytes tag p =
     data_block_bytes \<lparr>db_block_size = of_nat (12 + length (snd p)), db_seq_number = of_nat (fst p),
       db_tag = word_of_int tag\<rparr> @ snd p"

definition data_plan :: "addr list \<Rightarrow> int \<Rightarrow> (nat \<times> 8 word option list) list \<Rightarrow>
    (addr \<times> 8 word option list) list" where
  "data_plan qs tag ps = map (\<lambda>p. (qs ! (fst p mod length qs), data_bytes tag p)) ps"

definition deliver :: "(addr \<times> 'b) list \<Rightarrow> (addr \<rightharpoonup> 'b list) \<Rightarrow> (addr \<rightharpoonup> 'b list)" where
  "deliver ps W = fold (\<lambda>p W. W(fst p \<mapsto> the (W (fst p)) @ [snd p])) ps W"

lemma deliver_simps [simp]:
  "deliver [] W = W"
  "deliver (p # ps) W = deliver ps (W(fst p \<mapsto> the (W (fst p)) @ [snd p]))"
  by (simp_all add: deliver_def)

lemma deliver_dom: "q \<in> dom W \<Longrightarrow> q \<in> dom (deliver ps W)"
  by (induction ps arbitrary: W) auto

section \<open>Laws\<close>

text \<open>
  The array at \<open>qarr\<close> starts with pointers to the queues \<open>qs\<close>, and the bytes \<open>bs\<close> start at \<open>buffer\<close>.
\<close>

definition writer_ready :: "mem \<Rightarrow> addr \<Rightarrow> addr list \<Rightarrow> addr \<Rightarrow> 8 word option list \<Rightarrow> bool" where
  "writer_ready s qarr qs buffer bs \<longleftrightarrow>
     (\<exists>more. ptr_arrays s qarr = Some (qs @ more)) \<and> qs \<noteq> [] \<and> (\<exists>rest. chars s buffer = Some (bs @ rest))"

lemma writer_ready_frame: "writer_ready s qarr qs buffer bs \<Longrightarrow> wr_frame s s' \<Longrightarrow>
    writer_ready s' qarr qs buffer bs"
  by (auto simp: writer_ready_def wr_frameD)

lemma runs_to_array_get [wp]:
  "runs_to (array_get arr i) s Q =
     (case ptr_arrays s arr of None \<Rightarrow> False
      | Some xs \<Rightarrow> 0 \<le> i \<and> nat i < length xs \<and> Q (xs ! nat i) s)"
  by (auto simp: array_get_def wp split: option.splits)

lemma splice_header:
  "length h = k \<Longrightarrow> n = length c \<Longrightarrow> splice k c (splice 0 h (replicate (k + n) None)) = h @ c"
  by (simp add: splice_def)

lemma holding_no_oom: "holding_with K s W \<Longrightarrow> \<not> oom s n"
  by (auto simp: holding_def sendable_def q_fifo_def)

lemma holding_fresh: "holding_with K s W \<Longrightarrow> chars s (Suc (next_addr s)) = None"
  by (auto simp: holding_def sendable_def intro: below_fresh)

lemma write_block_law:
  assumes h: "holding_with K s W" "set qs \<subseteq> dom W" and r: "writer_ready s qarr qs buffer bs"
    and off: "off < length bs" and u: "u \<le> 16384" "length bs + 16384 < 2 ^ 31"
    and K: "keeps K m (set qs)" "m \<le> next_addr s"
  shows "runs_to (write_block qarr (int (length qs)) buffer (int (length bs)) tag (int u) (int off)) s
    (\<lambda>i s'. i = int (off + u) \<and> wr_frame s s' \<and>
       holding_with K s' (deliver (data_plan qs tag [(off, take u (drop off bs))]) W))"
proof -
  let ?q = "qs ! (off mod length qs)" let ?a = "Suc (next_addr s)"
  define c where "c = take u (drop off bs)"
  define n where "n = length c"
  obtain more where qs: "qs \<noteq> []" "ptr_arrays s qarr = Some (qs @ more)"
    using r by (auto simp: writer_ready_def)
  then have m: "off mod length qs < length qs" "off mod length qs < length qs + length more"
    "(qs @ more) ! (off mod length qs) = ?q" by (simp_all add: nth_append trans_less_add1)
  with h(2) obtain bss where bss: "W ?q = Some bss" using nth_mem by blast
  have q: "?q \<in> set qs" using m(1) by (rule nth_mem)
  have "min_int (int u) (int (length bs) - int off) = int n" and nu: "n \<le> 16384"
    using off u by (auto simp: min_int_def n_def c_def)
  then have n: "word_of_int (min_int (int u) (int (length bs) - int off)) = (of_nat n :: 32 word)" by simp
  have n': "unat (of_nat n :: 32 word) = n" "unat (12 + of_nat n :: 32 word) = 12 + n"
    using nu unat_of_nat32 [of n] unat_of_nat32 [of "12 + n"] by simp_all
  obtain rest where rest: "chars s buffer = Some (bs @ rest)" using r by (auto simp: writer_ready_def)
  have "take (length (take u xs)) xs = take u xs" for xs :: "8 word option list"
    by (cases "u \<le> length xs") simp_all
  from this [of "drop off bs"]
  have "off + n \<le> length (bs @ rest)" and "take n (drop off (bs @ rest)) = c"
    using off by (simp_all add: n_def c_def)
  then have rd: "off + n \<le> length bs + length rest" "take n (drop off (bs @ rest)) = c" by simp_all
  have ba: "buffer \<noteq> ?a" using rest holding_fresh [OF h(1)] by auto
  have len: "length (data_bytes tag (off, c)) = 12 + n" by (simp add: data_bytes_def n_def)
  have db: "data_block_bytes \<lparr>db_block_size = of_nat n + 12, db_seq_number = of_nat off,
      db_tag = word_of_int tag\<rparr> @ c = data_bytes tag (off, c)"
    by (simp add: data_bytes_def n_def add.commute)
  have int: "in_int (int off + int u)" using off u by (simp add: in_int_def)
  from holding_send [OF h(1) bss _ K(1) q K(2), of "12 + of_nat n" "data_bytes tag (off, c)"] n' len
  have send: "runs_to (write_block_to_queue ?q ?a (12 + of_nat n)) (with_bytes (data_bytes tag (off, c)) s)
    (\<lambda>_ s'. holding_with K s' (W(?q \<mapsto> bss @ [data_bytes tag (off, c)])) \<and> wr_frame s s')" by simp
  show ?thesis
    unfolding write_block_def Let_def n n'(1) c_def [symmetric]
    by ((use m qs rest rd ba bss in \<open>simp add: wp holding_no_oom [OF h(1)] sizeof_data_block_def
          splice_header n_def [symmetric] zmod_int [symmetric] db del: drop_append take_append\<close>),
        rule runs_to_mono [OF send], simp add: int data_plan_def)
qed

lemma deliver_append: "deliver (ps @ qs) W = deliver qs (deliver ps W)"
  by (simp add: deliver_def)

lemma write_blocks_law:
  assumes h: "holding_with K s W" "set qs \<subseteq> dom W" and r: "writer_ready s qarr qs buffer bs"
    and u: "0 < u" "u \<le> 16384" "length bs + 16384 < 2 ^ 31"
    and K: "keeps K m (set qs)" "m \<le> next_addr s"
  shows "runs_to (whileM (\<lambda>i. ret (i < int (length bs)))
      (write_block qarr (int (length qs)) buffer (int (length bs)) tag (int u)) 0) s
    (\<lambda>_ s'. wr_frame s s' \<and> holding_with K s' (deliver (data_plan qs tag (chunks u 0 bs)) W))"
proof -
  let ?all = "deliver (data_plan qs tag (chunks u 0 bs)) W"
  let ?I = "\<lambda>i s'. wr_frame s s' \<and> (\<exists>off W'. i = int off \<and> holding_with K s' W' \<and> set qs \<subseteq> dom W' \<and>
    ?all = deliver (data_plan qs tag (chunks u off (drop off bs))) W')"
  show ?thesis
  proof (rule runs_to_whileM [where I = ?I and m = "\<lambda>i s. nat (int (length bs) - i)"])
    show "?I 0 s" using h by (intro conjI exI [of _ 0] exI [of _ W]) simp_all
  next
    fix i :: int and s' assume "?I i s'"
    then obtain off W' where I: "wr_frame s s'" "i = int off" "holding_with K s' W'" "set qs \<subseteq> dom W'"
      "?all = deliver (data_plan qs tag (chunks u off (drop off bs))) W'" by blast
    have n: "m \<le> next_addr s'" using K(2) I(1) by (auto simp: wr_frame_def)
    show "runs_to (ret (i < int (length bs))) s' (\<lambda>go s''. if go then
        runs_to (write_block qarr (int (length qs)) buffer (int (length bs)) tag (int u) i) s''
          (\<lambda>i' t. ?I i' t \<and> nat (int (length bs) - i') < nat (int (length bs) - i))
        else wr_frame s s'' \<and> holding_with K s'' ?all)"
    proof (cases "off < length bs")
      case True
      let ?W = "deliver (data_plan qs tag [(off, take u (drop off bs))]) W'"
      have c: "chunks u off (drop off bs) =
          (off, take u (drop off bs)) # chunks u (off + u) (drop (off + u) bs)"
        using True u(1) chunks_step [of "drop off bs" u off] by (simp add: add.commute)
      have all: "?all = deliver (data_plan qs tag (chunks u (off + u) (drop (off + u) bs))) ?W"
        using I(5) by (simp add: c data_plan_def)
      have dom: "set qs \<subseteq> dom ?W" using I(4) by (auto intro!: deliver_dom)
      have "?I (int (off + u)) t" if "wr_frame s' t" "holding_with K t ?W" for t
        using that all dom wr_frame_trans [OF I(1)]
        by (intro conjI exI [of _ "off + u"] exI [of _ ?W]) auto
      then show ?thesis
        using True u(1) I(2)
        by (simp only: wp if_True of_nat_less_iff, intro runs_to_mono [OF write_block_law [OF I(3,4)
              writer_ready_frame [OF r I(1)] True u(2,3) K(1) n]]) auto
    qed (use I in \<open>simp add: wp data_plan_def\<close>)
  qed
qed

text \<open>
  The whole function: \<open>plan\<close> lists the blocks in the order in which they are written, each with
  its queue.
\<close>

definition plan :: "addr list \<Rightarrow> nat \<Rightarrow> int \<Rightarrow> int \<Rightarrow> 8 word option list \<Rightarrow>
    (addr \<times> 8 word option list) list" where
  "plan qs u tag prev_tag bs =
     (last qs, init_bytes tag prev_tag (length bs)) # data_plan qs tag (chunks u 0 bs)"

lemma write_init_block_law:
  assumes h: "holding_with K s W" "set qs \<subseteq> dom W" and r: "writer_ready s qarr qs buffer bs"
    and K: "keeps K m (set qs)" "m \<le> next_addr s"
  shows "runs_to (write_init_block qarr (int (length qs)) (int (length bs)) tag prev) s
    (\<lambda>_ s'. wr_frame s s' \<and>
       holding_with K s' (W(last qs \<mapsto> the (W (last qs)) @ [init_bytes tag prev (length bs)])))"
proof -
  let ?a = "Suc (next_addr s)" let ?init = "init_bytes tag prev (length bs)"
  obtain more where qs: "qs \<noteq> []" "ptr_arrays s qarr = Some (qs @ more)"
    using r by (auto simp: writer_ready_def)
  have "nat (int (length qs) - 1) = length qs - 1" by arith
  with qs have last: "(qs @ more) ! nat (int (length qs) - 1) = last qs"
    "nat (int (length qs) - 1) < length qs + length more"
    by (simp_all add: last_conv_nth nth_append trans_less_add1)
  from qs h(2) obtain bss where bss: "W (last qs) = Some bss" using last_in_set by blast
  have init: "splice 0 (init_block_bytes
      \<lparr>ib_block_size = 24, ib_flag = -1, ib_buffer_size = of_nat (length bs),
       ib_tag = word_of_int tag, ib_prev_tag = word_of_int prev, ib_last_block = False\<rparr>)
      (replicate 24 None) = ?init" by (simp add: init_bytes_def splice_def)
  have send: "runs_to (write_block_to_queue (last qs) ?a 24) (with_bytes ?init s)
    (\<lambda>_ s'. holding_with K s' (W(last qs \<mapsto> the (W (last qs)) @ [?init])) \<and> wr_frame s s')"
    using holding_send [OF h(1) bss _ K(1) last_in_set [OF qs(1)] K(2), of 24 ?init] bss by (simp add: init_bytes_def)
  show ?thesis
    unfolding write_init_block_def
    by ((use qs last in \<open>simp add: wp holding_no_oom [OF h(1)] sizeof_init_block_def init\<close>),
        rule runs_to_mono [OF send], simp)
qed

lemma multiplex_write_queues_law:
  assumes h: "holding_with K s W" "set qs \<subseteq> dom W" and r: "writer_ready s qarr qs buffer bs"
    and size: "choose_unif_size (int (length bs)) (int (length qs)) = Some (int u)"
    and u: "bs \<noteq> [] \<longrightarrow> 0 < u" "u \<le> 16384" "length bs + 16384 < 2 ^ 31" and tag: "in_int (prev + 1)"
    and K: "keeps K m (set qs)" "m \<le> next_addr s"
  shows "runs_to (multiplex_write_queues qarr (int (length qs)) buffer (int (length bs)) prev) s
    (\<lambda>tag s'. tag = prev + 1 \<and> wr_frame s s' \<and> holding_with K s' (deliver (plan qs u (prev + 1) prev bs) W))"
  unfolding multiplex_write_queues_def size option.case wp
proof (intro conjI tag runs_to_mono [OF write_init_block_law [OF h r K]])
  let ?W = "W(last qs \<mapsto> the (W (last qs)) @ [init_bytes (prev + 1) prev (length bs)])"
  fix x s' assume s': "wr_frame s s' \<and> holding_with K s' ?W"
  show "runs_to (whileM (\<lambda>i. ret (i < int (length bs)))
      (write_block qarr (int (length qs)) buffer (int (length bs)) (prev + 1) (int u)) 0) s'
    (\<lambda>x s''. prev + 1 = prev + 1 \<and> wr_frame s s'' \<and> holding_with K s'' (deliver (plan qs u (prev + 1) prev bs) W))"
  proof (cases "bs = []")
    case True
    with s' show ?thesis by (subst whileM_unfold) (simp add: wp plan_def data_plan_def)
  next
    case False
    have "set qs \<subseteq> dom ?W" using h(2) by auto
    moreover have "m \<le> next_addr s'" using K(2) s' by (auto simp: wr_frame_def)
    ultimately show ?thesis
      using False u K write_blocks_law [OF _ _ writer_ready_frame [OF r], of K s' ?W u m "prev + 1"] s'
      by (auto simp: plan_def elim!: runs_to_mono elim: wr_frame_trans)
  qed
qed

end
