(* ===== verification/Sender.thy ===== *)
theory Sender
  imports Writer Utils
begin

text \<open>
  The sending thread of multiplex_writer.c: \<open>listen_for_blocks\<close> takes the blocks of one queue
  and sends them on one connection.
\<close>

section \<open>Operations\<close>

text \<open>
  One round of the endless loop. \<open>pthread_cond_wait\<close> on an empty queue waits for another
  thread, which stops the sequential run as \<open>Blocked\<close>; \<open>buf\<close> is not initialised when
  \<open>dequeue\<close> stores nothing in it.
\<close>

definition listen_round :: "addr \<Rightarrow> int \<Rightarrow> (mem, unit) prog" where
  "listen_round queue client_fd =
     seq (lock_queue queue)
    (bnd (is_empty queue) (\<lambda>empty.
     if empty then halt Blocked
     else
       bnd (dequeue queue) (\<lambda>(buf_len, buf).
       seq (unlock_queue queue)
      (case buf of
         None \<Rightarrow> halt Undefined
       | Some b \<Rightarrow> bnd (send_tcp b (sint buf_len) client_fd) (\<lambda>_. free_bytes b)))))"

definition listen_for_blocks :: "addr \<Rightarrow> int \<Rightarrow> (mem, unit) prog" where
  "listen_for_blocks queue client_fd =
     whileM (\<lambda>_. ret True) (\<lambda>_. listen_round queue client_fd) ()"

text \<open>A run of \<open>n\<close> rounds, to look at memory in between.\<close>

fun listen_rounds :: "nat \<Rightarrow> addr \<Rightarrow> int \<Rightarrow> (mem, unit) prog" where
  "listen_rounds 0 queue client_fd = ret ()"
| "listen_rounds (Suc n) queue client_fd =
     seq (listen_round queue client_fd) (listen_rounds n queue client_fd)"

section \<open>Laws\<close>

lemma sendable_item:
  assumes "sendable s F" and "F q = Some xs" and "x \<in> set xs"
  obtains bs where "chars s (fst x) = Some bs" and "unat (snd x) \<le> length bs" and "fst x \<noteq> NULL"
proof -
  obtain bs where bs: "chars s (fst x) = Some bs" "unat (snd x) \<le> length bs"
    using assms unfolding sendable_def by blast
  moreover have "fst x \<noteq> NULL" using assms(1) bs(1) below_nonnull [of "chars s"] by (auto simp: sendable_def)
  ultimately show thesis by (rule that)
qed

lemma separate_tl:
  assumes sep: "separate F" and xs: "F q = Some (x # xs)"
  shows "separate (F(q \<mapsto> xs))" and "(F(q \<mapsto> xs)) k = Some ys \<Longrightarrow> y \<in> set ys \<Longrightarrow> fst y \<noteq> fst x"
proof -
  have d: "distinct (map fst (x # xs))" using sep xs unfolding separate_def by blast
  have o: "fst ` set ys \<inter> fst ` set (x # xs) = {}" if "F k = Some ys" "k \<noteq> q" for k ys
    using sep xs that unfolding separate_def by blast
  have o': "fst ` set ys \<inter> fst ` set xs = {}" "fst ` set xs \<inter> fst ` set ys = {}"
    if "F k = Some ys" "k \<noteq> q" for k ys
    using o [OF that] by (simp_all add: Int_commute)
  show "separate (F(q \<mapsto> xs))"
    using sep d o' unfolding separate_def by (simp add: fun_upd_apply)
  assume "(F(q \<mapsto> xs)) k = Some ys" and y: "y \<in> set ys"
  moreover have "fst y \<in> fst ` set ys" using y by (rule imageI)
  ultimately show "fst y \<noteq> fst x"
    using d o [of k ys] by (cases "k = q") auto
qed

lemma sint_small: "unat (m :: 32 word) < 2 ^ 31 \<Longrightarrow> sint m = int (unat m)"
proof -
  assume "unat m < 2 ^ 31"
  then have "int (unat m) < int (2 ^ 31)" by (simp only: of_nat_less_iff)
  moreover have "- (2 ^ 31) \<le> uint m" by (rule order_trans [of _ 0]) simp_all
  ultimately have "in_int (uint m)" by (simp add: in_int_def)
  from sint_of_int32 [OF this] show ?thesis by simp
qed

lemma sendable_take:
  assumes F: "sendable s F" and xs: "F q = Some (x # xs)" and n: "unat (snd x) < 2 ^ 31"
  shows "runs_to (listen_round q fd) s (\<lambda>_ s'. sendable s' (F(q \<mapsto> xs)) \<and>
    wire s' (F(q \<mapsto> xs)) = (wire s F)(q := map_option tl (wire s F q)) \<and>
    sends s' = Suc (sends s) \<and> send_limits s' = send_limits s \<and>
    net_out s' = (net_out s)(fd := net_out s fd @ accepted s (hd (the (wire s F q)))))"
proof -
  obtain b m where x: "x = (b, m)" by (cases x)
  have l: "locked s q = Some False" using F xs by (simp add: sendable_def)
  then obtain r where r: "queues s q = Some r" "\<not> q_mutex r" by (auto simp: locked_def)
  obtain S ns where S: "q_inv s S" "S q = Some ns" "x # xs = rev (map snd ns)" "\<forall>n. \<not> oom s n"
      "F = (\<lambda>q. map_option (\<lambda>ns. rev (map snd ns)) (S q))"
    using q_fifoE [of s F q "x # xs"] F xs by (auto simp: sendable_def)
  from rev_Cons_last [OF S(3)] have ns: "ns \<noteq> []" "snd (last ns) = x" "xs = rev (map snd (butlast ns))" by auto
  obtain bs where bs: "chars s b = Some bs" "unat m \<le> length bs" "b \<noteq> NULL"
    using sendable_item [OF F xs, of x] x by auto
  let ?s = "s\<lparr>queues := (queues s)(q \<mapsto> r\<lparr>q_mutex := True\<rparr>)\<rparr>"
  have inv: "q_inv ?s S" by (rule q_inv_mutex [OF S(1,2) r(1)])
  have empty: "is_empty q ?s = Inr (False, ?s)" using is_empty_law [OF inv S(2)] ns by simp
  have sint: "sint m = int (unat m)" using n x by (intro sint_small) simp
  let ?F = "F(q \<mapsto> xs)" let ?b = "take (unat m) bs"
  have hd: "hd (the (wire s F q)) = ?b" using xs x bs by (simp add: wire_def)
  have final: "sendable s' ?F \<and> wire s' ?F = (wire s F)(q := map_option tl (wire s F q))"
    if s': "q_inv s' (S(q \<mapsto> butlast ns))" "oom s' = oom s" "chars s' = (chars s)(b := None)"
      "next_addr s' = next_addr s" "\<And>k. locked s' k = locked s k" for s'
  proof
    have "q_fifo s' ?F" unfolding q_fifo_def
      using s' S ns by (auto intro!: exI [of _ "S(q \<mapsto> butlast ns)"])
    moreover have "separate ?F" using F xs unfolding sendable_def by (blast intro: separate_tl)
    moreover have ne: "fst y \<noteq> b" if "?F k = Some ys" "y \<in> set ys" for k ys y
      using separate_tl(2) [OF _ xs that] F x by (simp add: sendable_def)
    have ne': "(b, n) \<notin> set xs" "F k = Some ys \<Longrightarrow> k \<noteq> q \<Longrightarrow> (b, n) \<notin> set ys" for k ys n
      using ne [of q xs "(b, n)"] ne [of k ys "(b, n)"] by auto
    moreover note ne'
    ultimately show "sendable s' ?F"
      using F xs s' unfolding sendable_def by (auto split: if_splits)
    show "wire s' ?F = (wire s F)(q := map_option tl (wire s F q))"
      unfolding wire_def using ne' xs s' x
      by (auto simp: fun_eq_iff map_option_case split: option.splits)
  qed
  show ?thesis
    unfolding listen_round_def lock_queue_def unlock_queue_def
    using r
    apply (simp add: wp)
    apply (simp add: runs_to_def [of "is_empty q"] empty wp)
  proof (rule runs_to_mono [OF dequeue_law [OF inv S(2)]], goal_cases)
    case (1 res t)
    then have t: "res = (m, Some b)" "q_inv t (S(q \<mapsto> butlast ns))" "q_frame ?s t" "locked t = locked ?s"
      "next_addr t = next_addr s"
      using ns x by simp_all
    then obtain r' where r': "queues t q = Some r'" by (auto simp: locked_def fun_eq_iff split: if_splits)
    have fr: "chars t = chars s" "oom t = oom s" "sends t = sends s" "send_limits t = send_limits s"
      "net_out t = net_out s" using t(3) unfolding q_frame_def by (cases s; cases t; simp)+
    let ?t = "t\<lparr>queues := (queues t)(q \<mapsto> r'\<lparr>q_mutex := False\<rparr>)\<rparr>"
    have inv': "q_inv ?t (S(q \<mapsto> butlast ns))" by (rule q_inv_mutex [OF t(2) _ r']) simp
    have l': "locked ?t k = locked s k" for k
      using t(4) r by (simp add: locked_def fun_eq_iff)
    have fin: "sendable u ?F \<and> wire u ?F = (wire s F)(q := map_option tl (wire s F q))"
      if "queues u = queues ?t" "q_nodes u = q_nodes t" "next_addr u = next_addr t" "oom u = oom t"
        "chars u = (chars s)(b := None)" for u
      using inv' l' fr(2) t(5) that by (intro final) (simp_all add: q_inv_def locked_def)
    show ?case
      using r' bs fr t(1) sint hd
      by (simp add: wp send_tcp_def free_bytes_def fin [THEN conjunct1] fin [THEN conjunct2]
          accepted_def fun_upd_idem)
  qed
qed

lemma listen_round_law:
  assumes h: "holding s W" and W: "W q = Some (b # bss)" and n: "length b < 2 ^ 31"
  shows "runs_to (listen_round q fd) s (\<lambda>_ s'. holding s' (W(q \<mapsto> bss)) \<and>
    sends s' = Suc (sends s) \<and> send_limits s' = send_limits s \<and>
    net_out s' = (net_out s)(fd := net_out s fd @ accepted s b))"
proof -
  obtain F where F: "sendable s F" "W = wire s F" using h by (auto simp: holding_def)
  with W obtain x xs where xs: "F q = Some (x # xs)" by (auto simp: wire_def map_eq_Cons_conv)
  obtain bs where bs: "chars s (fst x) = Some bs" "unat (snd x) \<le> length bs"
    using sendable_item [OF F(1) xs, of x] by auto
  have b: "b = take (unat (snd x)) bs" and tl: "bss = tl (the (wire s F q))"
    using W F(2) xs bs(1) by (auto simp: wire_def)
  have x: "unat (snd x) < 2 ^ 31" using n bs(2) unfolding b by simp
  have eq: "hd (the (wire s F q)) = b" "map_option tl (wire s F q) = Some bss"
    using W F(2) by auto
  have "holding s' (W(q \<mapsto> bss))"
    if "sendable s' (F(q \<mapsto> xs))" "wire s' (F(q \<mapsto> xs)) = (wire s F)(q \<mapsto> bss)" for s'
    using that F(2) by (auto simp: holding_def intro!: exI [of _ "F(q \<mapsto> xs)"])
  then show ?thesis
    by (intro runs_to_mono [OF sendable_take [OF F(1) xs x]]) (simp add: eq)
qed

lemma listen_round_empty:
  assumes "holding s W" and "W q = Some []"
  shows "listen_round q fd s = Inl Blocked"
proof -
  obtain F where F: "sendable s F" "W = wire s F" using assms(1) by (auto simp: holding_def)
  with assms(2) have xs: "F q = Some []" by (auto simp: wire_def)
  with F have l: "locked s q = Some False" by (simp add: sendable_def)
  then obtain r where r: "queues s q = Some r" "\<not> q_mutex r" by (auto simp: locked_def)
  have "q_fifo s F" using F(1) by (simp add: sendable_def)
  from q_fifoE [OF this xs]
  obtain S ns where "q_inv s S" "S q = Some ns" "[] = rev (map snd ns)" by blast
  then have S: "q_inv s S" "S q = Some []" by simp_all
  have "is_empty q (s\<lparr>queues := (queues s)(q \<mapsto> r\<lparr>q_mutex := True\<rparr>)\<rparr>) =
      Inr (True, s\<lparr>queues := (queues s)(q \<mapsto> r\<lparr>q_mutex := True\<rparr>)\<rparr>)"
    using is_empty_law [OF q_inv_mutex [OF S r(1)] S(2)] by simp
  with r show ?thesis by (simp add: listen_round_def lock_queue_def prog_defs)
qed

lemma listen_for_blocks_unfold:
  "listen_for_blocks q fd = bnd (listen_round q fd) (\<lambda>_. listen_for_blocks q fd)"
  unfolding listen_for_blocks_def by (subst whileM_unfold) (simp add: monad_laws)

section \<open>Properties\<close>

text \<open>C24. A sender whose connection takes every byte sends the blocks of its queue one after the
  other, oldest first, each whole, frees them, and then waits for the next block.\<close>

theorem queue_is_sent:
  assumes "holding s W" and "W q = Some bss" and "\<forall>b \<in> set bss. length b < 2 ^ 31"
    and "\<forall>k. 2 ^ 31 \<le> send_limits s k"
  shows "runs_to (listen_rounds (length bss) q fd) s (\<lambda>_ s'. holding s' (W(q \<mapsto> [])) \<and>
      net_out s' = (net_out s)(fd := net_out s fd @ concat bss)) \<and>
    listen_for_blocks q fd s = Inl Blocked"
  using assms
proof (induction bss arbitrary: s W)
  case Nil
  from listen_round_empty [OF Nil(1,2)] Nil(1,2) show ?case
    by (subst listen_for_blocks_unfold) (simp add: wp fun_upd_idem bnd_def)
next
  case (Cons b bss)
  have lim: "2 ^ 31 \<le> send_limits s (sends s)" and b: "length b < 2 ^ 31" using Cons.prems by auto
  then have "int (length b) \<le> send_limits s (sends s)" by simp
  then have all: "accepted s b = b" unfolding accepted_def by (intro take_all) linarith
  note round = listen_round_law [OF Cons.prems(1,2) b, of fd, unfolded all]
  have IH: "runs_to (listen_rounds (length bss) q fd) s' (\<lambda>_ s''. holding s'' (W(q \<mapsto> [])) \<and>
      net_out s'' = (net_out s)(fd := net_out s fd @ concat (b # bss))) \<and>
    listen_for_blocks q fd s' = Inl Blocked"
    if "holding s' (W(q \<mapsto> bss))" "send_limits s' = send_limits s"
      "net_out s' = (net_out s)(fd := net_out s fd @ b)" for s'
    using Cons.IH [OF that(1)] that(2,3) Cons.prems(3,4)
    by (simp add: fun_upd_same fun_upd_upd del: fun_upd_apply)
  show ?case
  proof
    show "runs_to (listen_rounds (length (b # bss)) q fd) s (\<lambda>_ s'. holding s' (W(q \<mapsto> [])) \<and>
        net_out s' = (net_out s)(fd := net_out s fd @ concat (b # bss)))"
      by (simp add: wp del: concat.simps, rule runs_to_mono [OF round]) (use IH in blast)
    show "listen_for_blocks q fd s = Inl Blocked"
      by (subst listen_for_blocks_unfold, rule bnd_stops, rule runs_to_mono [OF round]) (use IH in blast)
  qed
qed

text \<open>A sending thread with one block of three bytes in its queue.\<close>

definition demo_sender :: mem where
  "demo_sender = mem0\<lparr>next_addr := 3,
     queues := [1 \<mapsto> \<lparr>q_head = 2, q_tail = 2, q_mutex = False, q_wrt = 1\<rparr>],
     q_nodes := [2 \<mapsto> \<lparr>q_buf = 3, q_buf_len = 3, q_prev = NULL, q_next = NULL\<rparr>],
     chars := [3 \<mapsto> [Some 7, None, Some 9]]\<rparr>"

lemma demo_sender_simps [simp]: "net_out demo_sender = (\<lambda>_. [])" "send_limits demo_sender = (\<lambda>_. 2 ^ 31)"
  by (simp_all add: demo_sender_def mem0_def)

lemma demo_sender_holding: "holding demo_sender [1 \<mapsto> [[Some 7, None, Some 9]]]"
proof -
  have "q_inv demo_sender [1 \<mapsto> [(2, 3, 3)]]"
    by (auto simp: demo_sender_def mem0_def q_inv_def structs_def struct_at_def queue_rec_def
        disjoint_chains_def owned_def below_def split: if_splits)
  then have "q_fifo demo_sender [1 \<mapsto> [(3, 3)]]"
    unfolding q_fifo_def
    by (intro conjI exI [of _ "[1 \<mapsto> [(2, 3, 3)]]"]) (auto simp: demo_sender_def mem0_def)
  then show ?thesis
    unfolding holding_def
    by (intro exI [of _ "[1 \<mapsto> [(3, 3)]]"])
      (auto simp: sendable_def separate_def wire_def locked_def below_def demo_sender_def fun_eq_iff)
qed

lemma queue_is_sent_witness:
  "runs_to (listen_rounds 1 1 5) demo_sender (\<lambda>_ s'. net_out s' 5 = [Some 7, None, Some 9]) \<and>
   listen_for_blocks 1 5 demo_sender = Inl Blocked"
  using queue_is_sent [OF demo_sender_holding, of 1 "[[Some 7, None, Some 9]]" 5]
  by (auto elim!: runs_to_mono)

text \<open>C25. One round of the sender when \<open>send\<close> takes only the first \<open>k\<close> bytes of a block, or fails
  (then \<open>k\<close> is 0): the result of \<open>send_tcp\<close> is ignored, the block is freed and taken off the
  queue, and its other bytes are never sent.\<close>

theorem short_send_loses_bytes:
  assumes "holding s W" and "W q = Some (b # bss)" and "length b < 2 ^ 31"
    and "k = nat (send_limits s (sends s))"
  shows "runs_to (listen_round q fd) s (\<lambda>_ s'. holding s' (W(q \<mapsto> bss)) \<and>
    net_out s' = (net_out s)(fd := net_out s fd @ take k b))"
  by (rule runs_to_mono [OF listen_round_law [OF assms(1-3)]]) (simp add: accepted_def assms(4))

lemma short_send_loses_bytes_witness:
  "runs_to (listen_round 1 5) (demo_sender\<lparr>send_limits := \<lambda>_. 1\<rparr>) (\<lambda>_ s'. net_out s' 5 = [Some 7])"
proof -
  have q: "q_fifo (s\<lparr>send_limits := l\<rparr>) F = q_fifo s F" for s l F
    by (simp add: q_fifo_def q_inv_def)
  obtain F where F: "sendable demo_sender F" "[1 \<mapsto> [[Some 7, None, Some 9]]] = wire demo_sender F"
    using demo_sender_holding unfolding holding_def by blast
  have "sendable (demo_sender\<lparr>send_limits := \<lambda>_. 1\<rparr>) F"
    using F(1) by (simp add: sendable_def q locked_def)
  moreover have "wire (demo_sender\<lparr>send_limits := \<lambda>_. 1\<rparr>) F = wire demo_sender F"
    by (simp add: wire_def)
  ultimately have "holding (demo_sender\<lparr>send_limits := \<lambda>_. 1\<rparr>) [1 \<mapsto> [[Some 7, None, Some 9]]]"
    unfolding holding_def F(2) by metis
  from short_send_loses_bytes [OF this, where q = 1 and b = "[Some 7, None, Some 9]" and k = 1 and fd = 5 and bss = "[]"]
  have "runs_to (listen_round 1 5) (demo_sender\<lparr>send_limits := \<lambda>_. 1\<rparr>) (\<lambda>_ s'.
      holding s' ([1 \<mapsto> [[Some 7, None, Some 9]]](1 \<mapsto> [])) \<and> net_out s' = (\<lambda>_. [])(5 := [Some 7]))"
    by (simp add: fun_upd_same del: fun_upd_apply)
  then show ?thesis by (rule runs_to_mono) simp
qed
end
