(* ===== verification/HashTableSpec.thy ===== *)
theory HashTableSpec
  imports HashTable
begin

text \<open>
  The entries of one bucket of a hash table, and the law of the search \<open>find_kv\<close> that insert,
  lookup and remove share.
\<close>

section \<open>One bucket\<close>

text \<open>
  The entries of a bucket are pairs of the address of an \<open>HTKeyValue\<close> and its contents.
  \<open>chain_at s S l ks\<close>: the list at \<open>l\<close> holds the addresses of the entries \<open>ks\<close>.
\<close>

type_synonym entries = "(addr \<times> HTKeyValue) list"

definition chain_at :: "mem \<Rightarrow> (addr \<rightharpoonup> nodes) \<Rightarrow> addr \<Rightarrow> entries \<Rightarrow> bool" where
  "chain_at s S l ks \<longleftrightarrow>
     (\<exists>ns. S l = Some ns \<and> map snd ns = map fst ks) \<and> (\<forall>(p, kv) \<in> set ks. kvs s p = Some kv)"

text \<open>What \<open>find_kv\<close> does once it is on the entry it looks for.\<close>

definition unlinked :: "mem \<Rightarrow> (addr \<rightharpoonup> nodes) \<Rightarrow> addr \<Rightarrow> addr \<Rightarrow> addr list \<Rightarrow> mem \<Rightarrow> bool" where
  "unlinked s S l p ps s' \<longleftrightarrow>
     (\<exists>ns. map snd ns = ps \<and> ll_inv s' (S(l \<mapsto> ns))) \<and>
     (\<exists>N L. s' = s\<lparr>ll_nodes := N, ll_lists := L, kvs := (kvs s)(p := None)\<rparr>)"

definition hit :: "mem \<Rightarrow> (addr \<rightharpoonup> nodes) \<Rightarrow> addr \<Rightarrow> entries \<Rightarrow> 64 word \<Rightarrow> bool \<Rightarrow>
    (HTKeyValue \<times> addr) option \<Rightarrow> mem \<Rightarrow> bool" where
  "hit s S l ks key remove res s' \<longleftrightarrow>
     (\<exists>ks1 p kv ks2. ks = ks1 @ (p, kv) # ks2 \<and> kv_key kv = key \<and>
        key \<notin> kv_key ` snd ` set ks1 \<and> res = Some (kv, p) \<and>
        (if remove then unlinked s S l p (map fst (ks1 @ ks2)) s' else s' = s))"

lemma find_step_hit:
  assumes inv: "ll_inv s S" and i: "ll_iters s i = Some it" and at: "at_node S it ms a p ns"
    and kv: "kvs s p = Some kv" "kv_key kv = key" and p: "p \<noteq> NULL"
  shows "runs_to (find_step i key rm (nxt, r)) s (\<lambda>(nxt', res) s'. nxt' = nxt \<and> res = Some (kv, p) \<and>
    (if rm then unlinked (s\<lparr>ll_iters := (ll_iters s)(i := None)\<rparr>) S (it_list it) p (map snd (ms @ ns)) s'
     else s' = s\<lparr>ll_iters := (ll_iters s)(i := None)\<rparr>))"
proof -
  note g = LLIteratorGetPayload_law [OF inv i at]
  show ?thesis
  proof (cases rm)
    case False
    from LLIteratorFree_law [OF inv i] have "runs_to (LLIteratorFree i) s
        (\<lambda>_ s'. s' = s\<lparr>ll_iters := (ll_iters s)(i := None)\<rparr>)" by (rule runs_to_mono) simp
    then have "runs_to (LLIteratorFree i) s (\<lambda>_ s'. runs_to (ret (nxt, Some (kv, p))) s'
      (\<lambda>(nxt', res) s'. nxt' = nxt \<and> res = Some (kv, p) \<and> s' = s\<lparr>ll_iters := (ll_iters s)(i := None)\<rparr>))"
      by (rule runs_to_mono) (simp add: wp)
    with False g kv show ?thesis
      by (simp add: find_step_def wp) (erule runs_to_mono, simp add: wp kv)
  next
    case True
    let ?s1 = "s\<lparr>kvs := (kvs s)(p := None)\<rparr>"
    have inv1: "ll_inv ?s1 S" using inv by (subst ll_inv_cong [of _ s]) simp_all
    have "runs_to (LLIteratorDelete i NullFree) ?s1 (delete_post ?s1 S i it ms ns)"
      using LLIteratorDelete_law [OF inv1, of i it ms a p ns] i at
      by (simp add: NullFree_def [abs_def])
    then have "runs_to (LLIteratorDelete i NullFree) ?s1 (\<lambda>_ s2. runs_to (LLIteratorFree i) s2
        (\<lambda>_. unlinked (s\<lparr>ll_iters := (ll_iters s)(i := None)\<rparr>) S (it_list it) p (map snd (ms @ ns))))"
    proof (rule runs_to_mono, goal_cases)
      case (1 r s2)
      then obtain N L where s2: "s2 = ?s1\<lparr>ll_nodes := N, ll_lists := L,
          ll_iters := (ll_iters s)(i \<mapsto> it\<lparr>it_node := after_delete ms ns\<rparr>)\<rparr>"
        and inv2: "ll_inv s2 (S(it_list it \<mapsto> ms @ ns))"
        by (rule delete_postE) (rule that, simp_all)
      have "ll_iters s2 i = Some (it\<lparr>it_node := after_delete ms ns\<rparr>)" by (simp add: s2)
      from LLIteratorFree_law [OF inv2 this] show ?case
      proof (rule runs_to_mono, goal_cases)
        case (1 _ s3)
        then have "s3 = s2\<lparr>ll_iters := (ll_iters s2)(i := None)\<rparr>" by blast
        let ?s0 = "s\<lparr>ll_iters := (ll_iters s)(i := None)\<rparr>"
        from 1 have "s3 = s2\<lparr>ll_iters := (ll_iters s2)(i := None)\<rparr>" by blast
        then have "s3 = ?s0\<lparr>ll_nodes := N, ll_lists := L, kvs := (kvs ?s0)(p := None)\<rparr>"
          by (simp add: s2)
        with 1 show ?case unfolding unlinked_def by blast
      qed
    qed
    with True g kv p show ?thesis
      by (simp add: find_step_def wp) (erule runs_to_mono, simp add: wp kv)
  qed
qed

lemma find_step_miss:
  assumes inv: "ll_inv s S" and i: "ll_iters s i = Some it" and at: "at_node S it ms a p ns"
    and kv: "kvs s p = Some kv" "kv_key kv \<noteq> key"
  shows "runs_to (find_step i key rm (nxt, r)) s (\<lambda>(nxt', res) s'. res = None \<and>
    (case ns of
       [] \<Rightarrow> \<not> nxt' \<and> s' = s
     | (b, q) # ns' \<Rightarrow> nxt' \<and> ll_inv s' S \<and> at_node S (it\<lparr>it_node := b\<rparr>) (ms @ [(a, p)]) b q ns' \<and>
         s' = s\<lparr>ll_iters := (ll_iters s)(i \<mapsto> it\<lparr>it_node := b\<rparr>)\<rparr>))"
  using LLIteratorGetPayload_law [OF inv i at] kv
  by (simp add: find_step_def wp)
    (erule runs_to_mono, simp add: kv wp, rule runs_to_mono [OF LLIteratorNext_law [OF inv i at]],
      simp add: wp)

abbreviation find_loop :: "addr \<Rightarrow> 64 word \<Rightarrow> bool \<Rightarrow> bool \<times> (HTKeyValue \<times> addr) option \<Rightarrow>
    (mem, bool \<times> (HTKeyValue \<times> addr) option) prog" where
  "find_loop i key rm \<equiv> whileM (\<lambda>(nxt, res). ret (nxt \<and> res = None)) (find_step i key rm)"

lemma find_loop_unfold:
  "find_loop i key rm (nxt, res) =
     (if nxt \<and> res = None then bnd (find_step i key rm (nxt, res)) (find_loop i key rm)
      else ret (nxt, res))"
  by (subst whileM_unfold) (simp add: bnd_ret)

lemma hitI:
  assumes "key \<notin> kv_key ` snd ` set ks1" and "kv_key kv = key"
    and "if remove then unlinked s S l p (map fst (ks1 @ ks2)) s' else s' = s"
  shows "hit s S l (ks1 @ (p, kv) # ks2) key remove (Some (kv, p)) s'"
  unfolding hit_def using assms by blast

lemma find_loop_hit:
  assumes inv: "ll_inv s S" and i: "ll_iters s i = Some it" and at: "at_node S it ms a p ns"
    and ks: "map snd ms = map fst ks0" "map snd ns = map fst ks" "key \<notin> kv_key ` snd ` set ks0"
    and kv: "kvs s p = Some kv" "kv_key kv = key" "p \<noteq> NULL"
  shows "runs_to (find_loop i key rm (True, None)) s (\<lambda>(nxt, res) s'.
    hit (s\<lparr>ll_iters := (ll_iters s)(i := None)\<rparr>) S (it_list it) (ks0 @ (p, kv) # ks) key rm res s')"
  unfolding find_loop_unfold wp if_True simp_thms
proof (rule runs_to_mono [OF find_step_hit [OF inv i at kv]], goal_cases)
  case (1 x s')
  from 1 have x: "x = (True, Some (kv, p))"
    and u: "if rm then unlinked (s\<lparr>ll_iters := (ll_iters s)(i := None)\<rparr>) S (it_list it) p (map snd (ms @ ns)) s'
      else s' = s\<lparr>ll_iters := (ll_iters s)(i := None)\<rparr>"
    by (auto split: prod.splits)
  from ks(1,2) have "map snd (ms @ ns) = map fst (ks0 @ ks)" by simp
  from hitI [OF ks(3) kv(2) u [unfolded this]] show ?case
    by (simp add: x find_loop_unfold wp)
qed

lemma find_loop_law:
  assumes "ll_inv s S" and "ll_iters s i = Some it" and "at_node S it ms a p ns"
    and "map snd ms = map fst ks0" and "map snd ns = map fst ks"
    and "key \<notin> kv_key ` snd ` set ks0"
    and "\<forall>(q, kv) \<in> set ((p, kv) # ks). q \<noteq> NULL \<and> kvs s q = Some kv"
  shows "runs_to (find_loop i key rm (True, None)) s (\<lambda>(nxt, res) s'.
    if key \<in> kv_key ` snd ` set ((p, kv) # ks) then
      hit (s\<lparr>ll_iters := (ll_iters s)(i := None)\<rparr>) S (it_list it) (ks0 @ (p, kv) # ks) key rm res s'
    else res = None \<and> (\<exists>it'. s' = s\<lparr>ll_iters := (ll_iters s)(i \<mapsto> it')\<rparr>))"
  using assms
proof (induction ks arbitrary: s it ms a p kv ns ks0)
  case (Nil s it ms a p kv ns ks0)
  show ?case
  proof (cases "kv_key kv = key")
    case True
    with Nil find_loop_hit [of s S i it ms a p ns ks0 "[]" key kv] show ?thesis by simp
  next
    case False
    have "kvs s p = Some kv" using Nil by simp
    moreover have "s = s\<lparr>ll_iters := (ll_iters s)(i \<mapsto> it)\<rparr>" using Nil(2) by (simp add: fun_upd_idem)
    ultimately show ?thesis using find_step_miss [OF Nil(1-3) _ False, of rm True None] Nil(5) False
      by (simp add: find_loop_unfold [of _ _ _ True] wp)
        (erule runs_to_mono, auto simp: find_loop_unfold wp)
  qed
next
  case (Cons k ks s it ms a p kv ns ks0)
  show ?case
  proof (cases "kv_key kv = key")
    case True
    with Cons.prems find_loop_hit [of s S i it ms a p ns ks0 "k # ks" key kv] show ?thesis by simp
  next
    case False
    have kv: "kvs s p = Some kv" using Cons.prems by simp
    obtain q kv' where k: "k = (q, kv')" by force
    with Cons.prems(5) obtain b ns' where ns: "ns = (b, q) # ns'" "map snd ns' = map fst ks"
      by (auto simp: map_eq_Cons_conv)
    show ?thesis unfolding find_loop_unfold [of _ _ _ True] wp if_True simp_thms
    proof (rule runs_to_mono [OF find_step_miss [OF Cons.prems(1-3) kv False]], goal_cases)
      case (1 x s')
      let ?it = "it\<lparr>it_node := b\<rparr>"
      from 1 ns have x: "x = (True, None)" and s': "s' = s\<lparr>ll_iters := (ll_iters s)(i \<mapsto> ?it)\<rparr>"
        and inv': "ll_inv s' S" and at': "at_node S ?it (ms @ [(a, p)]) b q ns'"
        by (auto split: prod.splits)
      have "runs_to (find_loop i key rm (True, None)) s' (\<lambda>(nxt, res) s''.
          if key \<in> kv_key ` snd ` set ((q, kv') # ks) then
            hit (s'\<lparr>ll_iters := (ll_iters s')(i := None)\<rparr>) S (it_list ?it)
              ((ks0 @ [(p, kv)]) @ (q, kv') # ks) key rm res s''
          else res = None \<and> (\<exists>it'. s'' = s'\<lparr>ll_iters := (ll_iters s')(i \<mapsto> it')\<rparr>))"
        by (rule Cons.IH [OF inv' _ at' _ ns(2)]) (use Cons.prems False s' k in auto)
      then show ?case unfolding x
        by (rule runs_to_mono) (use k s' False in \<open>auto split: prod.splits if_splits\<close>)
    qed
  qed
qed

text \<open>
  \<open>find\<close> allocates an iterator for a bucket that is not empty. It returns -1 exactly when this fails,
  and otherwise 1 and the entry when the bucket has the key, 0 when it has not; it frees its
  iterator in every case.
\<close>

definition searched :: "nat \<Rightarrow> entries \<Rightarrow> nat" where
  "searched a ks = (if ks = [] then a else Suc a)"

definition search_fails :: "mem \<Rightarrow> entries \<Rightarrow> bool" where
  "search_fails s ks \<longleftrightarrow> ks \<noteq> [] \<and> oom s (Suc (next_addr s))"

definition find_post :: "mem \<Rightarrow> (addr \<rightharpoonup> nodes) \<Rightarrow> addr \<Rightarrow> entries \<Rightarrow> 64 word \<Rightarrow> bool \<Rightarrow>
    int \<times> (HTKeyValue \<times> addr) option \<Rightarrow> mem \<Rightarrow> bool" where
  "find_post s S l ks key remove r s' \<longleftrightarrow>
     (let t = s\<lparr>next_addr := searched (next_addr s) ks\<rparr> in
        if search_fails s ks then r = (-1, None) \<and> s' = t
        else if key \<in> kv_key ` snd ` set ks then fst r = 1 \<and> hit t S l ks key remove (snd r) s'
        else r = (0, None) \<and> s' = t)"

lemma find_kv_law:
  assumes inv: "ll_inv s S" and chain: "chain_at s S l ks" and nn: "below (kvs s) n"
  shows "runs_to (find_kv l key rm) s (find_post s S l ks key rm)"
proof -
  from chain obtain ns where ns: "S l = Some ns" "map snd ns = map fst ks"
    and kvs: "\<forall>(p, kv) \<in> set ks. kvs s p = Some kv" by (auto simp: chain_at_def)
  note count = NumElementsInLinkedList_law [OF inv ns(1)]
  let ?i = "Suc (next_addr s)"
  show ?thesis
    unfolding find_kv_def wp
  proof (rule runs_to_mono [OF LLMakeIterator_law [OF inv ns(1)]], goal_cases)
    case (1 i s1)
    show ?case
    proof (cases "ns = []")
      case True
      with 1 count ns(2) show ?thesis
        by (simp add: wp) (erule runs_to_mono, auto simp: find_post_def searched_def search_fails_def unat_eq_0)
    next
      case False
      then obtain a p ns' kv ks' where ns': "ns = (a, p) # ns'" "ks = (p, kv) # ks'"
        "map snd ns' = map fst ks'" using ns(2) by (cases ns; cases ks) auto
      show ?thesis
      proof (cases "oom s ?i")
        case oom: True
        with 1 False have *: "i = NULL" "s1 = s\<lparr>next_addr := ?i\<rparr>" by auto
        then have "ll_inv s1 S" using inv by (auto intro: ll_inv_next_addr)
        from NumElementsInLinkedList_law [OF this ns(1)] show ?thesis
          by (simp add: wp *) (erule runs_to_mono,
            auto simp: find_post_def searched_def search_fails_def ns' oom unat_gt_0 word_greater_zero_iff)
      next
        case no: False
        have sr: "\<not> search_fails s ks" "searched (next_addr s) ks = ?i"
          using no ns'(2) by (simp_all add: search_fails_def searched_def)
        let ?it = "\<lparr>it_list = l, it_node = a\<rparr>"
        from 1 False no ns' have i: "i = ?i" and inv1: "ll_inv s1 S"
          and s1: "s1 = s\<lparr>next_addr := ?i, ll_iters := (ll_iters s)(?i \<mapsto> ?it)\<rparr>" by auto
        have fr: "(ll_iters s)(?i := None) = ll_iters s"
          using ll_inv_fresh(3) [OF inv, of ?i] by (simp add: fun_upd_idem)
        have s0: "s1\<lparr>ll_iters := (ll_iters s1)(?i := None)\<rparr> = s\<lparr>next_addr := ?i\<rparr>"
          using fr by (simp add: s1)
        have "\<forall>(q, kv) \<in> set ((p, kv) # ks'). q \<noteq> NULL \<and> kvs s1 q = Some kv"
          using kvs nn unfolding ns' by (fastforce simp: s1 dest: below_bound [OF nn])
        then have "runs_to (find_loop ?i key rm (True, None)) s1 (\<lambda>(nxt, res) s'.
            if key \<in> kv_key ` snd ` set ((p, kv) # ks') then
              hit (s1\<lparr>ll_iters := (ll_iters s1)(?i := None)\<rparr>) S (it_list ?it) ([] @ (p, kv) # ks') key rm res s'
            else res = None \<and> (\<exists>it'. s' = s1\<lparr>ll_iters := (ll_iters s1)(?i \<mapsto> it')\<rparr>))"
          by (intro find_loop_law [OF inv1 _ _ _ ns'(3)])
            (use ns ns' s1 in \<open>auto simp: at_node_def\<close>)
        moreover have i0: "?i \<noteq> NULL" by simp
        ultimately show ?thesis unfolding i wp if_not_P [OF i0]
        proof (elim runs_to_mono, goal_cases)
          case (1 x s2)
          obtain nxt res where x: "x = (nxt, res)" by force
          show ?case
          proof (cases "key \<in> kv_key ` snd ` set ks")
            case True
            with 1 x ns' s0 have h: "hit (s\<lparr>next_addr := ?i\<rparr>) S l ks key rm res s2" by simp
            then obtain r where "res = Some r" by (auto simp: hit_def)
            with h True x show ?thesis by (auto simp: wp find_post_def sr)
          next
            case False
            with 1 x ns' obtain it' where res: "res = None"
              and s2: "s2 = s1\<lparr>ll_iters := (ll_iters s1)(?i \<mapsto> it')\<rparr>" by auto
            have "ll_inv s2 S" unfolding s2 by (rule ll_inv_iter [OF inv1]) (simp add: s1)
            from LLIteratorFree_law [OF this, of ?i it'] res x s2 s0 False show ?thesis
              by (auto simp: wp find_post_def sr elim!: runs_to_mono)
          qed
        qed
      qed
    qed
  qed
qed

end
