(* ===== verification/MapStore.thy ===== *)
theory MapStore
  imports Prelude
begin

text \<open>
  The contract of a store of key/value pairs as a locale: what a client sees of any sequence
  of insertions, lookups and removals is what the finite map \<open>map_spec\<close> predicts.
\<close>

section \<open>The abstract map\<close>

datatype ('k, 'v) map_op = Ins 'k 'v | Look 'k | Del 'k

text \<open>The answers, each the value the key had, and the map left.\<close>

fun map_spec :: "('k, 'v) map_op list \<Rightarrow> ('k \<rightharpoonup> 'v) \<Rightarrow> 'v option list \<times> ('k \<rightharpoonup> 'v)" where
  "map_spec [] M = ([], M)"
| "map_spec (Ins k v # ops) M = (let (rs, M') = map_spec ops (M(k \<mapsto> v)) in (M k # rs, M'))"
| "map_spec (Look k # ops) M = (let (rs, M') = map_spec ops M in (M k # rs, M'))"
| "map_spec (Del k # ops) M = (let (rs, M') = map_spec ops (M(k := None)) in (M k # rs, M'))"

fun insertions :: "('k, 'v) map_op list \<Rightarrow> nat" where
  "insertions [] = 0"
| "insertions (Ins k v # ops) = Suc (insertions ops)"
| "insertions (_ # ops) = insertions ops"

text \<open>A client's sequence of operations.\<close>

fun run_map :: "('k \<Rightarrow> 'v \<Rightarrow> ('s, 'v option) prog) \<Rightarrow> ('k \<Rightarrow> ('s, 'v option) prog) \<Rightarrow>
    ('k \<Rightarrow> ('s, 'v option) prog) \<Rightarrow> ('k, 'v) map_op list \<Rightarrow> ('s, 'v option list) prog" where
  "run_map ins look del [] = ret []"
| "run_map ins look del (Ins k v # ops) =
     bnd (ins k v) (\<lambda>r. bnd (run_map ins look del ops) (\<lambda>rs. ret (r # rs)))"
| "run_map ins look del (Look k # ops) =
     bnd (look k) (\<lambda>r. bnd (run_map ins look del ops) (\<lambda>rs. ret (r # rs)))"
| "run_map ins look del (Del k # ops) =
     bnd (del k) (\<lambda>r. bnd (run_map ins look del ops) (\<lambda>rs. ret (r # rs)))"

section \<open>The interface\<close>

text \<open>
  \<open>inv s M\<close>: memory \<open>s\<close> is well formed and the store holds \<open>M\<close>; the store takes insertions
  while it has fewer than \<open>cap\<close> keys.
\<close>

locale map_store =
  fixes inv :: "'s \<Rightarrow> ('k \<rightharpoonup> 'v) \<Rightarrow> bool"
    and ins :: "'k \<Rightarrow> 'v \<Rightarrow> ('s, 'v option) prog"
    and look :: "'k \<Rightarrow> ('s, 'v option) prog"
    and del :: "'k \<Rightarrow> ('s, 'v option) prog"
    and cap :: nat
  assumes ins_law: "inv s M \<Longrightarrow> card (dom M) < cap \<Longrightarrow>
      runs_to (ins k v) s (\<lambda>r s'. r = M k \<and> inv s' (M(k \<mapsto> v)))"
    and look_law: "inv s M \<Longrightarrow> runs_to (look k) s (\<lambda>r s'. r = M k \<and> inv s' M)"
    and del_law: "inv s M \<Longrightarrow> runs_to (del k) s (\<lambda>r s'. r = M k \<and> inv s' (M(k := None)))"
    and inv_finite: "inv s M \<Longrightarrow> finite (dom M)"
begin

text \<open>Every run of operations answers as the abstract map does.\<close>

lemma run_map_spec:
  assumes "inv s M" and "card (dom M) + insertions ops \<le> cap"
  shows "runs_to (run_map ins look del ops) s (\<lambda>rs s'.
    rs = fst (map_spec ops M) \<and> inv s' (snd (map_spec ops M)))"
  using assms
proof (induction ops M arbitrary: s rule: map_spec.induct)
  case (1 M)
  then show ?case by (simp add: wp)
next
  case (2 k v ops M)
  have "card (dom (M(k \<mapsto> v))) \<le> Suc (card (dom M))"
    using inv_finite [OF "2.prems"(1)] by (simp add: card_insert_le_m1 card_insert_if)
  then have c: "card (dom (M(k \<mapsto> v))) + insertions ops \<le> cap" using "2.prems"(2) by simp
  have "runs_to (ins k v) s (\<lambda>r s'. r = M k \<and> inv s' (M(k \<mapsto> v)))"
    using "2.prems" by (intro ins_law) simp_all
  then show ?case unfolding run_map.simps wp
    by (rule runs_to_mono)
      (rule runs_to_mono [OF "2.IH" [OF _ c]], auto simp: split_beta simp del: fun_upd_apply)
next
  case (3 k ops M)
  from look_law [OF "3.prems"(1)] show ?case unfolding run_map.simps wp
    by (rule runs_to_mono)
      (rule runs_to_mono [OF "3.IH"], use 3 in \<open>auto simp: split_beta\<close>)
next
  case (4 k ops M)
  have "card (dom (M(k := None))) \<le> card (dom M)"
    using inv_finite [OF "4.prems"(1)] by (intro card_mono) auto
  then have c: "card (dom (M(k := None))) + insertions ops \<le> cap" using "4.prems"(2) by simp
  from del_law [OF "4.prems"(1)] show ?case unfolding run_map.simps wp
    by (rule runs_to_mono)
      (rule runs_to_mono [OF "4.IH" [OF _ c]], auto simp: split_beta simp del: fun_upd_apply)
qed

end

end
