(* ===== verification/HashTableMap.thy ===== *)
theory HashTableMap
  imports HashTableSpec MapStore
begin

text \<open>
  The invariant of a hash table in memory and the laws of its operations: a table stands
  for a finite map from keys to values, and insert, lookup and remove are update, lookup
  and restriction of that map.
\<close>

section \<open>The table as a map\<close>

definition bucket_map :: "entries \<Rightarrow> 64 word \<rightharpoonup> addr" where
  "bucket_map ks = map_of (map (\<lambda>(p, kv). (kv_key kv, kv_value kv)) ks)"

definition contents :: "entries list \<Rightarrow> 64 word \<rightharpoonup> addr" where
  "contents L key = bucket_map (L ! (unat key mod length L)) key"

text \<open>Bucket \<open>i\<close> of \<open>n\<close> holds keys that hash to \<open>i\<close>, each once.\<close>

definition hashed :: "nat \<Rightarrow> nat \<Rightarrow> entries \<Rightarrow> bool" where
  "hashed n i ks \<longleftrightarrow>
     distinct (map (kv_key \<circ> snd) ks) \<and> (\<forall>(p, kv) \<in> set ks. unat (kv_key kv) mod n = i)"

text \<open>
  \<open>table s S t r bs L\<close>: the record \<open>r\<close> at \<open>t\<close> has the bucket array \<open>bs\<close>, and the entries of
  bucket \<open>i\<close> are \<open>L ! i\<close>.
\<close>

definition table :: "mem \<Rightarrow> (addr \<rightharpoonup> nodes) \<Rightarrow> addr \<Rightarrow> HashTableRecord \<Rightarrow> addr list \<Rightarrow>
    entries list \<Rightarrow> bool" where
  "table s S t r bs L \<longleftrightarrow>
     ht_recs s t = Some r \<and> ptr_arrays s (buckets r) = Some bs \<and>
     num_buckets r = of_nat (length L) \<and> 0 < length L \<and> length L < 2 ^ 32 \<and>
     length bs = length L \<and> distinct bs \<and>
     (\<forall>i < length L. chain_at s S (bs ! i) (L ! i) \<and> hashed (length L) i (L ! i))"

definition heap_ok :: "mem \<Rightarrow> (addr \<rightharpoonup> nodes) \<Rightarrow> bool" where
  "heap_ok s S \<longleftrightarrow> ll_inv s S \<and> below (kvs s) (next_addr s) \<and> below (ht_recs s) (next_addr s) \<and>
     below (ptr_arrays s) (next_addr s) \<and> below (ht_iters s) (next_addr s)"

lemma bucket_map_simps [simp]:
  "bucket_map [] = Map.empty"
  "bucket_map ((p, kv) # ks) = (bucket_map ks)(kv_key kv \<mapsto> kv_value kv)"
  "bucket_map (ks @ ks') = bucket_map ks' ++ bucket_map ks"
  by (auto simp: bucket_map_def)

lemma dom_bucket_map: "dom (bucket_map ks) = kv_key ` snd ` set ks"
  by (force simp: bucket_map_def dom_map_of_conv_image_fst image_iff split_beta)

lemma bucket_map_middle:
  assumes "distinct (map (kv_key \<circ> snd) (ks1 @ (p, kv) # ks2))"
  shows "bucket_map (ks1 @ (p, kv) # ks2) (kv_key kv) = Some (kv_value kv)"
    and "bucket_map (ks1 @ ks2) = (bucket_map (ks1 @ (p, kv) # ks2))(kv_key kv := None)"
    and "kv_key kv' = kv_key kv \<Longrightarrow> bucket_map (ks1 @ (p, kv') # ks2) =
      (bucket_map (ks1 @ (p, kv) # ks2))(kv_key kv \<mapsto> kv_value kv')"
proof -
  from assms have no: "kv_key kv \<notin> dom (bucket_map ks1)" "kv_key kv \<notin> dom (bucket_map ks2)"
    by (auto simp: dom_bucket_map image_iff)
  then show "bucket_map (ks1 @ (p, kv) # ks2) (kv_key kv) = Some (kv_value kv)"
    and "bucket_map (ks1 @ ks2) = (bucket_map (ks1 @ (p, kv) # ks2))(kv_key kv := None)"
    and "kv_key kv' = kv_key kv \<Longrightarrow> bucket_map (ks1 @ (p, kv') # ks2) =
      (bucket_map (ks1 @ (p, kv) # ks2))(kv_key kv \<mapsto> kv_value kv')"
    by (auto simp: fun_eq_iff map_add_def split: option.splits)
qed

lemma contents_upd:
  assumes "i < length L" and "bucket_map ks = (bucket_map (L ! i))(key := v)"
    and "unat key mod length L = i"
  shows "contents (L[i := ks]) = (contents L)(key := v)"
  using assms by (auto simp: contents_def fun_eq_iff nth_list_update)

lemma dom_contents:
  assumes "0 < length L" and "\<forall>i < length L. hashed (length L) i (L ! i)"
  shows "finite (dom (contents L))" "i < length L \<Longrightarrow> length (L ! i) \<le> card (dom (contents L))"
proof -
  have "dom (contents L) \<subseteq> (\<Union>ks \<in> set L. dom (bucket_map ks))"
    using assms(1) by (auto simp: contents_def dom_def intro!: bexI [of _ "L ! (_ mod length L)"])
  then show fin: "finite (dom (contents L))"
    by (rule finite_subset) (simp add: dom_bucket_map)
  show "length (L ! i) \<le> card (dom (contents L))" if i: "i < length L"
  proof -
    from assms(2) i have h: "hashed (length L) i (L ! i)" by blast
    then have len: "length (L ! i) = card (dom (bucket_map (L ! i)))"
      unfolding hashed_def dom_bucket_map image_comp by (metis distinct_card length_map set_map)
    have "key \<in> dom (contents L)" if k: "key \<in> dom (bucket_map (L ! i))" for key
    proof -
      from k h have "unat key mod length L = i"
        by (auto simp: dom_bucket_map hashed_def)
      with k show ?thesis by (simp add: contents_def dom_def)
    qed
    then have "dom (bucket_map (L ! i)) \<subseteq> dom (contents L)" by blast
    then have "card (dom (bucket_map (L ! i))) \<le> card (dom (contents L))"
      by (rule card_mono [OF fin])
    with len show ?thesis by simp
  qed
qed

section \<open>Access to a table\<close>

lemma heap_okD:
  assumes "heap_ok s S"
  shows "ll_inv s S" "below (kvs s) (next_addr s)" "below (ht_recs s) (next_addr s)"
    "below (ptr_arrays s) (next_addr s)" "below (ht_iters s) (next_addr s)"
  using assms by (simp_all add: heap_ok_def)

lemma tableD:
  assumes "table s S t r bs L"
  shows "ht_recs s t = Some r" "ptr_arrays s (buckets r) = Some bs"
    "num_buckets r = of_nat (length L)" "0 < length L" "length L < 2 ^ 32"
    "length bs = length L" "distinct bs"
    and "i < length L \<Longrightarrow> chain_at s S (bs ! i) (L ! i)"
    and "i < length L \<Longrightarrow> hashed (length L) i (L ! i)"
  using assms by (simp_all add: table_def)

text \<open>The bucket of a key, as \<open>HashKeyToBucketNum\<close> computes it on 64-bit words.\<close>

lemma unat_bucket:
  assumes "0 < n" and "n < (2 :: nat) ^ 32"
  shows "unat (of_nat n :: 64 word) = n"
    and "(of_nat n :: 64 word) \<noteq> 0"
    and "unat (key mod (of_nat n :: 64 word)) = unat key mod n"
    and "unat (ucast (key mod (of_nat n :: 64 word)) :: 32 word) = unat key mod n"
proof -
  have n: "n < 2 ^ 64" using assms(2) by simp
  then show u: "unat (of_nat n :: 64 word) = n" by (simp add: unat_of_nat)
  show nz: "(of_nat n :: 64 word) \<noteq> 0" using u assms(1) by (metis less_numeral_extra(3) unat_0)
  show m: "unat (key mod (of_nat n :: 64 word)) = unat key mod n" by (simp add: unat_mod_distrib u)
  have "unat key mod n < 2 ^ 32" using mod_less_divisor [OF assms(1), of "unat key"] assms(2) by linarith
  then show "unat (ucast (key mod (of_nat n :: 64 word)) :: 32 word) = unat key mod n"
    by (simp add: unsigned_ucast_eq m take_bit_nat_eq_self)
qed

lemma HashKeyToBucketNum_law:
  assumes "table s S t r bs L" and "ht_recs s' t = Some r'" and "num_buckets r' = num_buckets r"
  shows "HashKeyToBucketNum t key s' = Inr (key mod of_nat (length L), s')"
  using tableD [OF assms(1)] unat_bucket [OF tableD(4,5) [OF assms(1)]] assms(2,3)
  by (simp add: HashKeyToBucketNum_def prog_defs)

lemma get_bucket_law:
  assumes "table s S t r bs L" and "i < length L" and "ht_recs s' t = Some r'"
    and "buckets r' = buckets r" and "ptr_arrays s' = ptr_arrays s"
  shows "get_bucket t i s' = Inr (bs ! i, s')"
  using tableD [OF assms(1)] assms(2-5) by (simp add: get_bucket_def prog_defs)

text \<open>
  A step on one bucket keeps the table: the lists of the other buckets and the entries in
  them stay.
\<close>

lemma chain_at_cong:
  "S' l = S l \<Longrightarrow> (\<And>q kv. (q, kv) \<in> set ks \<Longrightarrow> kvs s' q = kvs s q) \<Longrightarrow>
     chain_at s' S' l ks = chain_at s S l ks"
  unfolding chain_at_def by (intro conj_cong ball_cong) (auto split: prod.splits)

lemma table_other_entry:
  assumes "table s S t r bs L" and "i < length L" "j < length L" "i \<noteq> j"
    and "(p, kv) \<in> set (L ! i)" and "(q, kv') \<in> set (L ! j)"
  shows "p \<noteq> q"
proof
  assume "p = q"
  have "kvs s p = Some kv" "kvs s q = Some kv'"
    using tableD(8) [OF assms(1,2)] tableD(8) [OF assms(1,3)] assms(5,6) unfolding chain_at_def by auto
  then have "kv = kv'" using \<open>p = q\<close> by simp
  moreover have "unat (kv_key kv) mod length L = i" "unat (kv_key kv') mod length L = j"
    using tableD(9) [OF assms(1,2)] tableD(9) [OF assms(1,3)] assms(5,6) unfolding hashed_def by auto
  ultimately show False using assms(4) by simp
qed

lemma table_update:
  assumes tab: "table s S t r bs L" and i: "i < length L"
    and "chain_at s' S' (bs ! i) ks" and "hashed (length L) i ks"
    and lists: "\<And>l. l \<noteq> bs ! i \<Longrightarrow> S' l = S l"
    and ents: "\<And>q kv. kvs s q = Some kv \<Longrightarrow> (q, kv) \<notin> set (L ! i) \<Longrightarrow> kvs s' q = Some kv"
    and "ht_recs s' t = Some r'" "buckets r' = buckets r" "num_buckets r' = num_buckets r"
    and "ptr_arrays s' = ptr_arrays s"
  shows "table s' S' t r' bs (L[i := ks])"
proof -
  note T = tableD [OF tab]
  have "chain_at s' S' (bs ! j) (L ! j)" if j: "j < length L" "j \<noteq> i" for j
  proof -
    have "bs ! j \<noteq> bs ! i" using T(6,7) i j by (simp add: nth_eq_iff_index_eq)
    moreover have "kvs s' q = kvs s q" if "(q, kv) \<in> set (L ! j)" for q kv
    proof -
      have "kvs s q = Some kv" using T(8) [OF j(1)] that unfolding chain_at_def by auto
      moreover have "(q, kv) \<notin> set (L ! i)" using table_other_entry [OF tab i j(1)] j(2) that by blast
      ultimately show ?thesis using ents by simp
    qed
    ultimately have "chain_at s' S' (bs ! j) (L ! j) = chain_at s S (bs ! j) (L ! j)"
      by (intro chain_at_cong lists)
    with T(8) [OF j(1)] show ?thesis by blast
  qed
  then have "chain_at s' S' (bs ! j) (L[i := ks] ! j) \<and> hashed (length L) j (L[i := ks] ! j)"
    if "j < length L" for j
    using that assms(3,4) T(9) by (cases "j = i") (simp_all add: i)
  then show ?thesis unfolding table_def using T(2-7) assms(7-10) by simp
qed

section \<open>Lookup\<close>

lemma runs_to_exact: "m s = Inr (x, s') \<Longrightarrow> runs_to m s Q = Q x s'"
  by (simp add: runs_to_def)

definition idle :: "HashTableRecord \<Rightarrow> bool" where
  "idle r \<longleftrightarrow> wrt r = 1 \<and> mutex r = 1 \<and> readcount r = 0"

text \<open>The answer of a lookup in the map \<open>M\<close>.\<close>

definition answer :: "(64 word \<rightharpoonup> addr) \<Rightarrow> 64 word \<Rightarrow> int \<times> HTKeyValue option" where
  "answer M key = (case M key of None \<Rightarrow> (0, None) | Some v \<Rightarrow> (1, Some \<lparr>kv_key = key, kv_value = v\<rparr>))"

lemma answer_hit:
  assumes "table s S t r bs L" and "i = unat key mod length L"
    and "hit s0 S l (L ! i) key rm res s'"
  shows "(1, map_option fst res) = answer (contents L) key"
proof -
  from assms(3) obtain ks1 p kv ks2 where ks: "L ! i = ks1 @ (p, kv) # ks2" "kv_key kv = key"
    and res: "res = Some (kv, p)" unfolding hit_def by blast
  have "i < length L" using assms(2) tableD(4) [OF assms(1)] by simp
  with tableD(9) [OF assms(1)] have "distinct (map (kv_key \<circ> snd) (L ! i))" by (simp add: hashed_def)
  from bucket_map_middle(1) [OF this [unfolded ks(1)]] have "contents L key = Some (kv_value kv)"
    using ks assms(2) by (simp add: contents_def)
  with res ks(2) show ?thesis by (simp add: answer_def)
qed

lemma answer_miss:
  assumes "key \<notin> kv_key ` snd ` set (L ! (unat key mod length L))"
  shows "(0, None) = answer (contents L) key"
  using assms by (simp add: answer_def contents_def dom_bucket_map [symmetric] domIff)

text \<open>The bucket in which a key belongs.\<close>

abbreviation bucket :: "entries list \<Rightarrow> 64 word \<Rightarrow> entries" where
  "bucket L key \<equiv> L ! (unat key mod length L)"

lemma searched_ge [simp]: "a \<le> searched a ks"
  by (simp add: searched_def)

lemma answer_code: "fst (answer M key) = (if M key = None then 0 else 1)"
  by (simp add: answer_def split: option.splits)

lemma find_answer:
  assumes "table s S t r bs L" and "find_post s0 S l (bucket L key) key rm w s'"
  shows "(fst w, map_option fst (snd w)) =
    (if search_fails s0 (bucket L key) then (-1, None) else answer (contents L) key)"
proof (cases "search_fails s0 (bucket L key)")
  case True
  with assms(2) show ?thesis by (simp add: find_post_def Let_def)
next
  case False
  show ?thesis
  proof (cases "key \<in> kv_key ` snd ` set (bucket L key)")
    case True
    with False assms(2) have "fst w = 1" and
      "hit (s0\<lparr>next_addr := searched (next_addr s0) (bucket L key)\<rparr>) S l (bucket L key) key rm (snd w) s'"
      by (auto simp: find_post_def Let_def)
    with answer_hit [OF assms(1) refl] False show ?thesis by simp
  next
    case no: False
    with False assms(2) have "w = (0, None)" by (simp add: find_post_def Let_def)
    with answer_miss [OF no] False show ?thesis by simp
  qed
qed

lemma find_unchanged:
  assumes "find_post s S l ks key False w s'"
  shows "s' = s\<lparr>next_addr := searched (next_addr s) ks\<rparr>"
  using assms by (auto simp: find_post_def hit_def Let_def split: if_splits)

lemma LookupHashTable_law:
  assumes heap: "heap_ok s S" and tab: "table s S t r bs L" and idle: "idle r"
  shows "runs_to (LookupHashTable t key) s (\<lambda>res s'.
    (\<exists>n \<ge> next_addr s. s' = s\<lparr>next_addr := n\<rparr>) \<and>
    res = (if search_fails s (bucket L key) then (-1, None) else answer (contents L) key))"
proof -
  note T = tableD [OF tab]
  obtain nb ne b where r: "r = \<lparr>num_buckets = nb, num_elements = ne, buckets = b, wrt = Suc 0,
      mutex = Suc 0, readcount = 0\<rparr>" using idle by (cases r) (simp add: idle_def)
  let ?i = "unat key mod length L"
  let ?r = "\<lparr>num_buckets = nb, num_elements = ne, buckets = b, wrt = 0, mutex = Suc 0, readcount = 1\<rparr>"
  let ?s = "s\<lparr>ht_recs := (ht_recs s)(t \<mapsto> ?r)\<rparr>"
  have i: "?i < length L" using T(4) by simp
  have key: "runs_to (HashKeyToBucketNum t key) ?s Q = Q (key mod of_nat (length L)) ?s" for Q
    by (rule runs_to_exact, rule HashKeyToBucketNum_law [OF tab, where r' = ?r]) (simp_all add: r)
  have bucket: "runs_to (get_bucket t ?i) ?s Q = Q (bs ! ?i) ?s" for Q
    by (rule runs_to_exact, rule get_bucket_law [OF tab i, where r' = ?r]) (simp_all add: r)
  have inv: "ll_inv ?s S" using heap_okD(1) [OF heap] by (subst ll_inv_cong [of _ s]) simp_all
  have "chain_at ?s S (bs ! ?i) (L ! ?i)" using T(8) [OF i] by (simp add: chain_at_def)
  from find_kv_law [OF inv this, of "next_addr s" key False] heap_okD(2) [OF heap]
  have find: "runs_to (find_kv (bs ! ?i) key False) ?s (find_post ?s S (bs ! ?i) (L ! ?i) key False)"
    by simp
  have undo: "(ht_recs s)(t \<mapsto> r) = ht_recs s" using T(1) by (simp add: fun_upd_idem)
  have after: "runs_to (case w of (code, found) \<Rightarrow>
      seq (wait_mutex t) (seq (wr_ht t (readcount_update (\<lambda>n. n - 1)))
     (seq (bnd (rd_ht t) (\<lambda>r. whenM (readcount r = 0) (post_wrt t)))
     (seq (post_mutex t) (ret (code, map_option fst found)))))) u (\<lambda>res s'.
    (\<exists>n \<ge> next_addr s. s' = s\<lparr>next_addr := n\<rparr>) \<and>
    res = (if search_fails s (bucket L key) then (-1, None) else answer (contents L) key))"
    if u: "find_post ?s S (bs ! ?i) (L ! ?i) key False w u" for w u
    using find_unchanged [OF u] find_answer [OF tab u] undo
    by (cases w) (auto simp: wait_mutex_def post_mutex_def post_wrt_def wp r search_fails_def
      intro!: exI [of _ "searched (next_addr s) (bucket L key)"])
  show ?thesis
    using T(1) unfolding LookupHashTable_def wp
    by (simp add: wait_mutex_def [of t] wait_wrt_def post_mutex_def [of t] wp unat_bucket [OF T(4,5)] key bucket r split del: if_split)
      (rule runs_to_mono [OF find], use after in \<open>simp add: wait_mutex_def post_mutex_def split del: if_split\<close>)
qed

section \<open>What an operation leaves alone\<close>

definition pointers :: "entries list \<Rightarrow> addr set" where
  "pointers L = (\<Union>ks \<in> set L. fst ` set ks)"

text \<open>
  \<open>ht_step s S t bs L s' S'\<close>: an operation on the table at \<open>t\<close> with buckets \<open>bs\<close> and entries
  \<open>L\<close> may allocate, and touches no other table, no list outside \<open>bs\<close>, no entry outside \<open>L\<close>
  and no object of another type.
\<close>

definition ht_frame :: "mem \<Rightarrow> mem \<Rightarrow> bool" where
  "ht_frame s s' \<longleftrightarrow> (\<exists>n N H K R. next_addr s \<le> n \<and>
     s' = s\<lparr>next_addr := n, ll_nodes := N, ll_lists := H, ll_iters := ll_iters s, kvs := K, ht_recs := R\<rparr>)"

definition ht_step :: "mem \<Rightarrow> (addr \<rightharpoonup> nodes) \<Rightarrow> addr \<Rightarrow> addr list \<Rightarrow> entries list \<Rightarrow>
    mem \<Rightarrow> (addr \<rightharpoonup> nodes) \<Rightarrow> bool" where
  "ht_step s S t bs L s' S' \<longleftrightarrow> ht_frame s s' \<and>
     (\<forall>l. l \<notin> set bs \<longrightarrow> S' l = S l) \<and> (\<forall>u. u \<noteq> t \<longrightarrow> ht_recs s' u = ht_recs s u) \<and>
     (\<forall>q kv. kvs s q = Some kv \<longrightarrow> q \<notin> pointers L \<longrightarrow> kvs s' q = Some kv)"

lemma ht_frameI:
  "s' = s\<lparr>next_addr := n, ll_nodes := N, ll_lists := H, ll_iters := ll_iters s, kvs := K, ht_recs := R\<rparr> \<Longrightarrow>
     next_addr s \<le> n \<Longrightarrow> ht_frame s s'"
  unfolding ht_frame_def by blast

lemma ht_frame_next_addr: "next_addr s \<le> n \<Longrightarrow> ht_frame s (s\<lparr>next_addr := n\<rparr>)"
  by (rule ht_frameI [where N = "ll_nodes s" and H = "ll_lists s"
        and K = "kvs s" and R = "ht_recs s"]) simp_all

lemma ht_step_next_addr: "next_addr s \<le> n \<Longrightarrow> ht_step s S t bs L (s\<lparr>next_addr := n\<rparr>) S"
  by (simp add: ht_step_def ht_frame_next_addr)

lemma heap_ok_next_addr: "heap_ok s S \<Longrightarrow> next_addr s \<le> n \<Longrightarrow> heap_ok (s\<lparr>next_addr := n\<rparr>) S"
  by (auto simp: heap_ok_def ll_inv_next_addr intro: below_mono)

lemma table_cong:
  "ht_recs s' t = ht_recs s t \<Longrightarrow> ptr_arrays s' = ptr_arrays s \<Longrightarrow> kvs s' = kvs s \<Longrightarrow>
     table s' S t r bs L = table s S t r bs L"
  by (simp add: table_def chain_at_def)

lemma bucket_pointers:
  assumes "table s S t r bs L" and "i < length L" and "L ! i = ks1 @ (p, kv) # ks2"
  shows "p \<notin> fst ` set (ks1 @ ks2)" and "kvs s p = Some kv" and "p \<in> pointers L"
    and "distinct (map (kv_key \<circ> snd) (ks1 @ (p, kv) # ks2))"
    and "hashed (length L) i (ks1 @ ks2)"
proof -
  note T = tableD [OF assms(1)]
  have kvs: "kvs s q = Some kv'" if "(q, kv') \<in> set (L ! i)" for q kv'
    using T(8) [OF assms(2)] that by (auto simp: chain_at_def)
  then show "kvs s p = Some kv" by (simp add: assms(3))
  show d: "distinct (map (kv_key \<circ> snd) (ks1 @ (p, kv) # ks2))"
    using T(9) [OF assms(2)] by (simp add: assms(3) hashed_def)
  show "p \<notin> fst ` set (ks1 @ ks2)"
  proof
    assume "p \<in> fst ` set (ks1 @ ks2)"
    then obtain kv' where kv': "(p, kv') \<in> set (ks1 @ ks2)" by force
    with kvs [of p kv'] kvs [of p kv] have "kv' = kv" unfolding assms(3) by auto
    with kv' d show False by (force simp: image_iff)
  qed
  show "p \<in> pointers L" unfolding pointers_def
    by (rule UN_I [OF nth_mem [OF assms(2)]]) (simp add: assms(3))
  show "hashed (length L) i (ks1 @ ks2)"
    using T(9) [OF assms(2)] by (auto simp: assms(3) hashed_def)
qed

section \<open>Remove\<close>

text \<open>The table after an operation, at the same address and with the same bucket array.\<close>

definition becomes :: "mem \<Rightarrow> (addr \<rightharpoonup> nodes) \<Rightarrow> addr \<Rightarrow> HashTableRecord \<Rightarrow> addr list \<Rightarrow>
    entries list \<Rightarrow> (64 word \<rightharpoonup> addr) \<Rightarrow> 64 word \<Rightarrow> mem \<Rightarrow> bool" where
  "becomes s S t r bs L M cnt s' \<longleftrightarrow>
     (\<exists>S' r' L'. heap_ok s' S' \<and> table s' S' t r' bs L' \<and> idle r' \<and> buckets r' = buckets r \<and>
        length L' = length L \<and> contents L' = M \<and> num_elements r' = cnt \<and>
        pointers L' \<subseteq> pointers L \<union> {q. kvs s q = None} \<and>
        ht_step s S t bs L s' S')"

lemma becomes_same:
  assumes "heap_ok s S" and "table s S t r bs L" and "idle r" and "next_addr s \<le> n"
  shows "becomes s S t r bs L (contents L) (num_elements r) (s\<lparr>next_addr := n\<rparr>)"
  unfolding becomes_def
  using assms heap_ok_next_addr [OF assms(1,4)] ht_step_next_addr [OF assms(4)]
    table_cong [of "s\<lparr>next_addr := n\<rparr>" t s]
  by (intro exI [of _ S] exI [of _ r] exI [of _ L]) simp

lemma pointers_update: "pointers (L[i := ks]) \<subseteq> pointers L \<union> fst ` set ks"
  unfolding pointers_def using set_update_subset_insert [of L i ks] by blast

lemma pointers_bucket: "i < length L \<Longrightarrow> fst ` set (L ! i) \<subseteq> pointers L"
  unfolding pointers_def by (rule UN_upper) (rule nth_mem)

text \<open>An operation that changes the entries of one bucket, in memory and in the map.\<close>

lemma write_becomes:
  assumes heap: "heap_ok s S" and tab: "table s S t r bs L" and i: "i < length L"
    and s': "s' = s\<lparr>next_addr := n, ll_nodes := N, ll_lists := H, ll_iters := ll_iters s,
      kvs := K, ht_recs := (ht_recs s)(t \<mapsto> r')\<rparr>"
    and n: "next_addr s \<le> n" "below K n"
    and ns: "map snd ns = map fst ks" "ll_inv s' (S(bs ! i \<mapsto> ns))"
    and ks: "\<And>q kv. (q, kv) \<in> set ks \<Longrightarrow> K q = Some kv" "hashed (length L) i ks"
    and ents: "\<And>q kv. kvs s q = Some kv \<Longrightarrow> (q, kv) \<notin> set (L ! i) \<Longrightarrow> K q = Some kv"
    and ptrs: "\<And>q. q \<in> fst ` set ks \<Longrightarrow> q \<in> pointers L \<or> kvs s q = None"
    and map: "bucket_map ks = (bucket_map (L ! i))(key := v)" "unat key mod length L = i"
    and r': "idle r'" "buckets r' = buckets r" "num_buckets r' = num_buckets r"
  shows "becomes s S t r bs L ((contents L)(key := v)) (num_elements r') s'"
proof -
  note T = tableD [OF tab]
  let ?S = "S(bs ! i \<mapsto> ns)" and ?L = "L[i := ks]"
  have "table s' ?S t r' bs ?L"
  proof (rule table_update [OF tab i])
    show "chain_at s' ?S (bs ! i) ks"
      unfolding chain_at_def using ns(1) ks(1) by (intro conjI exI [of _ ns]) (auto simp: s')
    show "kvs s' q = Some kv" if "kvs s q = Some kv" "(q, kv) \<notin> set (L ! i)" for q kv
      using ents [OF that] by (simp add: s')
  qed (use ks(2) r' in \<open>simp_all add: s'\<close>)
  moreover have "contents ?L = (contents L)(key := v)" by (rule contents_upd [OF i map])
  moreover have "pointers ?L \<subseteq> pointers L \<union> {q. kvs s q = None}"
    by (rule subset_trans [OF pointers_update Un_least [OF Un_upper1 subsetI]])
      (use ptrs in \<open>simp only: Un_iff mem_Collect_eq\<close>)
  moreover have "heap_ok s' ?S"
    using heap_okD(3-5) [OF heap, THEN below_mono, OF n(1)] T(1) n(2) ns(2)
    by (simp add: heap_ok_def s')
  moreover have "ht_step s S t bs L s' ?S"
  proof -
    have "(q, kv) \<notin> set (L ! i)" if "q \<notin> pointers L" for q kv
      using pointers_bucket [OF i] that image_eqI [of q fst "(q, kv)" "set (L ! i)"] by auto
    then have "kvs s' q = Some kv" if "kvs s q = Some kv" "q \<notin> pointers L" for q kv
      using ents that by (simp add: s')
    moreover have "bs ! i \<in> set bs" using T(6) i by simp
    moreover have "ht_frame s s'"
      by (rule ht_frameI [OF s' n(1)])
    ultimately show ?thesis unfolding ht_step_def by (auto simp: s')
  qed
  ultimately show ?thesis unfolding becomes_def using r'
    by (intro exI [of _ ?S] exI [of _ r'] exI [of _ ?L]) simp
qed

lemma unlinked_becomes:
  assumes heap: "heap_ok s S" and tab: "table s S t r bs L"
    and i: "i < length L" "L ! i = ks1 @ (p, kv) # ks2" and n: "next_addr s \<le> n"
    and u: "unlinked (s\<lparr>next_addr := n, ht_recs := R\<rparr>) S (bs ! i) p (map fst (ks1 @ ks2)) u"
    and r': "idle r'" "buckets r' = buckets r" "num_buckets r' = num_buckets r"
  shows "becomes s S t r bs L ((contents L)(kv_key kv := None)) (num_elements r')
    (u\<lparr>ht_recs := (ht_recs s)(t \<mapsto> r')\<rparr>)"
proof -
  note T = tableD [OF tab] and P = bucket_pointers [OF tab i]
  from u obtain ns N D where ns: "map snd ns = map fst (ks1 @ ks2)" "ll_inv u (S(bs ! i \<mapsto> ns))"
    and u: "u = s\<lparr>next_addr := n, ht_recs := R, ll_nodes := N, ll_lists := D, kvs := (kvs s)(p := None)\<rparr>"
    unfolding unlinked_def by auto
  show ?thesis
  proof (rule write_becomes [OF heap tab i(1) _ n, where N = N and H = D and K = "(kvs s)(p := None)"
        and ks = "ks1 @ ks2" and ns = ns])
    show "ll_inv (u\<lparr>ht_recs := (ht_recs s)(t \<mapsto> r')\<rparr>) (S(bs ! i \<mapsto> ns))"
      using ns(2) by (subst ll_inv_cong [of _ u]) simp_all
    show "((kvs s)(p := None)) q = Some kv'" if "(q, kv') \<in> set (ks1 @ ks2)" for q kv'
      using T(8) [OF i(1)] P(1) that image_eqI [of q fst "(q, kv')" "set (ks1 @ ks2)"]
      by (auto simp: chain_at_def i(2))
    show "((kvs s)(p := None)) q = Some kv'" if "kvs s q = Some kv'" "(q, kv') \<notin> set (L ! i)" for q kv'
      using that P(2) i(2) by auto
    show "bucket_map (ks1 @ ks2) = (bucket_map (L ! i))(kv_key kv := None)"
      using bucket_map_middle(2) [OF P(4)] by (simp add: i(2))
    show "unat (kv_key kv) mod length L = i" using T(9) [OF i(1)] by (simp add: i(2) hashed_def)
    show "q \<in> pointers L \<or> kvs s q = None" if "q \<in> fst ` set (ks1 @ ks2)" for q
      using that pointers_bucket [OF i(1)] by (auto simp: i(2))
    show "below ((kvs s)(p := None)) n" using heap_okD(2) [OF heap, THEN below_mono, OF n] by simp
  qed (use P(5) r' ns(1) in \<open>simp_all add: u\<close>)
qed

text \<open>The state in which an operation that writes searches its bucket.\<close>

lemma wait_wrt_law:
  assumes "ht_recs s t = Some r" and "idle r"
  shows "runs_to (wait_wrt t) s Q = Q () (s\<lparr>ht_recs := (ht_recs s)(t \<mapsto> r\<lparr>wrt := 0\<rparr>)\<rparr>)"
  using assms by (cases r) (simp add: wait_wrt_def wp idle_def)

lemma searching:
  assumes heap: "heap_ok s S" and tab: "table s S t r bs L"
    and s1: "s1 = s\<lparr>ht_recs := (ht_recs s)(t \<mapsto> r1)\<rparr>"
    and r1: "num_buckets r1 = num_buckets r" "buckets r1 = buckets r"
  shows "runs_to (HashKeyToBucketNum t key) s1 P = P (key mod of_nat (length L)) s1"
    and "runs_to (get_bucket t (unat key mod length L)) s1 Q = Q (bs ! (unat key mod length L)) s1"
    and "runs_to (find_kv (bs ! (unat key mod length L)) key rm) s1
      (find_post s1 S (bs ! (unat key mod length L)) (L ! (unat key mod length L)) key rm)"
proof -
  note T = tableD [OF tab]
  have i: "unat key mod length L < length L" using T(4) by simp
  show "runs_to (HashKeyToBucketNum t key) s1 P = P (key mod of_nat (length L)) s1"
    by (rule runs_to_exact, rule HashKeyToBucketNum_law [OF tab, where r' = r1]) (simp_all add: s1 r1)
  show "runs_to (get_bucket t (unat key mod length L)) s1 Q = Q (bs ! (unat key mod length L)) s1"
    by (rule runs_to_exact, rule get_bucket_law [OF tab i, where r' = r1]) (simp_all add: s1 r1)
  have inv: "ll_inv s1 S" using heap_okD(1) [OF heap] by (subst ll_inv_cong [of _ s]) (simp_all add: s1)
  show "runs_to (find_kv (bs ! (unat key mod length L)) key rm) s1
      (find_post s1 S (bs ! (unat key mod length L)) (L ! (unat key mod length L)) key rm)"
    by (rule find_kv_law [OF inv]) (use T(8) [OF i] heap_okD(2) [OF heap] in \<open>simp_all add: chain_at_def s1\<close>)
qed

lemma RemoveFromHashTable_law:
  assumes heap: "heap_ok s S" and tab: "table s S t r bs L" and idle: "idle r"
  shows "runs_to (RemoveFromHashTable t key) s (\<lambda>res s'.
    if search_fails s (bucket L key) then res = (-1, None) \<and> becomes s S t r bs L (contents L) (num_elements r) s'
    else res = answer (contents L) key \<and>
      becomes s S t r bs L ((contents L)(key := None))
        (if contents L key = None then num_elements r else num_elements r - 1) s')" (is "runs_to _ _ ?Q")
proof -
  note T = tableD [OF tab]
  let ?i = "unat key mod length L"
  let ?s = "s\<lparr>ht_recs := (ht_recs s)(t \<mapsto> r\<lparr>wrt := 0\<rparr>)\<rparr>"
  have r1: "num_buckets (r\<lparr>wrt := 0\<rparr>) = num_buckets r" "buckets (r\<lparr>wrt := 0\<rparr>) = buckets r" by simp_all
  note F = searching [OF heap tab refl r1, where key = key]
  have i: "?i < length L" using T(4) by simp
  have undo: "(ht_recs s)(t \<mapsto> r) = ht_recs s" "wrt_update Suc (r\<lparr>wrt := 0\<rparr>) = r"
    using T(1) idle by (simp add: fun_upd_idem, cases r, simp add: idle_def)
  have miss: "runs_to (post_wrt t) (?s\<lparr>next_addr := n\<rparr>) (\<lambda>_ s'. s' = s\<lparr>next_addr := n\<rparr>)" for n
    using undo by (simp add: post_wrt_def wp)
  have after: "runs_to (case w of (success, found) \<Rightarrow>
      seq (whenM (success = 1) (wr_ht t (num_elements_update (\<lambda>n. n - 1))))
     (seq (post_wrt t) (ret (success, map_option fst found)))) u ?Q"
    if u: "find_post ?s S (bs ! ?i) (L ! ?i) key True w u" for w u
  proof (cases "fst w = 1")
    case False
    let ?n = "searched (next_addr s) (L ! ?i)"
    have w: "u = ?s\<lparr>next_addr := ?n\<rparr>" using u False by (auto simp: find_post_def Let_def split: if_splits)
    have same: "becomes s S t r bs L (contents L) (num_elements r) (s\<lparr>next_addr := ?n\<rparr>)"
      by (rule becomes_same [OF heap tab idle searched_ge])
    have ans: "(fst w, map_option fst (snd w)) = (if search_fails s (L ! ?i) then (-1, None) else answer (contents L) key)"
      using find_answer [OF tab u] by (simp add: search_fails_def)
    then have none: "contents L key = None" if "\<not> search_fails s (L ! ?i)"
      using that False by (metis answer_code fst_conv)
    have upd: "(contents L)(key := None) = contents L" if "contents L key = None" using that by (simp add: fun_upd_idem)
    show ?thesis
      using False w same ans none upd undo
      by (cases w) (auto simp: wp post_wrt_def fun_upd_idem)
  next
    case True
    define n where "n = searched (next_addr s) (L ! ?i)"
    have n: "n \<ge> next_addr s" by (simp add: n_def)
    from True u obtain ks1 p kv ks2 where
      ks: "L ! ?i = ks1 @ (p, kv) # ks2" "kv_key kv = key" and
      un: "unlinked (?s\<lparr>next_addr := n\<rparr>) S (bs ! ?i) p (map fst (ks1 @ ks2)) u"
      unfolding n_def by (auto simp: find_post_def hit_def Let_def split: if_splits)
    let ?r = "r\<lparr>num_elements := num_elements r - 1\<rparr>"
    from un have R: "ht_recs u = (ht_recs s)(t \<mapsto> r\<lparr>wrt := 0\<rparr>)" by (auto simp: unlinked_def)
    have "num_elements_update (\<lambda>n. n - 1) (r\<lparr>wrt := 0\<rparr>)\<lparr>wrt := 1\<rparr> = ?r"
      using idle by (cases r) (simp add: idle_def)
    have "?s\<lparr>next_addr := n\<rparr> = s\<lparr>next_addr := n, ht_recs := (ht_recs s)(t \<mapsto> r\<lparr>wrt := 0\<rparr>)\<rparr>"
      by (cases s) simp
    with un have un': "unlinked (s\<lparr>next_addr := n, ht_recs := (ht_recs s)(t \<mapsto> r\<lparr>wrt := 0\<rparr>)\<rparr>) S (bs ! ?i) p
        (map fst (ks1 @ ks2)) u" by simp
    have "becomes s S t r bs L ((contents L)(kv_key kv := None)) (num_elements ?r)
        (u\<lparr>ht_recs := (ht_recs s)(t \<mapsto> ?r)\<rparr>)"
      by (rule unlinked_becomes [OF heap tab i ks(1) n un']) (use idle in \<open>simp_all add: idle_def\<close>)
    moreover have "wrt_update Suc (num_elements_update (\<lambda>n. n - 1) (r\<lparr>wrt := 0\<rparr>)) = ?r"
      using idle by (cases r) (simp add: idle_def)
    moreover have nf: "\<not> search_fails s (L ! ?i)" and w: "(1, map_option fst (snd w)) = answer (contents L) key"
      using find_answer [OF tab u] True by (auto simp: search_fails_def split: if_splits)
    moreover have "contents L key \<noteq> None" using w by (metis answer_code fst_conv zero_neq_one)
    ultimately show ?thesis using True ks(2)
      by (cases w) (auto simp: wp post_wrt_def R)
  qed
  show ?thesis
    unfolding RemoveFromHashTable_def wp wait_wrt_law [OF T(1) idle] F(1) unat_bucket(3) [OF T(4,5)] F(2)
    by (rule runs_to_mono [OF F(3) [of True]]) (rule after)
qed

lemma ll_frameE:
  assumes "ll_frame s s'"
  obtains m N H where "s' = s\<lparr>next_addr := m, ll_nodes := N, ll_lists := H\<rparr>" and "next_addr s \<le> m"
  using assms unfolding ll_frame_def
  by (elim conjE) (rule that [where m = "next_addr s'" and N = "ll_nodes s'" and H = "ll_lists s'"]; assumption)

section \<open>Insert\<close>

text \<open>
  The result of an insertion: an old entry for the key is replaced and returned, a new one is
  counted; when memory is out nothing is inserted and the result is 0. When it was the new entry
  or its node that could not be allocated, the counter has already been incremented.
\<close>

definition entry_fails :: "mem \<Rightarrow> entries \<Rightarrow> bool" where
  "entry_fails s ks \<longleftrightarrow> (let a = searched (next_addr s) ks in oom s (Suc a) \<or> oom s (Suc (Suc a)))"

definition inserted :: "mem \<Rightarrow> (addr \<rightharpoonup> nodes) \<Rightarrow> addr \<Rightarrow> HashTableRecord \<Rightarrow> addr list \<Rightarrow>
    entries list \<Rightarrow> HTKeyValue \<Rightarrow> int \<times> HTKeyValue option \<Rightarrow> mem \<Rightarrow> bool" where
  "inserted s S t r bs L kv res s' \<longleftrightarrow>
     (if search_fails s (bucket L (kv_key kv)) then
        res = (0, None) \<and> becomes s S t r bs L (contents L) (num_elements r) s'
      else case contents L (kv_key kv) of
        Some old \<Rightarrow>
          res = (2, Some \<lparr>kv_key = kv_key kv, kv_value = old\<rparr>) \<and>
          becomes s S t r bs L ((contents L)(kv_key kv \<mapsto> kv_value kv)) (num_elements r) s'
      | None \<Rightarrow>
          if entry_fails s (bucket L (kv_key kv)) then
            res = (0, None) \<and> becomes s S t r bs L (contents L) (num_elements r + 1) s'
          else
            res = (1, None) \<and>
            becomes s S t r bs L ((contents L)(kv_key kv \<mapsto> kv_value kv)) (num_elements r + 1) s')"

lemma no_oom_fails: "(\<And>n. \<not> oom s n) \<Longrightarrow> \<not> search_fails s ks \<and> \<not> entry_fails s ks"
  by (simp add: search_fails_def entry_fails_def Let_def)

lemma insert_replaces:
  assumes heap: "heap_ok s S" and tab: "table s S t r bs L" and idle: "idle (r\<lparr>wrt := 1\<rparr>)"
    and i: "i < length L" "L ! i = ks1 @ (p, kv0) # ks2" "unat key mod length L = i" "kv_key kv0 = key"
    and n: "next_addr s \<le> n"
  shows "becomes s S t r bs L ((contents L)(key \<mapsto> v)) (num_elements r)
    (s\<lparr>next_addr := n, kvs := (kvs s)(p \<mapsto> kv0\<lparr>kv_value := v\<rparr>),
       ht_recs := (ht_recs s)(t \<mapsto> r\<lparr>wrt := 1\<rparr>)\<rparr>)" (is "becomes _ _ _ _ _ _ _ _ ?s")
proof -
  note T = tableD [OF tab] and P = bucket_pointers [OF tab i(1,2)]
  let ?kv = "kv0\<lparr>kv_value := v\<rparr>" and ?ks = "ks1 @ (p, kv0\<lparr>kv_value := v\<rparr>) # ks2"
  obtain ns where ns: "S (bs ! i) = Some ns" "map snd ns = map fst (L ! i)"
    using T(8) [OF i(1)] by (auto simp: chain_at_def)
  have S: "S(bs ! i \<mapsto> ns) = S" using ns(1) by (simp add: fun_upd_idem)
  have "becomes s S t r bs L ((contents L)(key := Some v)) (num_elements (r\<lparr>wrt := 1\<rparr>)) ?s"
  proof (rule write_becomes [OF heap tab i(1) _ n, where N = "ll_nodes s" and H = "ll_lists s"
        and K = "(kvs s)(p \<mapsto> ?kv)" and ks = ?ks and ns = ns])
    show "ll_inv ?s (S(bs ! i \<mapsto> ns))"
      unfolding S using ll_inv_next_addr [OF heap_okD(1) [OF heap] n]
      by (subst ll_inv_cong [of _ "s\<lparr>next_addr := n\<rparr>"]) simp_all
    show "map snd ns = map fst ?ks" using ns(2) by (simp add: i(2))
    show "((kvs s)(p \<mapsto> ?kv)) q = Some kv'" if "(q, kv') \<in> set ?ks" for q kv'
      using T(8) [OF i(1)] P(1) that image_eqI [of q fst "(q, kv')" "set (ks1 @ ks2)"]
      by (auto simp: chain_at_def i(2))
    show "((kvs s)(p \<mapsto> ?kv)) q = Some kv'" if "kvs s q = Some kv'" "(q, kv') \<notin> set (L ! i)" for q kv'
      using that P(2) i(2) by auto
    show "bucket_map ?ks = (bucket_map (L ! i))(key := Some v)"
      using bucket_map_middle(3) [OF P(4), of ?kv] by (simp add: i(2,4))
    show "hashed (length L) i ?ks" using T(9) [OF i(1)] by (simp add: hashed_def i(2))
    show "q \<in> pointers L \<or> kvs s q = None" if "q \<in> fst ` set ?ks" for q
      using that pointers_bucket [OF i(1)] by (auto simp: i(2))
    show "below ((kvs s)(p \<mapsto> ?kv)) n"
      using heap_okD(2) [OF heap, THEN below_mono, OF n] P(2) by simp
  qed (use i(3) idle in simp_all)
  then show ?thesis by simp
qed

lemma insert_fails:
  assumes heap: "heap_ok s S" and tab: "table s S t r bs L"
    and s': "s' = s\<lparr>next_addr := n, kvs := K, ht_recs := (ht_recs s)(t \<mapsto> r')\<rparr>"
    and n: "next_addr s \<le> n" "below K n" and K: "\<And>q kv. kvs s q = Some kv \<Longrightarrow> K q = Some kv"
    and r': "idle r'" "buckets r' = buckets r" "num_buckets r' = num_buckets r"
  shows "becomes s S t r bs L (contents L) (num_elements r') s'"
proof -
  note T = tableD [OF tab]
  obtain ns where ns: "S (bs ! 0) = Some ns" "map snd ns = map fst (L ! 0)"
    using T(8) [OF T(4)] by (auto simp: chain_at_def)
  have S: "S(bs ! 0 \<mapsto> ns) = S" using ns(1) by (simp add: fun_upd_idem)
  have "becomes s S t r bs L ((contents L)(0 := contents L 0)) (num_elements r') s'"
  proof (rule write_becomes [OF heap tab T(4) _ n, where N = "ll_nodes s" and H = "ll_lists s"
        and ks = "L ! 0" and ns = ns])
    show "ll_inv s' (S(bs ! 0 \<mapsto> ns))"
      unfolding S s' using ll_inv_next_addr [OF heap_okD(1) [OF heap] n(1)]
      by (subst ll_inv_cong [of _ "s\<lparr>next_addr := n\<rparr>"]) simp_all
    show "K q = Some kv'" if "(q, kv') \<in> set (L ! 0)" for q kv'
      using T(8) [OF T(4)] that K by (auto simp: chain_at_def)
    show "bucket_map (L ! 0) = (bucket_map (L ! 0))(0 := contents L 0)"
      by (simp add: contents_def fun_upd_idem)
    show "q \<in> pointers L \<or> kvs s q = None" if "q \<in> fst ` set (L ! 0)" for q
      using that pointers_bucket [OF T(4)] by auto
  qed (use ns K r' T(9) [OF T(4)] in \<open>simp_all add: s'\<close>)
  then show ?thesis by simp
qed

lemma insert_adds:
  assumes heap: "heap_ok s S" and tab: "table s S t r bs L" and idle: "idle (r\<lparr>wrt := 1\<rparr>)"
    and i: "i < length L" "unat (kv_key kv) mod length L = i" and new: "kv_key kv \<notin> kv_key ` snd ` set (L ! i)"
    and n: "next_addr s \<le> n" and ns: "S (bs ! i) = Some ns"
    and u: "ll_inv u (S(bs ! i \<mapsto> (b, Suc n) # ns))"
      "u = s\<lparr>next_addr := m, kvs := (kvs s)(Suc n \<mapsto> kv), ht_recs := R, ll_nodes := N, ll_lists := H\<rparr>"
      "Suc n \<le> m"
  shows "becomes s S t r bs L ((contents L)(kv_key kv \<mapsto> kv_value kv)) (num_elements r + 1)
    (u\<lparr>ht_recs := (ht_recs s)(t \<mapsto> r\<lparr>wrt := 1, num_elements := num_elements r + 1\<rparr>)\<rparr>)"
    (is "becomes _ _ _ _ _ _ _ _ ?s")
proof -
  note T = tableD [OF tab]
  let ?K = "(kvs s)(Suc n \<mapsto> kv)" and ?ks = "(Suc n, kv) # L ! i"
  have fresh: "kvs s (Suc n) = None"
    by (rule below_fresh [OF heap_okD(2) [OF heap]]) (use n in simp)
  have snd_ns: "map snd ns = map fst (L ! i)" using T(8) [OF i(1)] ns by (auto simp: chain_at_def)
  have "becomes s S t r bs L ((contents L)(kv_key kv := Some (kv_value kv)))
      (num_elements (r\<lparr>wrt := 1, num_elements := num_elements r + 1\<rparr>)) ?s"
  proof (rule write_becomes [OF heap tab i(1), where n = m and N = N and H = H and K = ?K
        and ks = ?ks and ns = "(b, Suc n) # ns"])
    show "ll_inv ?s (S(bs ! i \<mapsto> (b, Suc n) # ns))" using u(1) by (subst ll_inv_cong [of _ u]) simp_all
    show "?K q = Some kv'" if "(q, kv') \<in> set ?ks" for q kv'
      using T(8) [OF i(1)] that fresh by (auto simp: chain_at_def)
    show "?K q = Some kv'" if "kvs s q = Some kv'" "(q, kv') \<notin> set (L ! i)" for q kv'
      using that fresh by auto
    show "q \<in> pointers L \<or> kvs s q = None" if "q \<in> fst ` set ?ks" for q
      using that pointers_bucket [OF i(1)] fresh by auto
    show "hashed (length L) i ?ks" using T(9) [OF i(1)] new i(2) by (auto simp: hashed_def image_comp)
    show "below ?K m"
      using below_mono [OF heap_okD(2) [OF heap], of m] n u(3) by simp
  qed (use n u(3) i(2) idle snd_ns in \<open>simp_all add: u(2) idle_def\<close>)
  then show ?thesis by simp
qed

text \<open>The branch of \<open>insert_locked\<close> that makes a new entry.\<close>

lemma insert_new_law:
  assumes heap: "heap_ok s S" and tab: "table s S t r bs L"
    and idle: "idle (r\<lparr>wrt := 1\<rparr>)" "wrt r = 0"
    and i: "i < length L" "unat (kv_key kv) mod length L = i" and new: "kv_key kv \<notin> kv_key ` snd ` set (L ! i)"
    and n: "n = searched (next_addr s) (L ! i)" "\<not> search_fails s (L ! i)" and room: "Suc (card (dom (contents L))) < 2 ^ 64"
  shows "runs_to (seq (wr_ht t (num_elements_update (\<lambda>n. n + 1)))
       (bnd (malloc_obj kvs kvs_update kv) (\<lambda>newEntry.
        if newEntry = NULL then ret (0, None)
        else bnd (PushLinkedList (bs ! i) newEntry) (\<lambda>b. ret (of_bool b, None)))))
     (s\<lparr>next_addr := n\<rparr>)
     (\<lambda>res u. runs_to (post_wrt t) u (\<lambda>_. inserted s S t r bs L kv res))"
proof -
  note T = tableD [OF tab]
  obtain ns where ns: "S (bs ! i) = Some ns" "map snd ns = map fst (L ! i)"
    using T(8) [OF i(1)] by (auto simp: chain_at_def)
  have none: "contents L (kv_key kv) = None"
    using new i(2) by (simp add: contents_def dom_bucket_map [symmetric] domIff)
  let ?r = "r\<lparr>wrt := 1, num_elements := num_elements r + 1\<rparr>"
  let ?r1 = "num_elements_update (\<lambda>n. n + 1) r"
  let ?u = "s\<lparr>ht_recs := (ht_recs s)(t \<mapsto> ?r1), next_addr := Suc n, kvs := (kvs s)(Suc n \<mapsto> kv)\<rparr>"
  have rec: "wrt_update Suc ?r1 = ?r" using idle by (cases r) (simp add: idle_def)
  have idle': "idle ?r" using idle by (simp add: idle_def)
  have le: "next_addr s \<le> n" using n(1) by simp
  have fresh: "kvs s (Suc n) = None"
    by (rule below_fresh [OF heap_okD(2) [OF heap]]) (use le in simp)
  have ins: "inserted s S t r bs L kv res s' \<longleftrightarrow> (if oom s (Suc n) \<or> oom s (Suc (Suc n))
      then res = (0, None) \<and> becomes s S t r bs L (contents L) (num_elements r + 1) s'
      else res = (1, None) \<and> becomes s S t r bs L ((contents L)(kv_key kv \<mapsto> kv_value kv)) (num_elements r + 1) s')"
    for res s' using n(2) none i(2) by (simp add: inserted_def entry_fails_def Let_def n(1) [symmetric])
  have fails: "inserted s S t r bs L kv (0, None)
      (s\<lparr>next_addr := m, kvs := K, ht_recs := (ht_recs s)(t \<mapsto> ?r)\<rparr>)"
    if "oom s (Suc n) \<or> oom s (Suc (Suc n))" "next_addr s \<le> m" "below K m"
      "\<And>q kv. kvs s q = Some kv \<Longrightarrow> K q = Some kv" for m K
    using insert_fails [OF heap tab refl that(2-4) idle'] that(1) by (simp add: ins)
  show ?thesis
  proof (cases "oom s (Suc n)")
    case True
    with fails [of "Suc n" "kvs s"] le below_mono [OF heap_okD(2) [OF heap], of "Suc n"] T(1) rec
    show ?thesis by (simp add: wp Let_def post_wrt_def)
  next
    case False
    have inv: "ll_inv ?u S"
      using ll_inv_next_addr [OF heap_okD(1) [OF heap], of "Suc n"] le
      by (subst ll_inv_cong [of _ "s\<lparr>next_addr := Suc n\<rparr>"]) simp_all
    have len: "Suc (length ns) < 2 ^ 64"
      using dom_contents(2) [of L i] T(4,9) i(1) room arg_cong [OF ns(2), of length] by simp
    have push: "runs_to (PushLinkedList (bs ! i) (Suc n)) ?u
      (\<lambda>b u. runs_to (post_wrt t) u (\<lambda>_. inserted s S t r bs L kv (of_bool b, None)))"
    proof (rule runs_to_mono [OF PushLinkedList_law [OF inv ns(1) len]], goal_cases)
      case (1 b u)
      show ?case
      proof (cases "oom s (Suc (Suc n))")
        case True
        with 1 have u: "\<not> b" "u = s\<lparr>next_addr := Suc (Suc n), kvs := (kvs s)(Suc n \<mapsto> kv),
            ht_recs := (ht_recs s)(t \<mapsto> ?r1)\<rparr>" by simp_all
        have "below ((kvs s)(Suc n \<mapsto> kv)) (Suc (Suc n))"
          using below_mono [OF heap_okD(2) [OF heap], of "Suc (Suc n)"] le by simp
        moreover have "((kvs s)(Suc n \<mapsto> kv)) q = Some kv'" if "kvs s q = Some kv'" for q kv'
          using fresh that by auto
        ultimately have "inserted s S t r bs L kv (0, None) (s\<lparr>next_addr := Suc (Suc n),
            kvs := (kvs s)(Suc n \<mapsto> kv), ht_recs := (ht_recs s)(t \<mapsto> ?r)\<rparr>)"
          using le True by (intro fails) (simp_all del: fun_upd_apply)
        with u rec show ?thesis by (simp add: wp post_wrt_def)
      next
        case no: False
        with 1 have b: b and inv': "ll_inv u (S(bs ! i \<mapsto> (Suc (Suc n), Suc n) # ns))"
          and "ll_frame ?u u" by simp_all
        then obtain m N H where u: "u = s\<lparr>next_addr := m, kvs := (kvs s)(Suc n \<mapsto> kv),
            ht_recs := (ht_recs s)(t \<mapsto> ?r1), ll_nodes := N, ll_lists := H\<rparr>" "Suc n \<le> m"
        proof (elim ll_frameE, goal_cases)
          case (1 m N H)
          then show ?case by (intro that [where m = m and N = N and H = H]) simp_all
        qed
        from insert_adds [OF heap tab idle(1) i new le ns(1) inv' u] b rec no False
        show ?thesis by (simp add: u wp post_wrt_def ins)
      qed
    qed
    with False T(1) show ?thesis by (simp add: wp Let_def)
  qed
qed

lemma insert_locked_law:
  assumes heap: "heap_ok s S" and tab: "table s S t r bs L"
    and idle: "idle (r\<lparr>wrt := 1\<rparr>)" "wrt r = 0" and room: "Suc (card (dom (contents L))) < 2 ^ 64"
  shows "runs_to (insert_locked t kv) s (inserted s S t r bs L kv)"
proof -
  note T = tableD [OF tab]
  let ?i = "unat (kv_key kv) mod length L"
  have i: "?i < length L" using T(4) by simp
  have s: "s = s\<lparr>ht_recs := (ht_recs s)(t \<mapsto> r)\<rparr>" using T(1) by (simp add: fun_upd_idem)
  note F = searching [OF heap tab s refl refl, where key = "kv_key kv"]
  have rec: "wrt_update Suc r = r\<lparr>wrt := 1\<rparr>" using idle by (cases r) simp
  have after: "runs_to (case w of (success, found) \<Rightarrow>
      bnd (if success = -1 then ret (0, None)
          else case found of
            None \<Rightarrow>
              seq (wr_ht t (num_elements_update (\<lambda>n. n + 1)))
             (bnd (malloc_obj kvs kvs_update kv) (\<lambda>newEntry.
              if newEntry = NULL then ret (0, None)
              else bnd (PushLinkedList (bs ! ?i) newEntry) (\<lambda>b. ret (of_bool b, None))))
          | Some (_, p) \<Rightarrow>
              bnd (rd_kv p) (\<lambda>old.
              seq (wr_kv p (kv_value_update (\<lambda>_. kv_value kv))) (ret (2, Some old)))) (\<lambda>res.
     seq (post_wrt t) (ret res))) u (inserted s S t r bs L kv)"
    if u: "find_post s S (bs ! ?i) (L ! ?i) (kv_key kv) False w u" for w u
  proof -
    define n where "n = searched (next_addr s) (L ! ?i)"
    have n: "n \<ge> next_addr s" "u = s\<lparr>next_addr := n\<rparr>" using find_unchanged [OF u] by (simp_all add: n_def)
    consider (oom) "w = (-1, None)" "search_fails s (L ! ?i)"
      | (hit) ks1 p kv0 ks2 where "w = (1, Some (kv0, p))" "L ! ?i = ks1 @ (p, kv0) # ks2" "kv_key kv0 = kv_key kv" "\<not> search_fails s (L ! ?i)"
      | (miss) "w = (0, None)" "kv_key kv \<notin> kv_key ` snd ` set (L ! ?i)" "\<not> search_fails s (L ! ?i)"
      using u by (cases w) (auto simp: find_post_def hit_def Let_def split: if_splits)
    then show ?thesis
    proof cases
      case oom
      have "becomes s S t r bs L (contents L) (num_elements (r\<lparr>wrt := 1\<rparr>))
          (s\<lparr>next_addr := n, kvs := kvs s, ht_recs := (ht_recs s)(t \<mapsto> r\<lparr>wrt := 1\<rparr>)\<rparr>)"
        by (rule insert_fails [OF heap tab refl n(1)])
          (use below_mono [OF heap_okD(2) [OF heap] n(1)] idle in simp_all)
      with oom show ?thesis using T(1) rec
        by (simp add: n(2) wp post_wrt_def inserted_def)
    next
      case hit
      from answer_hit [OF tab refl, of s "bs ! ?i" "kv_key kv" False "Some (kv0, p)" s] hit(2,3)
        bucket_map_middle(1) [OF bucket_pointers(4) [OF tab i hit(2)]]
      have c: "contents L (kv_key kv) = Some (kv_value kv0)"
        by (simp add: contents_def)
      have "kvs s p = Some kv0" by (rule bucket_pointers(2) [OF tab i hit(2)])
      moreover have "\<lparr>kv_key = kv_key kv, kv_value = kv_value kv0\<rparr> = kv0" using hit(3) by (cases kv0) simp
      ultimately show ?thesis
        using insert_replaces [OF heap tab idle(1) i hit(2) refl hit(3) n(1), of "kv_value kv"] hit(1,4) c T(1) rec
        by (simp add: n(2) wp post_wrt_def inserted_def)
    next
      case miss
      from insert_new_law [OF heap tab idle i refl miss(2) n_def miss(3) room] miss(1) show ?thesis
        unfolding n(2) by (simp add: runs_to_bnd [of _ "\<lambda>res. seq (post_wrt t) (ret res)"])
          (simp add: wp)
    qed
  qed
  show ?thesis
    unfolding insert_locked_def wp F(1) unat_bucket(4) [OF T(4,5)] F(2)
    by (rule runs_to_mono [OF F(3) [of False]]) (rule after)
qed

text \<open>
  As long as the table has fewer than three elements per bucket, \<open>InsertHashTable\<close> does not
  resize, and one frame of stack is enough.
\<close>

lemma no_resize:
  assumes "ht_recs s t = Some r" and "num_elements r < 3 * num_buckets r"
  shows "resize_with f t s = Inr ((), s)"
  using assms by (simp add: resize_with_def prog_defs)

lemma becomes_unlock:
  assumes "table s S t r bs L" and "idle r"
    and "becomes (s\<lparr>ht_recs := (ht_recs s)(t \<mapsto> r\<lparr>wrt := 0\<rparr>)\<rparr>) S t (r\<lparr>wrt := 0\<rparr>) bs L M cnt s'"
  shows "becomes s S t r bs L M cnt s'"
proof -
  let ?s = "s\<lparr>ht_recs := (ht_recs s)(t \<mapsto> r\<lparr>wrt := 0\<rparr>)\<rparr>"
  from assms(3) obtain S' r' L' where *: "heap_ok s' S'" "table s' S' t r' bs L'" "idle r'"
    "buckets r' = buckets r" "length L' = length L" "contents L' = M" "num_elements r' = cnt"
    "pointers L' \<subseteq> pointers L \<union> {q. kvs s q = None}" "ht_step ?s S t bs L s' S'"
    by (auto simp: becomes_def)
  have "ht_frame s s'" if "ht_frame ?s s'"
  proof -
    from that obtain n N H K R where "next_addr s \<le> n"
      "s' = ?s\<lparr>next_addr := n, ll_nodes := N, ll_lists := H, ll_iters := ll_iters ?s, kvs := K, ht_recs := R\<rparr>"
      by (auto simp: ht_frame_def)
    then show ?thesis by (intro ht_frameI [where n = n and N = N and H = H and K = K and R = R]) simp_all
  qed
  with *(9) have "ht_step s S t bs L s' S'" by (auto simp: ht_step_def)
  with * show ?thesis unfolding becomes_def by blast
qed

lemma InsertHashTable_law:
  assumes heap: "heap_ok s S" and tab: "table s S t r bs L" and idle: "idle r"
    and few: "num_elements r < 3 * num_buckets r" and room: "Suc (card (dom (contents L))) < 2 ^ 64"
  shows "runs_to (InsertHashTable (Suc d) t kv) s (inserted s S t r bs L kv)"
proof -
  note T = tableD [OF tab]
  let ?r = "r\<lparr>wrt := 0\<rparr>" and ?s = "s\<lparr>ht_recs := (ht_recs s)(t \<mapsto> r\<lparr>wrt := 0\<rparr>)\<rparr>"
  have heap': "heap_ok ?s S"
    using heap_okD [OF heap] ll_inv_cong [of ?s s] T(1) by (simp add: heap_ok_def)
  have tab': "table ?s S t ?r bs L" using tab by (simp add: table_def chain_at_def)
  have "runs_to (resize_with (InsertHashTable d) t) ?s (\<lambda>_ s'. runs_to (insert_locked t kv) s' (inserted ?s S t ?r bs L kv))"
    by (subst runs_to_exact [OF no_resize [of _ _ ?r]])
      (use few insert_locked_law [OF heap' tab' _ _ room, of kv] idle in \<open>simp_all add: idle_def\<close>)
  then have "runs_to (InsertHashTable (Suc d) t kv) s (inserted ?s S t ?r bs L kv)"
    by (simp add: insert_with_def wp wait_wrt_law [OF T(1) idle])
  then show ?thesis
    by (rule runs_to_mono) (use becomes_unlock [OF tab idle] in
      \<open>auto simp: inserted_def search_fails_def entry_fails_def Let_def split: if_splits option.splits\<close>)
qed

section \<open>The table as a map store\<close>

text \<open>
  \<open>ht_ok nb t s M\<close>: memory is well formed, \<open>malloc\<close> does not fail, and at \<open>t\<close> is a table
  with \<open>nb\<close> buckets and the contents \<open>M\<close>, used by no thread, whose counter is right.
\<close>

definition ht_ok :: "nat \<Rightarrow> addr \<Rightarrow> mem \<Rightarrow> (64 word \<rightharpoonup> addr) \<Rightarrow> bool" where
  "ht_ok nb t s M \<longleftrightarrow> (\<forall>n. \<not> oom s n) \<and>
     (\<exists>S r bs L. heap_ok s S \<and> table s S t r bs L \<and> idle r \<and> length L = nb \<and> contents L = M \<and>
        num_elements r = of_nat (card (dom M)))"

lemma ht_okE:
  assumes "ht_ok nb t s M"
  obtains S r bs L where "heap_ok s S" and "table s S t r bs L" and "idle r" and "length L = nb"
    and "contents L = M" and "num_elements r = of_nat (card (dom M))" and "\<And>n. \<not> oom s n"
    and "finite (dom M)" and "nb < 2 ^ 32"
proof -
  from assms obtain S r bs L where *: "heap_ok s S" "table s S t r bs L" "idle r" "length L = nb"
    "contents L = M" "num_elements r = of_nat (card (dom M))" "\<And>n. \<not> oom s n"
    by (auto simp: ht_ok_def)
  moreover have "finite (dom M)"
    using dom_contents(1) [of L] tableD(4,9) [OF *(2)] *(5) by simp
  ultimately show thesis using that tableD(5) [OF *(2)] by blast
qed

lemma ht_frame_oom: "ht_frame s s' \<Longrightarrow> oom s' = oom s"
  by (auto simp: ht_frame_def)

lemma becomes_ok:
  assumes "becomes s S t r bs L M cnt s'" and "length L = nb" and "cnt = of_nat (card (dom M))"
    and "\<And>n. \<not> oom s n"
  shows "ht_ok nb t s' M \<and> ht_frame s s'"
proof -
  from assms(1) obtain S' r' L' where *: "heap_ok s' S'" "table s' S' t r' bs L'" "idle r'"
    "length L' = length L" "contents L' = M" "num_elements r' = cnt" "ht_frame s s'"
    by (auto simp: becomes_def ht_step_def)
  then show ?thesis using assms(2-4) ht_frame_oom [OF *(7)] unfolding ht_ok_def by auto
qed

lemma card_upd: "finite (dom M) \<Longrightarrow>
    card (dom (M(k \<mapsto> v))) = card (dom M) + (if M k = None then 1 else 0)"
  by (auto simp: card_insert_if domIff insert_absorb)

lemma card_del: "finite (dom M) \<Longrightarrow>
    card (dom (M(k := None))) = card (dom M) - (if M k = None then 0 else 1)"
  by (auto simp: card_Diff_singleton_if domIff)

lemma ht_lookup:
  assumes "ht_ok nb t s M"
  shows "runs_to (LookupHashTable t k) s (\<lambda>res s'. res = answer M k \<and> ht_ok nb t s' M \<and> ht_frame s s')"
  using assms
proof (rule ht_okE)
  fix S r bs L
  assume *: "heap_ok s S" "table s S t r bs L" "idle r" "length L = nb" "contents L = M"
    "num_elements r = of_nat (card (dom M))" "\<And>n. \<not> oom s n"
  show ?thesis
  proof (rule runs_to_mono [OF LookupHashTable_law [OF *(1-3)]], goal_cases)
    case (1 res s')
    then obtain n where n: "n \<ge> next_addr s" "s' = s\<lparr>next_addr := n\<rparr>" by blast
    have "becomes s S t r bs L M (num_elements r) s'"
      using becomes_same [OF *(1-3) n(1)] by (simp add: *(5) n(2))
    from becomes_ok [OF this *(4,6,7)] 1 *(5) no_oom_fails [OF *(7)] show ?case by simp
  qed
qed

lemma ht_remove:
  assumes "ht_ok nb t s M"
  shows "runs_to (RemoveFromHashTable t k) s (\<lambda>res s'.
    res = answer M k \<and> ht_ok nb t s' (M(k := None)) \<and> ht_frame s s')"
  using assms
proof (rule ht_okE)
  fix S r bs L
  assume *: "heap_ok s S" "table s S t r bs L" "idle r" "length L = nb" "contents L = M"
    "num_elements r = of_nat (card (dom M))" "\<And>n. \<not> oom s n" "finite (dom M)"
  show ?thesis
  proof (rule runs_to_mono [OF RemoveFromHashTable_law [OF *(1-3)]], goal_cases)
    case (1 res s')
    then have res: "res = answer M k"
      and b: "becomes s S t r bs L (M(k := None)) (if M k = None then num_elements r else num_elements r - 1) s'"
      using *(5) no_oom_fails [OF *(7)] by auto
    have "card (dom M) > 0" if "M k \<noteq> None" using *(8) that by (auto simp: card_gt_0_iff)
    then have "(if M k = None then num_elements r else num_elements r - 1) = of_nat (card (dom (M(k := None))))"
      using *(6) card_del [OF *(8), of k] by (auto simp: of_nat_diff)
    from becomes_ok [OF b *(4) this *(7)] res show ?case by simp
  qed
qed

text \<open>The test of the load factor, on 64-bit words.\<close>

lemma threshold:
  assumes "n < 2 ^ 32" and "c < 2 ^ 64"
  shows "(of_nat c :: 64 word) < 3 * of_nat n \<longleftrightarrow> c < 3 * n"
proof -
  have "unat (of_nat (3 * n) :: 64 word) = 3 * n" using assms(1) by (simp only: unat_of_nat) simp
  moreover have "unat (of_nat c :: 64 word) = c" using assms(2) by (simp add: unat_of_nat take_bit_nat_eq_self)
  moreover have "3 * (of_nat n :: 64 word) = of_nat (3 * n)" by simp
  ultimately show ?thesis by (simp only: word_less_nat_alt)
qed

lemma ht_insert:
  assumes "ht_ok nb t s M" and few: "card (dom M) < 3 * nb"
  shows "runs_to (InsertHashTable (Suc d) t kv) s (\<lambda>res s'.
    res = (case M (kv_key kv) of
        None \<Rightarrow> (1, None)
      | Some old \<Rightarrow> (2, Some \<lparr>kv_key = kv_key kv, kv_value = old\<rparr>)) \<and>
    ht_ok nb t s' (M(kv_key kv \<mapsto> kv_value kv)) \<and> ht_frame s s')"
  using assms(1)
proof (rule ht_okE)
  fix S r bs L
  assume *: "heap_ok s S" "table s S t r bs L" "idle r" "length L = nb" "contents L = M"
    "num_elements r = of_nat (card (dom M))" "\<And>n. \<not> oom s n" "finite (dom M)" "nb < 2 ^ 32"
  have c: "card (dom M) < 3 * 2 ^ 32" using few *(9) by simp
  have few': "num_elements r < 3 * num_buckets r"
    using threshold [OF *(9)] c few tableD(3) [OF *(2)] *(4,6) by simp
  have room: "Suc (card (dom (contents L))) < 2 ^ 64" using c by (simp add: *(5))
  show ?thesis
  proof (rule runs_to_mono [OF InsertHashTable_law [OF *(1-3) few' room]], goal_cases)
    case (1 res s')
    then have res: "res = (case M (kv_key kv) of None \<Rightarrow> (1, None)
        | Some old \<Rightarrow> (2, Some \<lparr>kv_key = kv_key kv, kv_value = old\<rparr>))"
      and b: "becomes s S t r bs L (M(kv_key kv \<mapsto> kv_value kv))
        (num_elements r + (if M (kv_key kv) = None then 1 else 0)) s'"
      using *(5) no_oom_fails [OF *(7)] by (auto simp: inserted_def split: option.splits)
    have "num_elements r + (if M (kv_key kv) = None then 1 else 0) =
        of_nat (card (dom (M(kv_key kv \<mapsto> kv_value kv))))"
      unfolding card_upd [OF *(8)] using *(6) by simp
    from becomes_ok [OF b *(4) this *(7)] res show ?case by simp
  qed
qed

text \<open>The client's view: each operation returns the value the key had.\<close>

definition ht_ins :: "addr \<Rightarrow> 64 word \<Rightarrow> addr \<Rightarrow> (mem, addr option) prog" where
  "ht_ins t k v = bnd (InsertHashTable 1 t \<lparr>kv_key = k, kv_value = v\<rparr>) (\<lambda>(res, old). ret (map_option kv_value old))"

definition ht_look :: "addr \<Rightarrow> 64 word \<Rightarrow> (mem, addr option) prog" where
  "ht_look t k = bnd (LookupHashTable t k) (\<lambda>(res, kv). ret (map_option kv_value kv))"

definition ht_del :: "addr \<Rightarrow> 64 word \<Rightarrow> (mem, addr option) prog" where
  "ht_del t k = bnd (RemoveFromHashTable t k) (\<lambda>(res, kv). ret (map_option kv_value kv))"

lemma answer_value: "answer M k = (res, kv) \<Longrightarrow> map_option kv_value kv = M k"
  by (auto simp: answer_def split: option.splits)

interpretation ht: map_store "ht_ok nb t" "ht_ins t" "ht_look t" "ht_del t" "3 * nb" for nb t
proof (unfold_locales, goal_cases)
  case (1 s M k v)
  then show ?case unfolding ht_ins_def wp One_nat_def
    by (intro runs_to_mono [OF ht_insert [of nb t s M 0 "\<lparr>kv_key = k, kv_value = v\<rparr>"]])
      (auto simp: wp split: option.splits)
next
  case (2 s M k)
  then show ?case unfolding ht_look_def wp
    by (intro runs_to_mono [OF ht_lookup]) (auto simp: wp dest: answer_value split: prod.splits)
next
  case (3 s M k)
  then show ?case unfolding ht_del_def wp
    by (intro runs_to_mono [OF ht_remove]) (auto simp: wp dest: answer_value split: prod.splits)
next
  case (4 s M)
  then show ?case by (rule ht_okE)
qed

section \<open>A new table\<close>

text \<open>
  The state of the loop of \<open>AllocateHashTable\<close> after \<open>i\<close> rounds, from a memory \<open>s\<close>: the
  record, the array, and \<open>i\<close> empty lists, at consecutive addresses.
\<close>

definition new_buckets :: "nat \<Rightarrow> nat \<Rightarrow> nat \<Rightarrow> addr list" where
  "new_buckets a n i = [a..<a + i] @ replicate (n - i) NULL"

definition allocating :: "mem \<Rightarrow> (addr \<rightharpoonup> nodes) \<Rightarrow> nat \<Rightarrow> nat \<Rightarrow> mem \<Rightarrow> bool" where
  "allocating s S n i s' \<longleftrightarrow>
     (let a = Suc (next_addr s) in
        ll_inv s' (\<lambda>l. if a + 2 \<le> l \<and> l < a + 2 + i then Some [] else S l) \<and>
        (\<exists>H. s' = s\<lparr>next_addr := a + 1 + i,
           ht_recs := (ht_recs s)(a \<mapsto> \<lparr>num_buckets = of_nat n, num_elements = 0, buckets = a + 1,
             wrt = 1, mutex = 1, readcount = 0\<rparr>),
           ptr_arrays := (ptr_arrays s)(a + 1 \<mapsto> new_buckets (a + 2) n i), ll_lists := H\<rparr>))"

lemma new_buckets_step:
  "i < n \<Longrightarrow> (new_buckets a n i)[i := a + i] = new_buckets a n (Suc i)"
  by (cases "n - i") (auto simp: new_buckets_def list_update_append)

lemma length_new_buckets: "i \<le> n \<Longrightarrow> length (new_buckets a n i) = n"
  by (simp add: new_buckets_def)

lemma allocating_step:
  assumes "allocating s S n i s'" and "i < n" and "n < 2 ^ 32" and "\<And>n. \<not> oom s n"
  shows "runs_to AllocateLinkedList s' (\<lambda>l s''. l \<noteq> NULL \<and>
    runs_to (set_bucket (Suc (next_addr s)) i l) s'' (\<lambda>_. allocating s S n (Suc i)))"
proof -
  let ?a = "Suc (next_addr s)"
  let ?S = "\<lambda>i l. if ?a + 2 \<le> l \<and> l < ?a + 2 + i then Some [] else S l"
  from assms(1) obtain H where inv: "ll_inv s' (?S i)" and s': "s' = s\<lparr>next_addr := ?a + 1 + i,
      ht_recs := (ht_recs s)(?a \<mapsto> \<lparr>num_buckets = of_nat n, num_elements = 0, buckets = ?a + 1,
        wrt = 1, mutex = 1, readcount = 0\<rparr>),
      ptr_arrays := (ptr_arrays s)(?a + 1 \<mapsto> new_buckets (?a + 2) n i), ll_lists := H\<rparr>"
    by (auto simp: allocating_def Let_def)
  have S: "(?S i)(?a + 2 + i \<mapsto> []) = ?S (Suc i)" by (auto simp: fun_eq_iff)
  have len: "i < length (new_buckets (?a + 2) n i)" using assms(2) by (simp add: length_new_buckets)
  show ?thesis
  proof (rule runs_to_mono [OF AllocateLinkedList_law [OF inv]], goal_cases)
    case (1 l u)
    have "\<not> oom s' (Suc (next_addr s'))" using assms(4) by (simp add: s')
    note * = 1 [unfolded if_not_P [OF this]]
    from * have l: "l = ?a + 2 + i" and u: "u = s'\<lparr>next_addr := ?a + 2 + i, ll_lists := ll_lists u\<rparr>"
      by (simp_all add: s')
    from * have "ll_inv u ((?S i)(l \<mapsto> []))" by (elim conjE)
    with S l have inv': "ll_inv u (?S (Suc i))" by (simp only:)
    from u obtain H' where u: "u = s'\<lparr>next_addr := ?a + 2 + i, ll_lists := H'\<rparr>" by blast
    let ?v = "u\<lparr>ptr_arrays := (ptr_arrays s)(?a + 1 \<mapsto> new_buckets (?a + 2) n (Suc i))\<rparr>"
    have "ll_inv ?v (?S (Suc i))" using inv' by (subst ll_inv_cong [of _ u]) simp_all
    moreover have "?v = s\<lparr>next_addr := ?a + 1 + Suc i,
      ht_recs := (ht_recs s)(?a \<mapsto> \<lparr>num_buckets = of_nat n, num_elements = 0, buckets = ?a + 1,
        wrt = 1, mutex = 1, readcount = 0\<rparr>),
      ptr_arrays := (ptr_arrays s)(?a + 1 \<mapsto> new_buckets (?a + 2) n (Suc i)), ll_lists := H'\<rparr>"
      by (simp add: u s')
    ultimately have "allocating s S n (Suc i) ?v" unfolding allocating_def Let_def by blast
    moreover have "runs_to (set_bucket ?a i l) u Q = Q () ?v" for Q
      using len new_buckets_step [OF assms(2), of "?a + 2"]
      by (simp add: set_bucket_def wp u s' l)
    ultimately show ?case using l by simp
  qed
qed

lemma AllocateHashTable_allocates:
  assumes heap: "heap_ok s S" and oom: "\<And>k. \<not> oom s k" and n: "n \<noteq> 0"
  shows "runs_to (AllocateHashTable n) s (\<lambda>t s'. t = Suc (next_addr s) \<and> allocating s S (unat n) (unat n) s')"
proof -
  let ?n = "unat n" and ?a = "Suc (next_addr s)"
  let ?s = "s\<lparr>next_addr := ?a + 1, ptr_arrays := (ptr_arrays s)(?a + 1 \<mapsto> replicate ?n NULL),
    ht_recs := (ht_recs s)(?a \<mapsto> \<lparr>num_buckets = ucast n, num_elements = 0, buckets = ?a + 1,
      wrt = 1, mutex = 1, readcount = 0\<rparr>)\<rparr>"
  have uc: "(ucast n :: 64 word) = of_nat ?n" by (simp add: unsigned_of_nat)
  have "?n < 2 ^ LENGTH(32)" by (rule unsigned_less)
  then have n0: "0 < ?n" "?n < 2 ^ 32" using n by (simp_all add: unat_gt_0)
  have "ll_inv ?s S" using ll_inv_next_addr [OF heap_okD(1) [OF heap], of "?a + 1"]
    by (subst ll_inv_cong [of _ "s\<lparr>next_addr := ?a + 1\<rparr>"]) simp_all
  moreover have "(\<lambda>l. if ?a + 2 \<le> l \<and> l < ?a + 2 + 0 then Some [] else S l) = S"
    by (rule ext, rule if_not_P) linarith
  ultimately have start: "allocating s S ?n 0 ?s"
    unfolding allocating_def Let_def new_buckets_def
    by (intro conjI exI [of _ "ll_lists s"]) simp_all
  let ?I = "\<lambda>k (i :: 32 word, failed) s'. \<not> failed \<and> unat i \<le> ?n \<and> k = ?n - unat i \<and> allocating s S ?n (unat i) s'"
  have loop: "runs_to (whileM (\<lambda>(i, failed). ret (\<not> failed \<and> i < n))
      (\<lambda>(i, failed). allocate_bucket ?a i) (0, False)) ?s
    (\<lambda>(i, failed) s'. \<not> failed \<and> allocating s S ?n ?n s')"
  proof (rule runs_to_whileM_variant [where I = ?I and k = ?n])
    show "?I ?n (0, False) ?s" using start by simp
  next
    fix k v s'
    assume I: "?I k v s'"
    obtain i where v: "v = (i, False)" and i: "unat i \<le> ?n" "k = ?n - unat i"
      and al: "allocating s S ?n (unat i) s'" using I by (cases v) auto
    show "runs_to ((\<lambda>(i, failed). ret (\<not> failed \<and> i < n)) v) s' (\<lambda>go s'.
        if go then runs_to ((\<lambda>(i, failed). allocate_bucket ?a i) v) s' (\<lambda>v' s''. \<exists>j < k. ?I j v' s'')
        else (case v of (i, failed) \<Rightarrow> \<lambda>s'. \<not> failed \<and> allocating s S ?n ?n s') s')"
    proof (cases "i < n")
      case False
      then have "unat i = ?n" using i(1) by (simp add: word_less_nat_alt)
      with al False show ?thesis by (simp add: v wp)
    next
      case True
      then have lt: "unat i < ?n" by (simp add: word_less_nat_alt)
      then have suc: "unat (i + 1) = Suc (unat i)" using n0(2) by (simp add: unat_word_ariths)
      have "runs_to (allocate_bucket ?a i) s' (\<lambda>v' s''. v' = (i + 1, False) \<and> allocating s S ?n (Suc (unat i)) s'')"
        unfolding allocate_bucket_def wp
        by (rule runs_to_mono [OF allocating_step [OF al lt n0(2) oom]])
          (erule conjE, erule runs_to_mono, simp add: wp)
      then have "runs_to (allocate_bucket ?a i) s' (\<lambda>v' s''. \<exists>j < k. ?I j v' s'')"
        by (rule runs_to_mono) (use lt i suc in auto)
      with True show ?thesis by (simp add: v wp)
    qed
  qed
  show ?thesis
    using n oom
    by (simp add: AllocateHashTable_def wp Let_def)
      (rule runs_to_mono [OF loop [simplified]], auto simp: wp)
qed

text \<open>The table that is made, its buckets and what it leaves alone.\<close>

lemma allocating_table:
  assumes heap: "heap_ok s S" and al: "allocating s S n n s'" and n: "0 < n" "n < 2 ^ 32"
  obtains S' r bs where "heap_ok s' S'" "table s' S' (Suc (next_addr s)) r bs (replicate n [])" "idle r"
    "num_elements r = 0" "next_addr s < buckets r" "\<And>l. l \<notin> set bs \<Longrightarrow> S' l = S l" "\<And>l. l \<in> set bs \<Longrightarrow> next_addr s < l"
    "\<And>u. u \<noteq> Suc (next_addr s) \<Longrightarrow> ht_recs s' u = ht_recs s u"
    "\<And>u. u \<le> next_addr s \<Longrightarrow> ptr_arrays s' u = ptr_arrays s u" "next_addr s < next_addr s'"
    "\<exists>H R P m. s' = s\<lparr>next_addr := m, ht_recs := R, ptr_arrays := P, ll_lists := H\<rparr>"
proof -
  let ?a = "Suc (next_addr s)"
  let ?S = "\<lambda>l. if ?a + 2 \<le> l \<and> l < ?a + 2 + n then Some [] else S l"
  let ?r = "\<lparr>num_buckets = of_nat n, num_elements = 0, buckets = ?a + 1, wrt = 1, mutex = 1,
      readcount = 0\<rparr> :: HashTableRecord"
  let ?bs = "[?a + 2..<?a + 2 + n]"
  from al obtain H where inv: "ll_inv s' ?S" and s': "s' = s\<lparr>next_addr := ?a + 1 + n,
      ht_recs := (ht_recs s)(?a \<mapsto> ?r),
      ptr_arrays := (ptr_arrays s)(?a + 1 \<mapsto> new_buckets (?a + 2) n n), ll_lists := H\<rparr>"
    by (auto simp: allocating_def Let_def)
  show thesis
  proof (rule that [of ?S ?r ?bs])
    show "heap_ok s' ?S"
      using heap_okD(2-5) [OF heap, THEN below_mono, of "?a + 1 + n"] inv by (simp add: heap_ok_def s')
    show "table s' ?S ?a ?r ?bs (replicate n [])"
      using n by (simp add: table_def s' new_buckets_def chain_at_def hashed_def del: upt_Suc)
    show "\<exists>H R P m. s' = s\<lparr>next_addr := m, ht_recs := R, ptr_arrays := P, ll_lists := H\<rparr>"
      unfolding s' by (intro exI) (rule refl)
  qed (auto simp: idle_def s' simp del: upt_Suc)
qed

lemma AllocateHashTable_law:
  assumes heap: "heap_ok s S" and oom: "\<And>k. \<not> oom s k" and n: "n \<noteq> 0"
  shows "runs_to (AllocateHashTable n) s (\<lambda>t s'. t = Suc (next_addr s) \<and> ht_ok (unat n) t s' Map.empty \<and>
    (\<exists>H R P m. s' = s\<lparr>next_addr := m, ht_recs := R, ptr_arrays := P, ll_lists := H\<rparr> \<and> next_addr s < m))"
proof (rule runs_to_mono [OF AllocateHashTable_allocates [OF assms]], elim conjE, intro conjI)
  fix t s'
  assume t: "t = Suc (next_addr s)" and al: "allocating s S (unat n) (unat n) s'"
  have "unat n < 2 ^ LENGTH(32)" by (rule unsigned_less)
  then have n0: "0 < unat n" "unat n < 2 ^ 32" using n by (simp_all add: unat_gt_0)
  from allocating_table [OF heap al n0] obtain S' r bs where
    A: "heap_ok s' S'" "table s' S' (Suc (next_addr s)) r bs (replicate (unat n) [])" "idle r" "num_elements r = 0"
      "next_addr s < next_addr s'" "\<exists>H R P m. s' = s\<lparr>next_addr := m, ht_recs := R, ptr_arrays := P, ll_lists := H\<rparr>"
    by metis
  have "contents (replicate (unat n) []) = Map.empty" using n0 by (simp add: contents_def fun_eq_iff)
  then show "ht_ok (unat n) t s' Map.empty"
    unfolding ht_ok_def t using oom A
    by (intro conjI exI [of _ S'] exI [of _ r] exI [of _ bs] exI [of _ "replicate (unat n) []"]) auto
  from A(6) obtain H R P m where e: "s' = s\<lparr>next_addr := m, ht_recs := R, ptr_arrays := P, ll_lists := H\<rparr>"
    by blast
  moreover have "next_addr s < m" using A(5) unfolding e by simp
  ultimately show "\<exists>H R P m. s' = s\<lparr>next_addr := m, ht_recs := R, ptr_arrays := P, ll_lists := H\<rparr> \<and> next_addr s < m"
    by blast
qed

section \<open>Properties\<close>

lemma heap_ok_mem0: "heap_ok mem0 Map.empty"
  by (simp add: heap_ok_def ll_inv_def mem0_def)

text \<open>Witnesses start from a new table of 4 buckets.\<close>

lemma ht_put:
  assumes "ht_ok nb t s M" and "card (dom M) < 3 * nb"
  shows "runs_to (InsertHashTable (Suc d) t \<lparr>kv_key = k, kv_value = v\<rparr>) s (\<lambda>_ s'. ht_ok nb t s' (M(k \<mapsto> v)))"
  using ht_insert [OF assms, of d "\<lparr>kv_key = k, kv_value = v\<rparr>"] by (auto elim!: runs_to_mono)

lemma new_table_runs:
  assumes "\<And>s. ht_ok 4 1 s Map.empty \<Longrightarrow> runs_to (m 1) s Q"
  shows "runs_to (bnd (AllocateHashTable 4) m) mem0 Q"
  unfolding wp
proof (rule runs_to_mono [OF AllocateHashTable_law [OF heap_ok_mem0]], goal_cases)
  case (3 t s')
  then have "t = 1" by (simp add: mem0_def)
  moreover have "ht_ok 4 t s' Map.empty" using 3 by (elim conjE) simp
  ultimately show ?case using assms by blast
qed (simp_all add: mem0_def)

text \<open>C9. Any sequence of insertions, lookups and removals on a hash table answers as a map
  does, and leaves a table that holds the map the sequence builds, as long as the table does not
  outgrow three elements per bucket.\<close>

theorem table_is_map:
  assumes "ht_ok nb t s M" and "card (dom M) + insertions ops \<le> 3 * nb"
  shows "runs_to (run_map (ht_ins t) (ht_look t) (ht_del t) ops) s (\<lambda>rs s'.
    rs = fst (map_spec ops M) \<and> ht_ok nb t s' (snd (map_spec ops M)))"
  using assms by (rule ht.run_map_spec)

lemma table_is_map_witness:
  "runs_to (bnd (AllocateHashTable 4) (\<lambda>t. run_map (ht_ins t) (ht_look t) (ht_del t)
     [Ins 5 100, Ins 9 200, Look 5, Ins 5 300, Del 9, Look 9, Look 5])) mem0
   (\<lambda>rs s'. rs = [None, None, Some 100, Some 100, Some 200, None, Some 300])"
proof (rule new_table_runs)
  fix s assume "ht_ok 4 1 s Map.empty"
  from table_is_map [OF this, of "[Ins 5 100, Ins 9 200, Look 5, Ins 5 300, Del 9, Look 9, Look 5]"]
  show "runs_to (run_map (ht_ins 1) (ht_look 1) (ht_del 1)
     [Ins 5 100, Ins 9 200, Look 5, Ins 5 300, Del 9, Look 9, Look 5]) s
   (\<lambda>rs s'. rs = [None, None, Some 100, Some 100, Some 200, None, Some 300])"
    by (auto elim!: runs_to_mono)
qed

text \<open>C20. The result codes of the three operations: insert returns 1 for a new key and 2 with the
  old pair for a key it replaces, lookup and remove return 0 or 1 with the pair; each of them
  leaves every object that is not part of a table or list alone.\<close>

theorem table_operations:
  assumes "ht_ok nb t s M"
  shows "runs_to (LookupHashTable t k) s (\<lambda>res s'. ht_ok nb t s' M \<and> ht_frame s s' \<and>
      res = (case M k of None \<Rightarrow> (0, None) | Some v \<Rightarrow> (1, Some \<lparr>kv_key = k, kv_value = v\<rparr>))) \<and>
    runs_to (RemoveFromHashTable t k) s (\<lambda>res s'. ht_ok nb t s' (M(k := None)) \<and> ht_frame s s' \<and>
      res = (case M k of None \<Rightarrow> (0, None) | Some v \<Rightarrow> (1, Some \<lparr>kv_key = k, kv_value = v\<rparr>))) \<and>
    (card (dom M) < 3 * nb \<longrightarrow>
      runs_to (InsertHashTable (Suc d) t \<lparr>kv_key = k, kv_value = v\<rparr>) s (\<lambda>res s'.
        ht_ok nb t s' (M(k \<mapsto> v)) \<and> ht_frame s s' \<and>
        res = (case M k of None \<Rightarrow> (1, None) | Some old \<Rightarrow> (2, Some \<lparr>kv_key = k, kv_value = old\<rparr>))))"
  using ht_lookup [OF assms, of k] ht_remove [OF assms, of k]
    ht_insert [OF assms, of d "\<lparr>kv_key = k, kv_value = v\<rparr>", simplified]
  by (intro conjI impI) (auto simp: answer_def elim!: runs_to_mono split: option.splits)

lemma table_operations_witness:
  "runs_to (bnd (AllocateHashTable 4) (\<lambda>t. LookupHashTable t 7)) mem0 (\<lambda>res s'. res = (0, None))"
proof (rule new_table_runs)
  fix s assume "ht_ok 4 1 s Map.empty"
  from table_operations [OF this, of 7, THEN conjunct1]
  show "runs_to (LookupHashTable 1 7) s (\<lambda>res s'. res = (0, None))"
    by (rule runs_to_mono) simp
qed

text \<open>C22. \<open>AllocateHashTable\<close> makes an empty table of the requested size, with all locks free,
  from any well-formed memory, and refuses to make a table of no buckets.\<close>

theorem new_table:
  assumes "heap_ok s S" and "\<And>k. \<not> oom s k"
  shows "if n = 0 then AllocateHashTable n s = Inr (NULL, s)
    else runs_to (AllocateHashTable n) s (\<lambda>t s'. t \<noteq> NULL \<and> ht_recs s t = None \<and>
      ht_ok (unat n) t s' Map.empty)"
proof (cases "n = 0")
  case False
  have "ht_recs s (Suc (next_addr s)) = None"
    by (rule below_fresh [OF heap_okD(3) [OF assms(1)]]) simp
  with False show ?thesis
    using runs_to_mono [OF AllocateHashTable_law [OF assms False]] by simp
qed (simp add: AllocateHashTable_def ret_def)

lemma new_table_witness:
  "runs_to (AllocateHashTable 256) mem0 (\<lambda>t s'. ht_ok 256 t s' Map.empty)"
  using new_table [OF heap_ok_mem0, of 256] by (auto simp: mem0_def elim: runs_to_mono)

text \<open>C23. Out of memory, whatever allocations fail. A search needs one allocation, for an iterator, unless
  the bucket is empty: when it fails, lookup and remove return -1 and insert returns 0, and the table
  with its counter is as before. A new key needs two more, for the entry and its node: when one of them
  fails, insert returns 0 and the contents are as before, but \<open>num_elements\<close> counts an element that is
  not there. In all other cases the operations answer as they should. No run is undefined, and every
  lock is released.\<close>

theorem table_survives_oom:
  assumes "heap_ok s S" and "table s S t r bs L" and "idle r"
  shows "runs_to (LookupHashTable t k) s (\<lambda>res s'. becomes s S t r bs L (contents L) (num_elements r) s' \<and>
      res = (if search_fails s (bucket L k) then (-1, None) else answer (contents L) k)) \<and>
    runs_to (RemoveFromHashTable t k) s (\<lambda>res s'.
      if search_fails s (bucket L k)
      then res = (-1, None) \<and> becomes s S t r bs L (contents L) (num_elements r) s'
      else res = answer (contents L) k \<and> becomes s S t r bs L ((contents L)(k := None))
        (if contents L k = None then num_elements r else num_elements r - 1) s') \<and>
    (num_elements r < 3 * num_buckets r \<longrightarrow> Suc (card (dom (contents L))) < 2 ^ 64 \<longrightarrow>
      runs_to (InsertHashTable (Suc d) t \<lparr>kv_key = k, kv_value = v\<rparr>) s (\<lambda>res s'.
        if search_fails s (bucket L k)
        then res = (0, None) \<and> becomes s S t r bs L (contents L) (num_elements r) s'
        else case contents L k of
          Some old \<Rightarrow> res = (2, Some \<lparr>kv_key = k, kv_value = old\<rparr>) \<and>
            becomes s S t r bs L ((contents L)(k \<mapsto> v)) (num_elements r) s'
        | None \<Rightarrow>
            if entry_fails s (bucket L k)
            then res = (0, None) \<and> becomes s S t r bs L (contents L) (num_elements r + 1) s'
            else res = (1, None) \<and> becomes s S t r bs L ((contents L)(k \<mapsto> v)) (num_elements r + 1) s'))"
proof (intro conjI impI)
  show "runs_to (LookupHashTable t k) s (\<lambda>res s'. becomes s S t r bs L (contents L) (num_elements r) s' \<and>
      res = (if search_fails s (bucket L k) then (-1, None) else answer (contents L) k))"
    by (rule runs_to_mono [OF LookupHashTable_law [OF assms]]) (use becomes_same [OF assms] in blast)
  show "runs_to (RemoveFromHashTable t k) s (\<lambda>res s'.
      if search_fails s (bucket L k)
      then res = (-1, None) \<and> becomes s S t r bs L (contents L) (num_elements r) s'
      else res = answer (contents L) k \<and> becomes s S t r bs L ((contents L)(k := None))
        (if contents L k = None then num_elements r else num_elements r - 1) s')"
    by (rule RemoveFromHashTable_law [OF assms])
  assume *: "num_elements r < 3 * num_buckets r" "Suc (card (dom (contents L))) < 2 ^ 64"
  show "runs_to (InsertHashTable (Suc d) t \<lparr>kv_key = k, kv_value = v\<rparr>) s (\<lambda>res s'.
        if search_fails s (bucket L k)
        then res = (0, None) \<and> becomes s S t r bs L (contents L) (num_elements r) s'
        else case contents L k of
          Some old \<Rightarrow> res = (2, Some \<lparr>kv_key = k, kv_value = old\<rparr>) \<and>
            becomes s S t r bs L ((contents L)(k \<mapsto> v)) (num_elements r) s'
        | None \<Rightarrow>
            if entry_fails s (bucket L k)
            then res = (0, None) \<and> becomes s S t r bs L (contents L) (num_elements r + 1) s'
            else res = (1, None) \<and> becomes s S t r bs L ((contents L)(k \<mapsto> v)) (num_elements r + 1) s')"
    by (rule InsertHashTable_law [OF assms *, of d "\<lparr>kv_key = k, kv_value = v\<rparr>",
        unfolded inserted_def [abs_def] HTKeyValue.select_convs])
qed

text \<open>When every further allocation fails: a lookup in a table of one key, and an insertion into an
  empty table, whose counter is 1 afterwards.\<close>

lemma oom_tables:
  assumes "heap_ok s S" and "table s S t r bs L"
  shows "heap_ok (s\<lparr>oom := f\<rparr>) S" "table (s\<lparr>oom := f\<rparr>) S t r bs L"
  using heap_okD [OF assms(1)] assms(2) ll_inv_cong [of "s\<lparr>oom := f\<rparr>" s]
  by (simp_all add: heap_ok_def table_def chain_at_def)

lemma table_survives_oom_witness:
  "runs_to (bnd (AllocateHashTable 4) (\<lambda>t. InsertHashTable 1 t \<lparr>kv_key = 5, kv_value = 100\<rparr>)) mem0 (\<lambda>_ s.
     runs_to (LookupHashTable 1 5) (s\<lparr>oom := (\<lambda>_. True)\<rparr>) (\<lambda>res _. res = (-1, None))) \<and>
   runs_to (AllocateHashTable 4) mem0 (\<lambda>t s.
     runs_to (InsertHashTable 1 t \<lparr>kv_key = 5, kv_value = 100\<rparr>) (s\<lparr>oom := (\<lambda>_. True)\<rparr>) (\<lambda>res s'.
       res = (0, None) \<and> map_option num_elements (ht_recs s' t) = Some 1))"
proof
  let ?f = "\<lambda>_ :: nat. True"
  show "runs_to (bnd (AllocateHashTable 4) (\<lambda>t. InsertHashTable 1 t \<lparr>kv_key = 5, kv_value = 100\<rparr>)) mem0 (\<lambda>_ s.
     runs_to (LookupHashTable 1 5) (s\<lparr>oom := ?f\<rparr>) (\<lambda>res _. res = (-1, None)))"
  proof (rule new_table_runs, rule runs_to_mono [OF ht_put [of 4 1 _ _ 0, folded One_nat_def]], assumption, simp)
    fix s assume "ht_ok 4 1 s [5 \<mapsto> (100 :: addr)]"
    then show "runs_to (LookupHashTable 1 5) (s\<lparr>oom := ?f\<rparr>) (\<lambda>res _. res = (-1, None))"
    proof (rule ht_okE)
      fix S r bs L
      assume T: "heap_ok s S" "table s S 1 r bs L" "idle r" and c: "contents L = [5 \<mapsto> (100 :: addr)]"
      have "bucket L 5 \<noteq> []" using fun_cong [OF c, of 5] by (auto simp: contents_def)
      then have "search_fails (s\<lparr>oom := ?f\<rparr>) (bucket L 5)" by (simp add: search_fails_def)
      with table_survives_oom [where k = 5, OF oom_tables [where f = ?f, OF T(1,2)] T(3), THEN conjunct1]
      show ?thesis by (auto elim: runs_to_mono)
    qed
  qed
  have "runs_to (bnd (AllocateHashTable 4) (\<lambda>t. bnd (gets (\<lambda>s. s)) (\<lambda>_. ret t))) mem0 (\<lambda>t s. t = 1 \<and> ht_ok 4 1 s Map.empty)"
    by (rule new_table_runs) (simp add: wp)
  then have "runs_to (AllocateHashTable 4) mem0 (\<lambda>t s. t = 1 \<and> ht_ok 4 1 s Map.empty)" by (simp add: wp)
  then show "runs_to (AllocateHashTable 4) mem0 (\<lambda>t s.
     runs_to (InsertHashTable 1 t \<lparr>kv_key = 5, kv_value = 100\<rparr>) (s\<lparr>oom := ?f\<rparr>) (\<lambda>res s'.
       res = (0, None) \<and> map_option num_elements (ht_recs s' t) = Some 1))"
  proof (rule runs_to_mono, elim conjE)
    fix t :: addr and s assume t: "t = 1" and "ht_ok 4 1 s Map.empty"
    from this(2) show "runs_to (InsertHashTable 1 t \<lparr>kv_key = 5, kv_value = 100\<rparr>) (s\<lparr>oom := ?f\<rparr>) (\<lambda>res s'.
       res = (0, None) \<and> map_option num_elements (ht_recs s' t) = Some 1)"
    proof (rule ht_okE)
      fix S r bs L
      assume T: "heap_ok s S" "table s S 1 r bs L" "idle r" and L: "length L = 4" "contents L = Map.empty"
        "num_elements r = of_nat (card (dom (Map.empty :: 64 word \<rightharpoonup> addr)))"
      have "length (bucket L 5) \<le> card (dom (contents L))"
        by (rule dom_contents(2)) (use tableD(9) [OF T(2)] L(1) in simp_all)
      also have "\<dots> = 0" by (simp add: L(2))
      finally have b: "bucket L 5 = []" by (simp only: le_zero_eq length_0_conv)
      have "entry_fails (s\<lparr>oom := ?f\<rparr>) (bucket L 5)" "\<not> search_fails (s\<lparr>oom := ?f\<rparr>) (bucket L 5)"
        unfolding b by (simp_all add: entry_fails_def search_fails_def)
      moreover have "num_elements r < 3 * num_buckets r" using L tableD(3) [OF T(2)] by simp
      ultimately have "runs_to (InsertHashTable (Suc 0) 1 \<lparr>kv_key = 5, kv_value = 100\<rparr>) (s\<lparr>oom := ?f\<rparr>)
          (\<lambda>res s'. res = (0, None) \<and> becomes (s\<lparr>oom := ?f\<rparr>) S 1 r bs L (contents L) (num_elements r + 1) s')"
        using table_survives_oom [where k = 5 and v = 100 and d = 0, OF oom_tables [where f = ?f, OF T(1,2)] T(3),
          THEN conjunct2, THEN conjunct2] L by (simp del: InsertHashTable.simps)
      then show ?thesis unfolding t One_nat_def
        by (rule runs_to_mono) (use L in \<open>auto simp: becomes_def dest: tableD(1)\<close>)
    qed
  qed
qed

end
