(* ===== verification/QueueBytes.thy ===== *)
theory QueueBytes
  imports Sender HashTableMap
begin

text \<open>
  The queue operations in terms of what the queues hold: the laws of queue.c that a client uses
  that allocates, fills, empties and frees its own queues, and what such a client leaves alone.
\<close>

section \<open>Frames\<close>

lemma q_frameD:
  assumes "q_frame s s'"
  shows "next_addr s \<le> next_addr s'" "chars s' = chars s" "infos s' = infos s" "oom s' = oom s"
    "ptr_arrays s' = ptr_arrays s" "files s' = files s" "fopen_fails s' = fopen_fails s"
    "net_in s' = net_in s"
  using assms unfolding q_frame_def by (cases s; cases s'; simp)+

lemma ht_frameD:
  assumes "ht_frame s s'"
  shows "next_addr s \<le> next_addr s'" "chars s' = chars s" "infos s' = infos s" "oom s' = oom s"
    "ptr_arrays s' = ptr_arrays s" "files s' = files s" "fopen_fails s' = fopen_fails s"
    "queues s' = queues s" "q_nodes s' = q_nodes s" "net_in s' = net_in s"
  using assms by (auto simp: ht_frame_def)

text \<open>\<open>ht_alike s s'\<close>: the part of memory that the hash tables live in is the same.\<close>

definition ht_alike :: "mem \<Rightarrow> mem \<Rightarrow> bool" where
  "ht_alike s s' \<longleftrightarrow> ll_nodes s' = ll_nodes s \<and> ll_lists s' = ll_lists s \<and> ll_iters s' = ll_iters s \<and>
     kvs s' = kvs s \<and> ht_recs s' = ht_recs s \<and> ptr_arrays s' = ptr_arrays s \<and>
     ht_iters s' = ht_iters s \<and> oom s' = oom s \<and> next_addr s \<le> next_addr s'"

lemma ht_alike_refl [simp]: "ht_alike s s"
  by (simp add: ht_alike_def)

lemma ht_alike_trans: "ht_alike s s' \<Longrightarrow> ht_alike s' s'' \<Longrightarrow> ht_alike s s''"
  by (simp add: ht_alike_def)

lemma q_frame_alike: "q_frame s s' \<Longrightarrow> ht_alike s s'"
  unfolding q_frame_def ht_alike_def by (cases s; cases s') simp

lemma wr_frame_alike: "wr_frame s s' \<Longrightarrow> ht_alike s s'"
  unfolding wr_frame_def ht_alike_def by (cases s; cases s') simp

lemma ht_ok_alike:
  assumes "ht_ok nb t s M" and "ht_alike s s'"
  shows "ht_ok nb t s' M"
  using assms(1)
proof (rule ht_okE)
  fix S r bs L
  assume *: "heap_ok s S" "table s S t r bs L" "idle r" "length L = nb" "contents L = M"
    "num_elements r = of_nat (card (dom M))" "\<And>n. \<not> oom s n"
  have A: "ll_nodes s' = ll_nodes s" "ll_lists s' = ll_lists s" "ll_iters s' = ll_iters s"
    "kvs s' = kvs s" "ht_recs s' = ht_recs s" "ptr_arrays s' = ptr_arrays s" "ht_iters s' = ht_iters s"
    "oom s' = oom s" "next_addr s \<le> next_addr s'" using assms(2) by (simp_all add: ht_alike_def)
  have "heap_ok (s\<lparr>next_addr := next_addr s'\<rparr>) S" by (rule heap_ok_next_addr [OF *(1) A(9)])
  then have "heap_ok s' S" using A ll_inv_cong [of s' "s\<lparr>next_addr := next_addr s'\<rparr>"] by (simp add: heap_ok_def)
  moreover have "table s' S t r bs L" using *(2) A by (simp add: table_def chain_at_def)
  ultimately show ?thesis using * A(8) unfolding ht_ok_def by auto
qed

section \<open>The operations\<close>

lemma sendable_fifoE:
  assumes "sendable s F" and "F q = Some xs"
  obtains S ns where "q_inv s S" and "S q = Some ns" and "xs = rev (map snd ns)" and "\<And>n. \<not> oom s n"
    and "F = (\<lambda>q. map_option (\<lambda>ns. rev (map snd ns)) (S q))"
  using assms q_fifoE [of s F q xs] by (auto simp: sendable_def)

lemma sendable_oom: "sendable s F \<Longrightarrow> \<not> oom s n"
  by (simp add: sendable_def q_fifo_def)

lemma sendable_next:
  assumes "sendable s F"
  shows "F (Suc (next_addr s)) = None"
proof -
  obtain S where "q_inv s S" "F = (\<lambda>q. map_option (\<lambda>ns. rev (map snd ns)) (S q))"
    using assms by (auto simp: sendable_def q_fifo_def)
  then show ?thesis using q_inv_fresh(3) [of s S "Suc (next_addr s)"] by simp
qed

text \<open>Only the queues, the bytes of what they hold, and the allocations matter.\<close>

lemma sendable_cong:
  assumes "sendable s F" and "queues s' = queues s" and "q_nodes s' = q_nodes s" and "oom s' = oom s"
    and "next_addr s \<le> next_addr s'" and "below (chars s') (next_addr s')"
    and "\<And>q xs x. F q = Some xs \<Longrightarrow> x \<in> set xs \<Longrightarrow> chars s' (fst x) = chars s (fst x)"
  shows "sendable s' F \<and> wire s' F = wire s F"
proof
  obtain S where S: "q_inv s S" "F = (\<lambda>q. map_option (\<lambda>ns. rev (map snd ns)) (S q))" "\<forall>n. \<not> oom s n"
    using assms(1) by (auto simp: sendable_def q_fifo_def)
  have "q_inv s' S"
    using structs_mono [OF q_inv_structs [OF S(1)] assms(5)] by (simp add: q_inv_def assms(2,3))
  with S(2,3) assms(4) have "q_fifo s' F" unfolding q_fifo_def by auto
  with assms show "sendable s' F" unfolding sendable_def by (simp add: locked_def)
  show "wire s' F = wire s F"
    unfolding wire_def using assms(7) by (intro ext map_option_cong refl map_cong) (auto simp: option.set_sel)
qed

lemma ht_frame_sendable:
  assumes "sendable s F" and "ht_frame s s'"
  shows "sendable s' F \<and> wire s' F = wire s F"
  using ht_frameD [OF assms(2)] assms(1)
  by (intro sendable_cong [OF assms(1)]) (auto simp: sendable_def intro: below_mono)

lemma sendable_allocate:
  assumes F: "sendable s F"
  shows "runs_to allocate_queue s (\<lambda>q s'. q = Suc (next_addr s) \<and> q_frame s s' \<and>
    sendable s' (F(q \<mapsto> [])) \<and> wire s' (F(q \<mapsto> [])) = (wire s F)(q \<mapsto> []))"
proof -
  obtain S where S: "q_inv s S" "F = (\<lambda>q. map_option (\<lambda>ns. rev (map snd ns)) (S q))" "\<And>n. \<not> oom s n"
    using F by (auto simp: sendable_def q_fifo_def)
  let ?q = "Suc (next_addr s)"
  have "runs_to allocate_queue s (\<lambda>q s'. q = ?q \<and> s' = s\<lparr>next_addr := ?q, queues := (queues s)(?q \<mapsto>
      \<lparr>q_head = NULL, q_tail = NULL, q_mutex = False, q_wrt = 1\<rparr>)\<rparr>)"
    using S(3) by (simp add: allocate_queue_def wp Let_def)
  from runs_to_conj [OF allocate_queue_law [OF S(1,3)] this] show ?thesis
  proof (rule runs_to_mono, goal_cases)
    case (1 q s')
    then have s': "q = ?q" "q_inv s' (S(?q \<mapsto> []))" "s' = s\<lparr>next_addr := ?q, queues := (queues s)(?q \<mapsto>
      \<lparr>q_head = NULL, q_tail = NULL, q_mutex = False, q_wrt = 1\<rparr>)\<rparr>" by auto
    have "q_frame s s'" by (simp add: s'(3) q_frame_def)
    moreover from q_fifo_upd [OF s'(2) this, of F "[]"] S have "q_fifo s' (F(?q \<mapsto> []))" by simp
    moreover have "separate (F(?q \<mapsto> []))" using F by (auto simp: sendable_def separate_def)
    ultimately show ?case using F s'(1)
      by (auto simp: sendable_def s'(3) locked_def wire_def fun_eq_iff)
  qed
qed

lemma sendable_enqueue:
  assumes F: "sendable s F" and xs: "F q = Some xs"
    and b: "chars s b = Some bs" "unat n \<le> length bs"
    and new: "\<And>q xs. F q = Some xs \<Longrightarrow> b \<notin> fst ` set xs"
  shows "runs_to (enqueue q b n) s (\<lambda>_ s'. q_frame s s' \<and> sendable s' (F(q \<mapsto> xs @ [(b, n)])) \<and>
    wire s' (F(q \<mapsto> xs @ [(b, n)])) = (wire s F)(q \<mapsto> the (wire s F q) @ [take (unat n) bs]))"
proof (rule sendable_fifoE [OF F xs])
  fix S ns assume S: "q_inv s S" "S q = Some ns" "xs = rev (map snd ns)" "\<And>n. \<not> oom s n"
      "F = (\<lambda>q. map_option (\<lambda>ns. rev (map snd ns)) (S q))"
  have sep: "separate (F(q \<mapsto> xs @ [(b, n)]))" using F xs new by (auto simp: sendable_def separate_def)
  have e: "runs_to (enqueue q b n) s (\<lambda>_ s'. q_inv s' (S(q \<mapsto> (Suc (next_addr s), b, n) # ns)) \<and>
      q_frame s s' \<and> locked s' = locked s)" using enqueue_law [OF S(1,2)] S(4) by simp
  show ?thesis
  proof (rule runs_to_mono [OF e], intro conjI)
    fix x s'
    assume s': "q_inv s' (S(q \<mapsto> (Suc (next_addr s), b, n) # ns)) \<and> q_frame s s' \<and> locked s' = locked s"
    then have "q_fifo s' (F(q \<mapsto> xs @ [(b, n)]))" using S by (auto elim: q_fifo_upd)
    moreover note c = q_frameD(1,2) [OF s' [THEN conjunct2, THEN conjunct1]]
    ultimately show "sendable s' (F(q \<mapsto> xs @ [(b, n)]))"
      using F s' b xs sep by (auto simp: sendable_def intro: below_mono)
    show "wire s' (F(q \<mapsto> xs @ [(b, n)])) = (wire s F)(q \<mapsto> the (wire s F q) @ [take (unat n) bs])"
      using xs b c by (auto simp: wire_def fun_eq_iff)
  qed simp
qed

lemma sendable_is_empty:
  assumes F: "sendable s F" and xs: "F q = Some xs"
  shows "is_empty q s = Inr (xs = [], s)"
proof (rule sendable_fifoE [OF F xs])
  fix S ns assume "q_inv s S" "S q = Some ns" "xs = rev (map snd ns)"
  then show ?thesis using is_empty_law [of s S q ns] by simp
qed

lemma sendable_dequeue:
  assumes F: "sendable s F" and xs: "F q = Some ((b, n) # xs)"
  shows "runs_to (dequeue q) s (\<lambda>r s'. r = (n, Some b) \<and> q_frame s s' \<and>
    sendable s' (F(q \<mapsto> xs)) \<and> wire s' (F(q \<mapsto> xs)) = (wire s F)(q := map_option tl (wire s F q)))"
proof (rule sendable_fifoE [OF F xs])
  fix S ns assume S: "q_inv s S" "S q = Some ns" "(b, n) # xs = rev (map snd ns)" "\<And>n. \<not> oom s n"
      "F = (\<lambda>q. map_option (\<lambda>ns. rev (map snd ns)) (S q))"
  from rev_Cons_last [OF S(3)] have ns: "ns \<noteq> []" "snd (last ns) = (b, n)" "xs = rev (map snd (butlast ns))" by auto
  have "separate F" using F by (simp add: sendable_def)
  from separate_tl(1) [OF this xs] have sep: "separate (F(q \<mapsto> xs))" .
  show ?thesis
  proof (rule runs_to_mono [OF dequeue_law [OF S(1,2)]], goal_cases)
    case (1 r s')
    then have s': "r = (n, Some b)" "q_inv s' (S(q \<mapsto> butlast ns))" "q_frame s s'" "locked s' = locked s"
      using ns by simp_all
    note c = q_frameD(1,2) [OF s'(3)]
    have "q_fifo s' (F(q \<mapsto> xs))" using s' S ns by (auto elim: q_fifo_upd)
    then have "sendable s' (F(q \<mapsto> xs))" using F s' xs sep c by (auto simp: sendable_def intro: below_mono)
    moreover have "wire s' (F(q \<mapsto> xs)) = (wire s F)(q := map_option tl (wire s F q))"
      using xs c by (auto simp: wire_def fun_eq_iff)
    ultimately show ?case using s' by simp
  qed
qed

lemma sendable_free:
  assumes F: "sendable s F" and xs: "F q = Some xs"
  shows "runs_to (free_queue q) s (\<lambda>_ s'. q_frame s s' \<and>
    sendable s' (F(q := None)) \<and> wire s' (F(q := None)) = (wire s F)(q := None))"
proof (rule sendable_fifoE [OF F xs])
  fix S ns assume S: "q_inv s S" "S q = Some ns" "\<And>n. \<not> oom s n"
      "F = (\<lambda>q. map_option (\<lambda>ns. rev (map snd ns)) (S q))"
  show ?thesis
  proof (rule runs_to_mono [OF free_queue_law [OF S(1,2)]], goal_cases)
    case (1 r s')
    then have s': "q_inv s' (S(q := None))" "q_frame s s'" "queues s' = (queues s)(q := None)" by auto
    note c = q_frameD [OF s'(2)]
    have "q_fifo s' (F(q := None))"
      unfolding q_fifo_def using s'(1) S c by (auto intro!: exI [of _ "S(q := None)"])
    moreover have "separate (F(q := None))" using F by (auto simp: sendable_def separate_def)
    ultimately have "sendable s' (F(q := None))"
      using F c s'(3) by (auto simp: sendable_def locked_def intro: below_mono)
    moreover have "wire s' (F(q := None)) = (wire s F)(q := None)" using c by (auto simp: wire_def fun_eq_iff)
    ultimately show ?case using s'(2) by simp
  qed
qed

end
