(* ===== verification/ReaderState.thy ===== *)
theory ReaderState
  imports Reader AbstractReader QueueBytes
begin

text \<open>
  How the memory of the receiving side represents the abstract reader: the table holds one record
  for each entry, a record owns its byte array until that is handed over and its waiting queue
  until its \<open>init_block\<close> comes, and records share nothing.
\<close>

section \<open>The representation\<close>

text \<open>What a table entry owns: its record, its byte array and its waiting queue.\<close>

record link =
  lk_info :: addr
  lk_buf :: "addr option"
  lk_queue :: "addr option"

type_synonym links = "32 word \<rightharpoonup> link"

type_synonym queued = "addr \<rightharpoonup> qitem list"

text \<open>The table as a map from 64-bit keys.\<close>

definition keyed :: "links \<Rightarrow> 64 word \<rightharpoonup> addr" where
  "keyed G k = (if unat k < 768 then map_option lk_info (G (ucast k)) else None)"

definition apart :: "link \<Rightarrow> link \<Rightarrow> bool" where
  "apart l l' \<longleftrightarrow> lk_info l \<noteq> lk_info l' \<and> (\<forall>b. lk_buf l = Some b \<longrightarrow> lk_buf l' \<noteq> Some b) \<and>
     (\<forall>q. lk_queue l = Some q \<longrightarrow> lk_queue l' \<noteq> Some q)"

definition unqueued :: "queued \<Rightarrow> addr \<Rightarrow> bool" where
  "unqueued F b \<longleftrightarrow> (\<forall>q xs. F q = Some xs \<longrightarrow> b \<notin> fst ` set xs)"

text \<open>
  A record against its entry. The flag \<open>sent\<close> of the records \<open>lent\<close> is still to be set: their
  delivery is under way.
\<close>

definition info_matches :: "32 word set \<Rightarrow> 32 word \<Rightarrow> link \<Rightarrow> entry \<Rightarrow> buffer_info \<Rightarrow> bool" where
  "info_matches lent w l e i \<longleftrightarrow>
     bi_tag i = w \<and> \<not> bi_mutex i \<and> bi_valid i = en_valid e \<and> bi_completed i = en_done e \<and>
     (w \<notin> lent \<longrightarrow> bi_sent i = en_sent e) \<and> bi_n_written i = en_written e \<and>
     bi_prev_tag i = en_prev e \<and> bi_next_tag i = en_next e \<and> bi_last_block i = en_last e \<and>
     length (en_data e) < 2 ^ 32 \<and> bi_buffer_size i = of_nat (length (en_data e)) \<and>
     lk_buf l = (if en_valid e \<and> \<not> en_sent e then Some (bi_buffer i) else None) \<and>
     lk_queue l = (if en_valid e \<or> bi_waiting_queue i = NULL then None else Some (bi_waiting_queue i))"

definition entry_at :: "(addr \<Rightarrow> bool) \<Rightarrow> mem \<Rightarrow> queued \<Rightarrow> 32 word set \<Rightarrow> 32 word \<Rightarrow> link \<Rightarrow> entry \<Rightarrow> bool" where
  "entry_at own s F lent w l e \<longleftrightarrow>
     (\<exists>i. infos s (lk_info l) = Some i \<and> info_matches lent w l e i) \<and>
     (\<forall>b. lk_buf l = Some b \<longrightarrow> chars s b = Some (en_data e) \<and> unqueued F b) \<and>
     (case lk_queue l of
        None \<Rightarrow> en_valid e \<or> en_waiting e = []
      | Some q \<Rightarrow> \<not> own q \<and> wire s F q = Some (en_waiting e)) \<and>
     (\<forall>blk \<in> set (en_waiting e). word_at blk 8 = Some w)"

text \<open>
  A record \<open>p\<close> whose waiting queue \<open>q\<close> is being emptied, with the blocks \<open>bss\<close> left: while the
  blocks for its tag are handled, the record may leave the table but stays in memory.
\<close>

definition pinned :: "(addr \<Rightarrow> bool) \<Rightarrow> mem \<Rightarrow> queued \<Rightarrow> links \<Rightarrow>
    32 word \<times> addr \<times> addr \<times> 8 word option list list \<Rightarrow> bool" where
  "pinned own s F G = (\<lambda>(k, p, q, bss).
     (\<exists>i. infos s p = Some i \<and> bi_waiting_queue i = q \<and>
        (\<forall>w l. G w = Some l \<longrightarrow> lk_info l = p \<longrightarrow> w = k \<and> bi_valid i)) \<and>
     \<not> own q \<and> wire s F q = Some bss \<and> (\<forall>w l. G w = Some l \<longrightarrow> lk_queue l \<noteq> Some q))"

text \<open>
  \<open>own\<close> are the queues of the handler, and \<open>dlv s F D\<close> says that the handler has taken the
  buffers \<open>D\<close>.
\<close>

definition represents :: "addr \<Rightarrow> (addr \<Rightarrow> bool) \<Rightarrow> (mem \<Rightarrow> queued \<Rightarrow> 8 word option list list \<Rightarrow> bool) \<Rightarrow>
    32 word set \<Rightarrow> (32 word \<times> addr \<times> addr \<times> 8 word option list list) option \<Rightarrow>
    mem \<Rightarrow> queued \<Rightarrow> links \<Rightarrow> areader \<Rightarrow> bool" where
  "represents t own dlv lent Z s F G st \<longleftrightarrow>
     ht_ok 256 t s (keyed G) \<and> sendable s F \<and> below (infos s) (next_addr s) \<and>
     (\<forall>w. rel_option (entry_at own s F lent w) (G w) (tab st w)) \<and>
     (\<forall>w. G w \<noteq> None \<longrightarrow> tag_ok w) \<and>
     (\<forall>w w' l l'. G w = Some l \<longrightarrow> G w' = Some l' \<longrightarrow> w \<noteq> w' \<longrightarrow> apart l l') \<and>
     dlv s F (out st) \<and> (\<forall>z. Z = Some z \<longrightarrow> pinned own s F G z)"

section \<open>Keys\<close>

lemma unat_ucast_64: "unat (ucast (w :: 32 word) :: 64 word) = unat w"
proof -
  have "unat w < 2 ^ 64" using unsigned_less [of w, where 'a = nat] by simp
  then show ?thesis by (simp add: unsigned_ucast_eq take_bit_nat_eq_self)
qed

lemma ucast_scast_64: "ucast (scast (w :: 32 word) :: 64 word) = w"
proof (rule bit_word_eqI)
  fix n assume "n < LENGTH(32)"
  then have "n \<le> 31" by simp
  then show "bit (ucast (scast w :: 64 word) :: 32 word) n = bit w n"
    by (simp add: bit_simps min_absorb2)
qed

lemma ucast_eq_64: "unat k < 2 ^ 32 \<Longrightarrow> (ucast (k :: 64 word) = (w :: 32 word)) = (k = ucast w)"
proof -
  assume "unat k < 2 ^ 32"
  then have "unat (ucast k :: 32 word) = unat k" by (simp add: unsigned_ucast_eq take_bit_nat_eq_self)
  then show ?thesis by (metis unat_ucast_64 word_unat_eq_iff)
qed

text \<open>A tag below 768 has one key, whether it is extended with its sign or with zeros.\<close>

lemma scast_tag: "tag_ok w \<Longrightarrow> (scast w :: 64 word) = ucast w"
proof -
  assume "tag_ok w"
  then have *: "sint w = int (unat w)" by (intro sint_small) (simp add: tag_ok_def)
  have "(scast w :: 64 word) = word_of_int (sint w)" by (rule scast_eq)
  also have "word_of_int (sint w) = (word_of_int (uint w) :: 64 word)"
    unfolding * by simp
  also have "\<dots> = ucast w" by (rule ucast_eq [symmetric])
  finally show ?thesis .
qed

lemma keyed_scast:
  assumes "\<And>w. G w \<noteq> None \<Longrightarrow> tag_ok w"
  shows "keyed G (scast w) = map_option lk_info (G w)"
proof (cases "G w = None")
  case False
  with assms have "tag_ok w" by blast
  then show ?thesis by (simp add: keyed_def scast_tag unat_ucast_64 tag_ok_def) (metis ucast_scast_64 scast_tag \<open>tag_ok w\<close>)
qed (simp add: keyed_def ucast_scast_64)

lemma keyed_upd: "tag_ok w \<Longrightarrow> keyed (G(w \<mapsto> l)) = (keyed G)(ucast w \<mapsto> lk_info l)"
  by (auto simp: keyed_def fun_eq_iff ucast_eq_64 unat_ucast_64 tag_ok_def)

lemma keyed_del: "tag_ok w \<Longrightarrow> keyed (G(w := None)) = (keyed G)(ucast w := None)"
  by (auto simp: keyed_def fun_eq_iff ucast_eq_64 unat_ucast_64 tag_ok_def)

lemma keyed_same: "G w = Some l \<Longrightarrow> lk_info l' = lk_info l \<Longrightarrow> keyed (G(w \<mapsto> l')) = keyed G"
  by (auto simp: keyed_def fun_eq_iff)

text \<open>A table with these keys never reaches the size at which it is resized.\<close>

lemma card_keyed:
  assumes "tag_ok w" and "G w = None"
  shows "card (dom (keyed G)) < 768"
proof -
  have "dom (keyed G) \<subseteq> of_nat ` ({..<768} - {unat w})"
  proof
    fix k assume k: "k \<in> dom (keyed G)"
    then have lt: "unat k < 768" and g: "G (ucast k) \<noteq> None" by (auto simp: keyed_def split: if_splits)
    have "unat k \<noteq> unat w"
    proof
      assume "unat k = unat w"
      then have "k = ucast w" by (metis unat_ucast_64 word_unat_eq_iff)
      with lt have "ucast k = w" by (simp add: ucast_eq_64)
      with g assms(2) show False by simp
    qed
    with lt show "k \<in> of_nat ` ({..<768} - {unat w})" by (intro image_eqI [of _ _ "unat k"]) simp_all
  qed
  then have "card (dom (keyed G)) \<le> card ({..<768} - {unat w})" by (rule surj_card_le [rotated]) simp
  also have "\<dots> < 768" using assms(1) by (simp add: tag_ok_def)
  finally show ?thesis .
qed

section \<open>Steps of the representation\<close>

definition untouched :: "mem \<Rightarrow> queued \<Rightarrow> mem \<Rightarrow> queued \<Rightarrow> link \<Rightarrow> bool" where
  "untouched s F s' F' l \<longleftrightarrow> infos s' (lk_info l) = infos s (lk_info l) \<and>
     (\<forall>b. lk_buf l = Some b \<longrightarrow> chars s' b = chars s b \<and> (unqueued F b \<longrightarrow> unqueued F' b)) \<and>
     (\<forall>q. lk_queue l = Some q \<longrightarrow> wire s' F' q = wire s F q)"

lemma entry_at_untouched:
  assumes "entry_at own s F lent w l e" and "untouched s F s' F' l" and "w \<in> lent' \<longleftrightarrow> w \<in> lent"
  shows "entry_at own s' F' lent' w l e"
  using assms unfolding entry_at_def untouched_def info_matches_def by (auto split: option.splits)

lemma apart_sym: "apart l l' \<Longrightarrow> apart l' l"
  unfolding apart_def by metis

lemma representsD:
  assumes "represents t own dlv lent Z s F G st"
  shows "ht_ok 256 t s (keyed G)" "sendable s F" "below (infos s) (next_addr s)"
    "rel_option (entry_at own s F lent w) (G w) (tab st w)" "G w \<noteq> None \<Longrightarrow> tag_ok w"
    "G w = Some l \<Longrightarrow> G w' = Some l' \<Longrightarrow> w \<noteq> w' \<Longrightarrow> apart l l'"
    "dlv s F (out st)" "Z = Some z \<Longrightarrow> pinned own s F G z"
    "tab st w = None \<longleftrightarrow> G w = None"
proof -
  show "rel_option (entry_at own s F lent w) (G w) (tab st w)" using assms unfolding represents_def by blast
  then show "tab st w = None \<longleftrightarrow> G w = None" by (cases "G w"; cases "tab st w") auto
qed (use assms in \<open>unfold represents_def, blast+\<close>)

lemma represents_entryE:
  assumes "represents t own dlv lent Z s F G st" and "tab st w = Some e"
  obtains l i where "G w = Some l" and "infos s (lk_info l) = Some i" and "info_matches lent w l e i"
    and "entry_at own s F lent w l e" and "tag_ok w"
proof -
  from representsD(4) [OF assms(1), of w] assms(2) obtain l where l: "G w = Some l" "entry_at own s F lent w l e"
    by (auto simp: rel_option_iff split: option.splits)
  with representsD(5) [OF assms(1), of w] that show thesis unfolding entry_at_def by blast
qed

lemma represents_change:
  assumes r: "represents t own dlv lent Z s F G st"
    and s': "ht_ok 256 t s' (keyed G')" "sendable s' F'" "below (infos s') (next_addr s')" "dlv s' F' (out st')"
    and other: "\<And>w. w \<noteq> k \<Longrightarrow> G' w = G w \<and> tab st' w = tab st w \<and> (w \<in> lent' \<longleftrightarrow> w \<in> lent)"
    and same: "\<And>w l. w \<noteq> k \<Longrightarrow> G w = Some l \<Longrightarrow> untouched s F s' F' l"
    and new: "rel_option (entry_at own s' F' lent' k) (G' k) (tab st' k)" "G' k \<noteq> None \<Longrightarrow> tag_ok k"
    and ap: "\<And>w l l'. w \<noteq> k \<Longrightarrow> G' k = Some l \<Longrightarrow> G w = Some l' \<Longrightarrow> apart l l'"
    and z: "\<And>z. Z' = Some z \<Longrightarrow> pinned own s' F' G' z"
  shows "represents t own dlv lent' Z' s' F' G' st'"
  unfolding represents_def
proof (intro conjI allI impI)
  fix w show "rel_option (entry_at own s' F' lent' w) (G' w) (tab st' w)"
  proof (cases "w = k")
    case False
    with other representsD(4) [OF r, of w] same [OF False] show ?thesis
      by (cases "G w"; cases "tab st w") (auto intro: entry_at_untouched)
  qed (use new in simp)
next
  fix w assume "G' w \<noteq> None"
  then show "tag_ok w" using other [of w] new(2) representsD(5) [OF r, of w] by (cases "w = k") simp_all
next
  fix w w' l l' assume "G' w = Some l" "G' w' = Some l'" "w \<noteq> w'"
  then show "apart l l'"
    using other [of w] other [of w'] ap [of w l' l] ap [of w' l l'] representsD(6) [OF r, of w l w' l'] apart_sym
    by (cases "w = k"; cases "w' = k") auto
qed (use s' z in auto)

text \<open>A step that changes no entry.\<close>

lemma represents_same:
  assumes r: "represents t own dlv lent Z s F G st"
    and s': "ht_ok 256 t s' (keyed G)" "sendable s' F'" "below (infos s') (next_addr s')" "dlv s' F' (out st)"
    and same: "\<And>w l. G w = Some l \<Longrightarrow> untouched s F s' F' l"
    and z: "\<And>z. Z' = Some z \<Longrightarrow> pinned own s' F' G z"
  shows "represents t own dlv lent Z' s' F' G st"
proof (rule represents_change [OF r s', where k = 0])
  show "rel_option (entry_at own s' F' lent 0) (G 0) (tab st 0)"
    using representsD(4) [OF r, of 0] same [of 0]
    by (cases "G 0"; cases "tab st 0") (auto intro: entry_at_untouched)
qed (use representsD(5,6) [OF r] same z in \<open>auto intro: apart_sym\<close>)

text \<open>Memory that belongs to no entry.\<close>

lemma pinned_cong:
  assumes "pinned own s F G z" and "\<And>p i. infos s p = Some i \<Longrightarrow> infos s' p = Some i"
    and "wire s' F' (fst (snd (snd z))) = wire s F (fst (snd (snd z)))"
  shows "pinned own s' F' G z"
  using assms unfolding pinned_def by (force split: prod.splits)

lemma untouched_eq:
  assumes "infos s' = infos s" and "chars s' = chars s" and "wire s' F = wire s F"
  shows "untouched s F s' F l"
  using assms by (simp add: untouched_def)
end
