(* ===== verification/ReaderSim.thy ===== *)
theory ReaderSim
  imports ReaderState
begin

text \<open>
  The functions of multiplex_reader.c do in memory what the abstract reader does, whatever
  handler takes the finished buffers, as long as it keeps its contract.
\<close>

section \<open>The contract of a handler\<close>

text \<open>
  \<open>handled own s F b s' F'\<close>: the handler has freed the byte array \<open>b\<close>; it may have allocated,
  and put new blocks on its own queues, and has left everything else alone.
\<close>

definition handled :: "(addr \<Rightarrow> bool) \<Rightarrow> mem \<Rightarrow> queued \<Rightarrow> addr \<Rightarrow> mem \<Rightarrow> queued \<Rightarrow> bool" where
  "handled own s F b s' F' \<longleftrightarrow> sendable s' F' \<and> ht_alike s s' \<and> infos s' = infos s \<and>
     net_in s' = net_in s \<and>
     (\<forall>a. a \<noteq> b \<longrightarrow> a \<le> next_addr s \<longrightarrow>
        (chars s a \<noteq> None \<longrightarrow> chars s' a = chars s a) \<and> (unqueued F a \<longrightarrow> unqueued F' a)) \<and>
     (\<forall>q. \<not> own q \<longrightarrow> F' q = F q)"

text \<open>
  \<open>takes bs\<close>: the handler can take a buffer with the bytes \<open>bs\<close>. What it has taken does not
  depend on memory that is not its own.
\<close>

locale buffer_handler =
  fixes handler :: "addr \<Rightarrow> 32 word \<Rightarrow> (mem, unit) prog"
    and own :: "addr \<Rightarrow> bool"
    and dlv :: "mem \<Rightarrow> queued \<Rightarrow> 8 word option list list \<Rightarrow> bool"
    and takes :: "8 word option list \<Rightarrow> bool"
  assumes handler_law: "sendable s F \<Longrightarrow> dlv s F D \<Longrightarrow> takes bs \<Longrightarrow> chars s b = Some bs \<Longrightarrow>
      unqueued F b \<Longrightarrow> unat n = length bs \<Longrightarrow>
      runs_to (handler b n) s (\<lambda>_ s'. \<exists>F'. handled own s F b s' F' \<and> dlv s' F' (D @ [bs]))"
    and dlv_stable: "dlv s F D \<Longrightarrow> \<forall>q. own q \<longrightarrow> F' q = F q \<and> wire s' F' q = wire s F q \<Longrightarrow>
      ptr_arrays s' = ptr_arrays s \<Longrightarrow> files s' = files s \<Longrightarrow> fopen_fails s' = fopen_fails s \<Longrightarrow>
      net_in s' = net_in s \<Longrightarrow> dlv s' F' D"
    and own_queue: "dlv s F D \<Longrightarrow> own q \<Longrightarrow> F q \<noteq> None"
begin

abbreviation rep :: "addr \<Rightarrow> 32 word set \<Rightarrow> (32 word \<times> addr \<times> addr \<times> 8 word option list list) option \<Rightarrow>
    mem \<Rightarrow> queued \<Rightarrow> links \<Rightarrow> areader \<Rightarrow> bool" where
  "rep t \<equiv> represents t own dlv"

section \<open>The table\<close>

lemma rep_frame:
  assumes r: "rep t lent Z s F G st" and f: "ht_frame s s'" and ok: "ht_ok 256 t s' (keyed G)"
  shows "rep t lent Z s' F G st"
proof -
  note R = representsD [OF r] and fr = ht_frameD [OF f]
  have w: "sendable s' F" "wire s' F = wire s F" using ht_frame_sendable [OF R(2) f] by simp_all
  show ?thesis
  proof (rule represents_same [OF r ok w(1)])
    show "below (infos s') (next_addr s')" using R(3) fr(1,3) by (auto intro: below_mono)
    show "dlv s' F (out st)" using R(7) fr w by (auto elim: dlv_stable)
  qed (use R(8) fr w in \<open>auto intro: untouched_eq elim: pinned_cong\<close>)
qed

lemma lookup_rep:
  assumes r: "rep t lent Z s F G st"
  shows "runs_to (LookupHashTable t (scast w)) s (\<lambda>res s'.
    res = (case G w of None \<Rightarrow> (0, None) | Some l \<Rightarrow> (1, Some \<lparr>kv_key = scast w, kv_value = lk_info l\<rparr>)) \<and>
    rep t lent Z s' F G st \<and> ht_frame s s')"
proof (rule runs_to_mono [OF ht_lookup [OF representsD(1) [OF r]]], goal_cases)
  case (1 res s')
  then have "res = answer (keyed G) (scast w)" "rep t lent Z s' F G st" "ht_frame s s'"
    by (auto intro: rep_frame [OF r])
  moreover have "keyed G (scast w) = map_option lk_info (G w)"
    by (rule keyed_scast) (rule representsD(5) [OF r])
  ultimately show ?case by (auto simp: answer_def split: option.splits)
qed

lemma rep_drop:
  assumes r: "rep t lent Z s F G st" and w: "tag_ok w"
    and f: "ht_frame s s'" and ok: "ht_ok 256 t s' ((keyed G)(ucast w := None))"
  shows "rep t lent Z s' F (G(w := None)) (drop_entry w st)"
proof -
  note R = representsD [OF r] and fr = ht_frameD [OF f]
  have wi: "sendable s' F" "wire s' F = wire s F" using ht_frame_sendable [OF R(2) f] by simp_all
  show ?thesis
  proof (rule represents_change [OF r _ wi(1), where k = w])
    show "ht_ok 256 t s' (keyed (G(w := None)))" using ok by (simp add: keyed_del [OF w])
    show "below (infos s') (next_addr s')" using R(3) fr(1,3) by (auto intro: below_mono)
    show "dlv s' F (out (drop_entry w st))" using R(7) fr wi by (auto elim: dlv_stable)
    fix z assume "Z = Some z"
    then have "pinned own s' F G z" using R(8) fr wi by (auto elim: pinned_cong)
    then show "pinned own s' F (G(w := None)) z" unfolding pinned_def by (auto split: if_splits)
  qed (use fr wi in \<open>auto intro: untouched_eq\<close>)
qed

lemma remove_rep:
  assumes r: "rep t lent Z s F G st" and w: "tag_ok w"
  shows "runs_to (RemoveFromHashTable t (scast w)) s (\<lambda>_ s'.
    rep t lent Z s' F (G(w := None)) (drop_entry w st) \<and> ht_frame s s')"
  by (rule runs_to_mono [OF ht_remove [OF representsD(1) [OF r], of "scast w"]])
    (use rep_drop [OF r w] in \<open>simp add: scast_tag [OF w]\<close>)

section \<open>Delivery\<close>

lemma handler_rep:
  assumes r: "rep t lent Z s F G st" and e: "tab st w = Some e" "en_valid e" "\<not> en_sent e"
    and l: "G w = Some l" "infos s (lk_info l) = Some i" and t: "takes (en_data e)"
  shows "runs_to (handler (bi_buffer i) (bi_buffer_size i)) s (\<lambda>_ s'. \<exists>F'. infos s' = infos s \<and>
    rep t (insert w lent) Z s' F' (G(w \<mapsto> l\<lparr>lk_buf := None\<rparr>))
      (put_entry w (e\<lparr>en_sent := True\<rparr>) (st\<lparr>out := out st @ [en_data e]\<rparr>)))"
proof -
  note R = representsD [OF r]
  from represents_entryE [OF r e(1)] l have m: "info_matches lent w l e i" "entry_at own s F lent w l e" "tag_ok w"
    by (metis option.inject)+
  from m(1) e have b: "lk_buf l = Some (bi_buffer i)" "lk_queue l = None"
    and n: "unat (bi_buffer_size i) = length (en_data e)"
    by (auto simp: info_matches_def unat_of_nat32)
  from m(2) b have c: "chars s (bi_buffer i) = Some (en_data e)" "unqueued F (bi_buffer i)" 
    "\<forall>blk \<in> set (en_waiting e). word_at blk 8 = Some w" by (auto simp: entry_at_def)
  show ?thesis
  proof (rule runs_to_mono [OF handler_law [OF R(2,7) t c(1,2) n]], elim exE conjE, goal_cases)
    case (1 x s' F')
    then have H: "sendable s' F'" "ht_alike s s'" "infos s' = infos s" "dlv s' F' (out st @ [en_data e])"
      "\<And>a. a \<noteq> bi_buffer i \<Longrightarrow> a \<le> next_addr s \<Longrightarrow> chars s a \<noteq> None \<Longrightarrow> chars s' a = chars s a"
      "\<And>a. a \<noteq> bi_buffer i \<Longrightarrow> a \<le> next_addr s \<Longrightarrow> unqueued F a \<Longrightarrow> unqueued F' a"
      "\<And>q. \<not> own q \<Longrightarrow> F' q = F q"
      unfolding handled_def by blast+
    have na: "next_addr s \<le> next_addr s'" using H(2) by (simp add: ht_alike_def)
    have cb: "below (chars s) (next_addr s)" using R(2) by (simp add: sendable_def)
    have wi: "wire s' F' q = wire s F q" if q: "\<not> own q" for q
    proof (cases "F q")
      case (Some xs)
      have "chars s' (fst x) = chars s (fst x)" if x: "x \<in> set xs" for x
      proof -
        from sendable_item [OF R(2) Some x] obtain bs where "chars s (fst x) = Some bs" .
        moreover have "fst x \<noteq> bi_buffer i" using c(2) Some x unfolding unqueued_def by (metis imageI)
        ultimately show ?thesis using H(5) below_bound [OF cb] by (metis option.distinct(1))
      qed
      then show ?thesis by (simp add: wire_def H(7) [OF q] Some)
    qed (simp add: wire_def H(7) [OF q])
    have un: "untouched s F s' F' l'" if l': "w' \<noteq> w" "G w' = Some l'" for w' l'
    proof -
      from R(4) [of w'] l'(2) obtain e' where e': "entry_at own s F lent w' l' e'" by (auto simp: rel_option_iff split: option.splits)
      from R(6) [OF l'(2) l(1) l'(1)] b have "lk_buf l' \<noteq> Some (bi_buffer i)" by (auto simp: apart_def)
      then show ?thesis
        using e' H(3,5,6) wi below_bound [OF cb] unfolding entry_at_def untouched_def
        by (auto split: option.splits)
    qed
    show ?case
    proof (intro exI conjI, rule H(3), rule represents_change [OF r _ H(1) _ _ _ un, where k = w])
      show "ht_ok 256 t s' (keyed (G(w \<mapsto> l\<lparr>lk_buf := None\<rparr>)))"
        using ht_ok_alike [OF R(1) H(2)] by (simp add: keyed_same [of G, OF l(1)])
      show "below (infos s') (next_addr s')" using R(3) H(3) na by (auto intro: below_mono)
    next
      fix z assume "Z = Some z"
      with R(8) have "pinned own s F G z" by blast
      then show "pinned own s' F' (G(w \<mapsto> l\<lparr>lk_buf := None\<rparr>)) z"
        using wi H(3) l(1) by (auto simp: pinned_def split: if_splits)
    next
      have "info_matches (insert w lent) w (l\<lparr>lk_buf := None\<rparr>) (e\<lparr>en_sent := True\<rparr>) i"
        using m(1) by (simp add: info_matches_def)
      then show "rel_option (entry_at own s' F' (insert w lent) w) ((G(w \<mapsto> l\<lparr>lk_buf := None\<rparr>)) w)
          (tab (put_entry w (e\<lparr>en_sent := True\<rparr>) (st\<lparr>out := out st @ [en_data e]\<rparr>)) w)"
        using l(2) e(2) b(2) c(3) H(3) by (simp add: entry_at_def)
    next
      fix w' l1 l2 assume "w' \<noteq> w" "(G(w \<mapsto> l\<lparr>lk_buf := None\<rparr>)) w = Some l1" "G w' = Some l2"
      then show "apart l1 l2" using R(6) [OF l(1), of w' l2] by (auto simp: apart_def)
    qed (use H(4) m(3) in simp_all)
  qed
qed

end


section \<open>Finished buffers\<close>

context buffer_handler
begin

text \<open>A store to the record of the entry \<open>w\<close>, or to one that is in no entry.\<close>

lemma rep_info:
  fixes s :: mem and p i'
  defines "s' \<equiv> s\<lparr>infos := (infos s)(p \<mapsto> i')\<rparr>"
  assumes r: "rep t lent Z s F G st" and i: "infos s p = Some i"
    and only: "\<And>v l. G v = Some l \<Longrightarrow> lk_info l = p \<Longrightarrow> v = w"
    and other: "\<And>v. v \<noteq> w \<Longrightarrow> G' v = G v \<and> tab st' v = tab st v \<and> (v \<in> lent' \<longleftrightarrow> v \<in> lent)"
    and G': "keyed G' = keyed G" "out st' = out st" "G' w \<noteq> None \<Longrightarrow> tag_ok w"
    and new: "rel_option (entry_at own s' F lent' w) (G' w) (tab st' w)"
    and ap: "\<And>v l l'. v \<noteq> w \<Longrightarrow> G' w = Some l \<Longrightarrow> G v = Some l' \<Longrightarrow> apart l l'"
    and z: "\<And>z. Z = Some z \<Longrightarrow> pinned own s F G z \<Longrightarrow> pinned own s' F G' z"
  shows "rep t lent' Z s' F G' st'"
proof -
  note R = representsD [OF r]
  have alike: "ht_alike s s'" by (simp add: ht_alike_def s'_def)
  have w: "sendable s' F \<and> wire s' F = wire s F"
    by (rule sendable_cong [OF R(2)]) (use R(2) in \<open>simp_all add: s'_def sendable_def\<close>)
  show ?thesis
  proof (rule represents_change [OF r _ _ _ _ other _ new G'(3) ap])
    show "ht_ok 256 t s' (keyed G')" using ht_ok_alike [OF R(1) alike] by (simp add: G'(1))
    show "below (infos s') (next_addr s')" using R(3) i by (simp add: s'_def)
    show "dlv s' F (out st')" using R(7) w by (auto simp: G'(2) s'_def elim: dlv_stable)
    fix v l assume "v \<noteq> w" "G v = Some l"
    then show "untouched s F s' F l" using only [of v l] w by (auto simp: untouched_def s'_def)
  qed (use w z R(8) in auto)
qed

lemma mark_sent:
  assumes r: "rep t (insert w lent) Z s F G st" and p: "infos s p = Some i"
    and only: "\<And>v l. G v = Some l \<Longrightarrow> lk_info l = p \<longleftrightarrow> v = w"
    and e: "\<And>e. tab st w = Some e \<Longrightarrow> en_sent e" and w: "w \<notin> lent"
  shows "rep t lent Z (s\<lparr>infos := (infos s)(p \<mapsto> i\<lparr>bi_sent := True\<rparr>)\<rparr>) F G st"
proof (rule rep_info [OF r p])
  note R = representsD [OF r]
  show "rel_option (entry_at own (s\<lparr>infos := (infos s)(p \<mapsto> i\<lparr>bi_sent := True\<rparr>)\<rparr>) F lent w) (G w) (tab st w)"
  proof (cases "G w")
    case (Some l)
    with R(4) [of w] obtain d where d: "tab st w = Some d" "entry_at own s F (insert w lent) w l d"
      by (auto simp: rel_option_iff split: option.splits)
    moreover have "lk_info l = p" using only Some by blast
    ultimately show ?thesis
      using e [OF d(1)] p Some by (auto simp: entry_at_def info_matches_def wire_def split: option.splits)
  qed (use R(4) [of w] in \<open>auto simp: rel_option_iff split: option.splits\<close>)
  fix z assume "pinned own s F G z"
  then show "pinned own (s\<lparr>infos := (infos s)(p \<mapsto> i\<lparr>bi_sent := True\<rparr>)\<rparr>) F G z"
    using p by (fastforce simp: pinned_def wire_def)
qed (use only w representsD(5,6) [OF r] in \<open>auto intro: apart_sym\<close>)

lemma next_rep:
  assumes "a_next f w st = Some st'" and "rep t lent Z s F G st" and "set (out st') \<subseteq> {b. takes b}"
    and "\<forall>v \<in> lent. \<exists>e. tab st v = Some e \<and> en_sent e" and "G w = Some l"
  shows "runs_to (handle_finished_buffer_next f handler t (lk_info l)) s (\<lambda>_ s'. \<exists>F' G'.
    rep t lent Z s' F' G' st' \<and> (\<forall>v l'. G' v = Some l' \<longrightarrow> (\<exists>l. G v = Some l \<and> lk_info l = lk_info l')))"
  using assms
proof (induction f arbitrary: w st st' lent s F G l)
  case (Suc f)
  note R = representsD [OF Suc.prems(2)]
  from Suc.prems(1) obtain e where e: "tab st w = Some e" "en_valid e" "\<not> en_sent e"
    by (auto split: option.splits if_splits)
  from represents_entryE [OF Suc.prems(2) e(1)] Suc.prems(5) obtain i where
    i: "infos s (lk_info l) = Some i" "info_matches lent w l e i" "tag_ok w" by (metis option.inject)
  from i(2) have fields: "bi_tag i = w" "bi_last_block i = en_last e" "bi_next_tag i = en_next e"
    by (simp_all add: info_matches_def)
  have wl: "w \<notin> lent" using Suc.prems(4) e by auto
  let ?st = "put_entry w (e\<lparr>en_sent := True\<rparr>) (st\<lparr>out := out st @ [en_data e]\<rparr>)"
  let ?G = "G(w \<mapsto> l\<lparr>lk_buf := None\<rparr>)"
  have st': "if en_last e then st' = ?st else
      (case tab ?st (en_next e) of None \<Rightarrow> st' = ?st | Some n \<Rightarrow>
        if en_done n then (\<exists>st2. a_next f (en_next e) ?st = Some st2 \<and> st' = drop_entry w st2) else st' = ?st)"
    using Suc.prems(1) e by (auto simp: Let_def split: option.splits if_splits)
  have "set (out ?st) \<subseteq> set (out st')"
    using st' a_next_out [of f "en_next e" ?st] by (auto split: option.splits if_splits)
  with Suc.prems(3) have takes: "takes (en_data e)" by auto
  have uniq: "lk_info l' = lk_info l \<longleftrightarrow> v = w" if "?G v = Some l'" for v l'
    using that R(6) [OF Suc.prems(5), of v l'] by (auto simp: apart_def split: if_splits)
  have mark: "rep t lent Z (s1\<lparr>infos := (infos s1)(lk_info l \<mapsto> i1\<lparr>bi_sent := True\<rparr>)\<rparr>) F1 ?G ?st"
    if "rep t (insert w lent) Z s1 F1 ?G ?st" "infos s1 (lk_info l) = Some i1" for s1 F1 i1
    by (rule mark_sent [OF that uniq _ wl]) simp_all
  have links: "\<forall>v l'. ?G v = Some l' \<longrightarrow> (\<exists>l. G v = Some l \<and> lk_info l = lk_info l')"
    using Suc.prems(5) by auto
  have fin: "runs_to (wr_info (lk_info l) (bi_sent_update (\<lambda>_. True))) s1 (\<lambda>_ s'. \<exists>F' G'.
      rep t lent Z s' F' G' st' \<and> (\<forall>v l'. G' v = Some l' \<longrightarrow> (\<exists>l. G v = Some l \<and> lk_info l = lk_info l')))"
    if "st' = ?st" "rep t (insert w lent) Z s1 F1 ?G ?st" "infos s1 (lk_info l) = Some i1" for s1 F1 i1
    unfolding wp that(3) option.case that(1) using mark [OF that(2,3)] links by blast
  show ?case
    unfolding handle_finished_buffer_next.simps runs_to_bnd runs_to_seq runs_to_load i(1) option.case
  proof (rule runs_to_mono [OF handler_rep [OF Suc.prems(2) e Suc.prems(5) i(1) takes]], elim exE conjE)
    fix s1 F1 assume s1: "infos s1 = infos s" and r1: "rep t (insert w lent) Z s1 F1 ?G ?st"
    show "case infos s1 (lk_info l) of None \<Rightarrow> False | Some j \<Rightarrow>
        runs_to (if bi_last_block j then ret (0, None) else LookupHashTable t (scast (bi_next_tag j))) s1
         (\<lambda>x s'. runs_to (case x of (res, next_kv) \<Rightarrow>
            seq (case next_kv of None \<Rightarrow> ret () | Some kv \<Rightarrow>
                if res = 1 then bnd (rd_info (kv_value kv)) (\<lambda>next_buf.
                  if bi_completed next_buf then
                    seq (handle_finished_buffer_next f handler t (kv_value kv))
                   (bnd (rd_info (lk_info l)) (\<lambda>i. bnd (RemoveFromHashTable t (scast (bi_tag i))) (\<lambda>_. ret ())))
                  else ret ()) else ret ())
             (wr_info (lk_info l) (bi_sent_update (\<lambda>_. True)))) s'
           (\<lambda>_ s'. \<exists>F' G'. rep t lent Z s' F' G' st' \<and>
              (\<forall>v l'. G' v = Some l' \<longrightarrow> (\<exists>l. G v = Some l \<and> lk_info l = lk_info l'))))"
    proof (cases "en_last e")
      case True
      with st' have "st' = ?st" by simp
      from fin [OF this r1] s1 i(1) True fields(2) show ?thesis
        by (simp add: runs_to_seq runs_to_ret)
    next
      case False
      show ?thesis
        unfolding s1 i(1) option.case fields(2,3) if_not_P [OF False]
      proof (rule runs_to_mono [OF lookup_rep [OF r1, of "en_next e"]], elim conjE)
        fix x s2 assume x: "x = (case ?G (en_next e) of None \<Rightarrow> (0, None)
            | Some l \<Rightarrow> (1, Some \<lparr>kv_key = scast (en_next e), kv_value = lk_info l\<rparr>))"
          and r2: "rep t (insert w lent) Z s2 F1 ?G ?st" and f2: "ht_frame s1 s2"
        from ht_frameD(3) [OF f2] s1 i(1) have i2: "infos s2 (lk_info l) = Some i" by simp
        show "runs_to (case x of (res, next_kv) \<Rightarrow>
            seq (case next_kv of None \<Rightarrow> ret () | Some kv \<Rightarrow>
                if res = 1 then bnd (rd_info (kv_value kv)) (\<lambda>next_buf.
                  if bi_completed next_buf then
                    seq (handle_finished_buffer_next f handler t (kv_value kv))
                   (bnd (rd_info (lk_info l)) (\<lambda>i. bnd (RemoveFromHashTable t (scast (bi_tag i))) (\<lambda>_. ret ())))
                  else ret ()) else ret ())
             (wr_info (lk_info l) (bi_sent_update (\<lambda>_. True)))) s2
           (\<lambda>_ s'. \<exists>F' G'. rep t lent Z s' F' G' st' \<and>
              (\<forall>v l'. G' v = Some l' \<longrightarrow> (\<exists>l. G v = Some l \<and> lk_info l = lk_info l')))"
        proof (cases "tab ?st (en_next e)")
          case None
          with representsD(9) [OF r2] have "?G (en_next e) = None" by blast
          with x have "x = (0, None)" by simp
          moreover from st' False None have "st' = ?st" by simp
          ultimately show ?thesis using fin [OF _ r2 i2] by (simp add: runs_to_seq runs_to_ret)
        next
          case (Some n)
          from represents_entryE [OF r2 Some] obtain ln j where n: "?G (en_next e) = Some ln"
            "infos s2 (lk_info ln) = Some j" "info_matches (insert w lent) (en_next e) ln n j" by blast
          then have dn: "bi_completed j = en_done n" by (simp add: info_matches_def)
          have x': "x = (1, Some \<lparr>kv_key = scast (en_next e), kv_value = lk_info ln\<rparr>)" using x n(1) by simp
          show ?thesis
          proof (cases "en_done n")
            case False
            with st' \<open>\<not> en_last e\<close> Some have "st' = ?st" by simp
            from fin [OF this r2 i2] x' n(2) dn False show ?thesis
              by (simp add: runs_to_seq runs_to_bnd runs_to_load runs_to_ret)
          next
            case True
            with st' \<open>\<not> en_last e\<close> Some obtain st2 where st2: "a_next f (en_next e) ?st = Some st2" "st' = drop_entry w st2"
              by auto
            have lent: "\<forall>v \<in> insert w lent. \<exists>d. tab ?st v = Some d \<and> en_sent d" using Suc.prems(4) by auto
            have out: "set (out st2) \<subseteq> {b. takes b}" using Suc.prems(3) st2(2) by simp
            show ?thesis
              unfolding x' prod.case option.case
              apply (simp add: wp n(2) dn True)
            proof (rule runs_to_mono [OF Suc.IH [OF st2(1) r2 out lent n(1)]], elim exE conjE)
              fix s3 F3 G3 assume r3: "rep t (insert w lent) Z s3 F3 G3 st2"
                and G3: "\<forall>v l'. G3 v = Some l' \<longrightarrow> (\<exists>l. ?G v = Some l \<and> lk_info l = lk_info l')"
              have "tab st2 w = Some (e\<lparr>en_sent := True\<rparr>)" by (rule a_next_keeps [OF st2(1)]) simp_all
              from represents_entryE [OF r3 this] obtain l3 i3 where l3: "G3 w = Some l3"
                "infos s3 (lk_info l3) = Some i3" and "info_matches (insert w lent) w l3 (e\<lparr>en_sent := True\<rparr>) i3"
                by blast
              then have tag: "bi_tag i3 = w" by (simp add: info_matches_def)
              obtain l4 where "?G w = Some l4" "lk_info l4 = lk_info l3" using G3 l3(1) by blast
              then have p: "lk_info l3 = lk_info l" by auto
              have G3': "lk_info l' = lk_info l \<longleftrightarrow> v = w" if "(G3(w := None)) v = Some l'" for v l'
                using that G3 uniq by (metis fun_upd_apply option.distinct(1))
              show "case infos s3 (lk_info l) of None \<Rightarrow> False | Some i \<Rightarrow>
                  runs_to (RemoveFromHashTable t (scast (bi_tag i))) s3
                   (\<lambda>_ s'. case infos s' (lk_info l) of None \<Rightarrow> False | Some v \<Rightarrow>
                      \<exists>F' G'. rep t lent Z (s'\<lparr>infos := (infos s')(lk_info l \<mapsto> bi_sent_update (\<lambda>_. True) v)\<rparr>) F' G' st' \<and>
                        (\<forall>v l'. G' v = Some l' \<longrightarrow> (\<exists>l. G v = Some l \<and> lk_info l = lk_info l')))"
                unfolding l3(2) [unfolded p] option.case tag
              proof (rule runs_to_mono [OF remove_rep [OF r3 i(3)]], elim conjE)
                fix s4 assume r4: "rep t (insert w lent) Z s4 F3 (G3(w := None)) (drop_entry w st2)" and f4: "ht_frame s3 s4"
                from ht_frameD(3) [OF f4] l3(2) p have i4: "infos s4 (lk_info l) = Some i3" by simp
                have "rep t lent Z (s4\<lparr>infos := (infos s4)(lk_info l \<mapsto> i3\<lparr>bi_sent := True\<rparr>)\<rparr>) F3 (G3(w := None)) st'"
                  unfolding st2(2) by (rule mark_sent [OF r4 i4 G3' _ wl]) simp_all
                moreover have "\<forall>v l'. (G3(w := None)) v = Some l' \<longrightarrow> (\<exists>l. G v = Some l \<and> lk_info l = lk_info l')"
                  using G3 links by (metis fun_upd_apply option.distinct(1))
                ultimately show "case infos s4 (lk_info l) of None \<Rightarrow> False | Some v \<Rightarrow>
                      \<exists>F' G'. rep t lent Z (s4\<lparr>infos := (infos s4)(lk_info l \<mapsto> bi_sent_update (\<lambda>_. True) v)\<rparr>) F' G' st' \<and>
                        (\<forall>v l'. G' v = Some l' \<longrightarrow> (\<exists>l. G v = Some l \<and> lk_info l = lk_info l'))"
                  unfolding i4 option.case by blast
              qed
            qed
          qed
        qed
      qed
    qed
  qed
qed simp

end

section \<open>New entries\<close>

context buffer_handler
begin

text \<open>New objects that no entry refers to.\<close>

lemma rep_fresh:
  assumes r: "rep t lent Z s F G st" and alike: "ht_alike s s'"
    and q: "queues s' = queues s" "q_nodes s' = q_nodes s" "files s' = files s" "fopen_fails s' = fopen_fails s"
      "net_in s' = net_in s"
    and old: "\<And>p. p \<le> next_addr s \<Longrightarrow> infos s' p = infos s p \<and> chars s' p = chars s p"
    and b: "below (infos s') (next_addr s')" "below (chars s') (next_addr s')"
  shows "rep t lent Z s' F G st"
proof -
  note R = representsD [OF r]
  have cb: "below (chars s) (next_addr s)" using R(2) by (simp add: sendable_def)
  have A: "oom s' = oom s" "next_addr s \<le> next_addr s'" "ptr_arrays s' = ptr_arrays s"
    using alike by (simp_all add: ht_alike_def)
  have "chars s' (fst x) = chars s (fst x)" if "F k = Some xs" "x \<in> set xs" for k xs x
    using sendable_item [OF R(2) that] below_bound [OF cb] old by metis
  then have w: "sendable s' F" "wire s' F = wire s F"
    using sendable_cong [OF R(2) q(1,2) A(1,2) b(2)] by blast+
  have c: "chars s' a = Some bs" if "chars s a = Some bs" for a bs
    using that old [of a] below_bound [OF cb that] by simp
  have i: "infos s' p = Some j" if "infos s p = Some j" for p j
    using that old [of p] below_bound [OF R(3) that] by simp
  show ?thesis
  proof (rule represents_same [OF r _ w(1) b(1)])
    show "ht_ok 256 t s' (keyed G)" by (rule ht_ok_alike [OF R(1) alike])
    show "dlv s' F (out st)" using R(7) w q A by (auto elim: dlv_stable)
    fix v l assume l: "G v = Some l"
    with R(4) [of v] obtain e where "entry_at own s F lent v l e" by (auto simp: rel_option_iff split: option.splits)
    then show "untouched s F s' F l" using w c i unfolding entry_at_def untouched_def by auto
  next
    fix z assume "Z = Some z"
    then show "pinned own s' F G z" using R(8) w i by (auto elim: pinned_cong)
  qed
qed

lemma rep_insert:
  assumes r: "rep t lent Z s F G st" and w: "tag_ok w" "G w = None"
    and e: "entry_at own s F lent w l e" and ap: "\<And>v l'. G v = Some l' \<Longrightarrow> apart l l'"
    and z: "\<And>k p q bss. Z = Some (k, p, q, bss) \<Longrightarrow> lk_info l \<noteq> p \<and> lk_queue l \<noteq> Some q"
  shows "runs_to (InsertHashTable (Suc d) t \<lparr>kv_key = ucast w, kv_value = lk_info l\<rparr>) s (\<lambda>res s'.
    res = (1, None) \<and> rep t lent Z s' F (G(w \<mapsto> l)) (put_entry w e st) \<and> ht_frame s s')"
proof -
  note R = representsD [OF r]
  have none: "keyed G (ucast w) = None"
    using w(2) by (auto simp: keyed_def ucast_eq_64 [THEN iffD2] unat_ucast_64 split: if_splits)
  show ?thesis
  proof (rule runs_to_mono [OF ht_insert [OF R(1)]])
    show "card (dom (keyed G)) < 3 * 256" using card_keyed [of w G, OF w] by simp
  next
    fix res s' assume "res = (case keyed G (kv_key \<lparr>kv_key = ucast w, kv_value = lk_info l\<rparr>) of
        None \<Rightarrow> (1, None) | Some old \<Rightarrow> (2, Some \<lparr>kv_key = kv_key \<lparr>kv_key = ucast w, kv_value = lk_info l\<rparr>, kv_value = old\<rparr>)) \<and>
      ht_ok 256 t s' ((keyed G)(kv_key \<lparr>kv_key = ucast w, kv_value = lk_info l\<rparr> \<mapsto>
        kv_value \<lparr>kv_key = ucast w, kv_value = lk_info l\<rparr>)) \<and> ht_frame s s'"
    then have s': "res = (1, None)" "ht_ok 256 t s' (keyed (G(w \<mapsto> l)))" "ht_frame s s'"
      by (simp_all add: none keyed_upd [OF w(1)])
    note fr = ht_frameD [OF s'(3)]
    have wi: "sendable s' F" "wire s' F = wire s F" using ht_frame_sendable [OF R(2) s'(3)] by simp_all
    have un: "untouched s F s' F l'" for l' using fr wi by (intro untouched_eq)
    have "rep t lent Z s' F (G(w \<mapsto> l)) (put_entry w e st)"
    proof (rule represents_change [OF r s'(2) wi(1) _ _ _ un, where k = w])
      show "below (infos s') (next_addr s')" using R(3) fr(1,3) by (auto intro: below_mono)
      show "dlv s' F (out (put_entry w e st))" using R(7) fr wi by (auto elim: dlv_stable)
      show "rel_option (entry_at own s' F lent w) ((G(w \<mapsto> l)) w) (tab (put_entry w e st) w)"
        using entry_at_untouched [OF e un] by simp
    next
      fix x assume x: "Z = Some x"
      obtain k p q bss where k: "x = (k, p, q, bss)" by (cases x)
      have "pinned own s' F G x" using R(8) [OF x] fr wi by (auto elim: pinned_cong)
      then show "pinned own s' F (G(w \<mapsto> l)) x" using z x k by (auto simp: pinned_def)
    qed (use ap w(1) in auto)
    with s' show "res = (1, None) \<and> rep t lent Z s' F (G(w \<mapsto> l)) (put_entry w e st) \<and> ht_frame s s'" by simp
  qed
qed

lemma insert_dummy_rep:
  assumes r: "rep t lent Z s F G st" and w: "tag_ok w" "G w = None"
    and q: "if q = NULL then bl = [] else \<not> own q \<and> wire s F q = Some bl"
      "\<And>v l. q \<noteq> NULL \<Longrightarrow> G v = Some l \<Longrightarrow> lk_queue l \<noteq> Some q"
      "\<And>k p x bss. Z = Some (k, p, x, bss) \<Longrightarrow> q \<noteq> x \<or> q = NULL"
    and bl: "\<forall>blk \<in> set bl. word_at blk 8 = Some w"
  shows "runs_to (insert_dummy_buffer (Suc d) t w nxt q) s (\<lambda>r s'. \<exists>l. r = (True, lk_info l) \<and>
    rep t lent Z s' F (G(w \<mapsto> l)) (put_entry w (dummy_entry nxt bl) st) \<and>
    (\<forall>p i. infos s p = Some i \<longrightarrow> infos s' p = Some i) \<and> infos s (lk_info l) = None)"
proof -
  note R = representsD [OF r]
  let ?p = "Suc (next_addr s)"
  let ?i = "\<lparr>bi_buffer = NULL, bi_buffer_size = 0, bi_tag = w, bi_completed = False, bi_sent = False,
      bi_n_written = 0, bi_prev_tag = 0, bi_last_block = False, bi_mutex = False,
      bi_valid = False, bi_next_tag = nxt, bi_waiting_queue = q\<rparr>"
  let ?s = "s\<lparr>next_addr := ?p, infos := (infos s)(?p \<mapsto> ?i)\<rparr>"
  let ?l = "\<lparr>lk_info = ?p, lk_buf = None, lk_queue = if q = NULL then None else Some q\<rparr>"
  have new: "infos s ?p = None" using below_fresh [OF R(3)] by simp
  have r1: "rep t lent Z ?s F G st"
    by (rule rep_fresh [OF r]) (use R(2,3) in \<open>auto simp: ht_alike_def sendable_def\<close>)
  have w1: "wire ?s F = wire s F" by (simp add: wire_def)
  have e: "entry_at own ?s F lent w ?l (dummy_entry nxt bl)"
    using q(1) bl by (auto simp: entry_at_def info_matches_def dummy_entry_def w1)
  have ap: "apart ?l l'" if l': "G v = Some l'" for v l'
  proof -
    from R(4) [of v] l' obtain i where "infos s (lk_info l') = Some i"
      by (auto simp: rel_option_iff entry_at_def split: option.splits)
    with new have "lk_info l' \<noteq> ?p" by auto
    with q(2) [OF _ l'] show ?thesis by (auto simp: apart_def)
  qed
  have z: "lk_info ?l \<noteq> p \<and> lk_queue ?l \<noteq> Some x" if "Z = Some (k, p, x, bss)" for k p x bss
    using R(8) [OF that] q(3) [OF that] new by (auto simp: pinned_def)
  have "runs_to (InsertHashTable (Suc d) t \<lparr>kv_key = ucast w, kv_value = ?p\<rparr>) ?s (\<lambda>res s'.
      res = (1, None) \<and> rep t lent Z s' F (G(w \<mapsto> ?l)) (put_entry w (dummy_entry nxt bl) st) \<and> ht_frame ?s s')"
    using rep_insert [OF r1 w e ap z] by simp
  then show ?thesis
    unfolding insert_dummy_buffer_def calloc_info_def
    using sendable_oom [OF R(2)]
    by (simp add: wp Let_def del: InsertHashTable.simps)
      (erule runs_to_mono, use new in \<open>auto simp: wp dest!: ht_frameD(3) intro!: exI [of _ ?l]\<close>)
qed

end

section \<open>The predecessor of a finished buffer\<close>

context buffer_handler
begin

lemma rep_set_next:
  assumes r: "rep t lent Z s F G st" and l: "G v = Some l" "infos s (lk_info l) = Some i" and e: "tab st v = Some e"
  shows "rep t lent Z (s\<lparr>infos := (infos s)(lk_info l \<mapsto> i\<lparr>bi_next_tag := k\<rparr>)\<rparr>) F G
    (put_entry v (e\<lparr>en_next := k\<rparr>) st)"
proof (rule rep_info [OF r l(2)])
  note R = representsD [OF r]
  fix u l' assume "G u = Some l'" "lk_info l' = lk_info l"
  then show "u = v" using R(6) [OF _ l(1), of u l'] by (auto simp: apart_def)
next
  show "rel_option (entry_at own (s\<lparr>infos := (infos s)(lk_info l \<mapsto> i\<lparr>bi_next_tag := k\<rparr>)\<rparr>) F lent v) (G v)
      (tab (put_entry v (e\<lparr>en_next := k\<rparr>) st) v)"
    using representsD(4) [OF r, of v] l e
    by (auto simp: entry_at_def info_matches_def wire_def split: option.splits)
next
  fix z assume "pinned own s F G z"
  then show "pinned own (s\<lparr>infos := (infos s)(lk_info l \<mapsto> i\<lparr>bi_next_tag := k\<rparr>)\<rparr>) F G z"
    using l by (fastforce simp: pinned_def wire_def)
qed (use representsD(5,6) [OF r] l in \<open>auto intro: apart_sym\<close>)

lemma rep_free_info:
  assumes r: "rep t lent Z s F G st" and p: "\<And>v l. G v = Some l \<Longrightarrow> lk_info l \<noteq> p"
    and z: "\<And>k p' q bss. Z = Some (k, p', q, bss) \<Longrightarrow> p' \<noteq> p"
  shows "rep t lent Z (s\<lparr>infos := (infos s)(p := None)\<rparr>) F G st"
proof -
  let ?s = "s\<lparr>infos := (infos s)(p := None)\<rparr>"
  note R = representsD [OF r]
  have alike: "ht_alike s ?s" by (simp add: ht_alike_def)
  have w: "sendable ?s F" "wire ?s F = wire s F"
    using sendable_cong [OF R(2), of ?s] R(2) by (simp_all add: sendable_def)
  show ?thesis
  proof (rule represents_same [OF r ht_ok_alike [OF R(1) alike] w(1)])
    show "dlv ?s F (out st)" using R(7) w by (auto elim: dlv_stable)
    fix x assume x: "Z = Some x"
    obtain k p' q bss where "x = (k, p', q, bss)" by (cases x)
    with R(8) [OF x] z x w(2) show "pinned own ?s F G x" by (auto simp: pinned_def)
  qed (use R(3) p w(2) in \<open>auto simp: untouched_def\<close>)
qed

lemma prev_rep:
  assumes a: "a_prev f w st = Some st'" and r: "rep t {} Z s F G st" and out: "set (out st') \<subseteq> {b. takes b}"
    and l: "G w = Some l" and f: "0 < f" and z: "\<And>k p q bss. Z = Some (k, p, q, bss) \<Longrightarrow> k = w"
  shows "runs_to (handle_finished_buffer_prev f handler t (lk_info l)) s (\<lambda>_ s'. \<exists>F' G'. rep t {} Z s' F' G' st')"
proof -
  from a obtain e where e: "tab st w = Some e" by (auto simp: a_prev_def split: option.splits)
  from represents_entryE [OF r e] l obtain i where i: "infos s (lk_info l) = Some i" "info_matches {} w l e i"
    by (metis option.inject)
  then have fields: "bi_tag i = w" "bi_prev_tag i = en_prev e" by (simp_all add: info_matches_def)
  have no_tag: "no_tag = -1" by (simp add: no_tag_def NO_TAG_def)
  have nxt: "runs_to (handle_finished_buffer_next f handler t (lk_info l)) s1 (\<lambda>_ s'. \<exists>F' G'. rep t {} Z s' F' G' st')"
    if "a_next f w st1 = Some st'" "rep t {} Z s1 F G1 st1" "G1 w = Some l" for s1 G1 st1
    by (rule runs_to_mono [OF next_rep [OF that(1,2) out _ that(3)]]) auto
  show ?thesis
  proof (cases "en_prev e = -1")
    case True
    with a e have "a_next f w st = Some st'" by (simp add: a_prev_def)
    from nxt [OF this r l] True show ?thesis
      by (simp add: handle_finished_buffer_prev_def runs_to_bnd runs_to_load i fields no_tag)
  next
    case False
    let ?v = "en_prev e"
    from a e False have v: "tag_ok ?v" and st': "(case tab st ?v of None \<Rightarrow> st' = put_entry ?v (dummy_entry w []) st
      | Some p \<Rightarrow> if \<not> en_sent p then st' = put_entry ?v (p\<lparr>en_next := w\<rparr>) st
         else a_next f w (drop_entry ?v st) = Some st')"
      by (auto simp: a_prev_def split: option.splits if_splits)
    show ?thesis
      unfolding handle_finished_buffer_prev_def runs_to_bnd runs_to_load i option.case fields no_tag if_P [OF False]
    proof (rule runs_to_mono [OF lookup_rep [OF r, of ?v]], elim conjE)
      fix x :: "int \<times> HTKeyValue option" and s1 assume x: "x = (case G ?v of None \<Rightarrow> (0, None)
          | Some l \<Rightarrow> (1, Some \<lparr>kv_key = scast ?v, kv_value = lk_info l\<rparr>))"
        and r1: "rep t {} Z s1 F G st" and f1: "ht_frame s s1"
      show "runs_to (case x of (res, prev_kv) \<Rightarrow>
          bnd (if res = 0 then bnd (insert_dummy_buffer f t ?v w NULL) (\<lambda>(added, prev). ret prev)
            else (case prev_kv of None \<Rightarrow> halt Undefined | Some kv \<Rightarrow> ret (kv_value kv))) (\<lambda>prev.
          bnd (rd_info prev) (\<lambda>p.
          if \<not> bi_sent p then wr_info prev (bi_next_tag_update (\<lambda>_. w))
          else bnd (RemoveFromHashTable t (scast ?v)) (\<lambda>_.
            seq (dealloc infos infos_update prev) (handle_finished_buffer_next f handler t (lk_info l)))))) s1
         (\<lambda>_ s'. \<exists>F' G'. rep t {} Z s' F' G' st')"
      proof (cases "tab st ?v")
        case None
        then have G: "G ?v = None" using representsD(9) [OF r1] by blast
        obtain d where d: "f = Suc d" using f by (cases f) auto
        have "runs_to (insert_dummy_buffer f t ?v w NULL) s1 (\<lambda>r s2. \<exists>l. r = (True, lk_info l) \<and>
            rep t {} Z s2 F (G(?v \<mapsto> l)) (put_entry ?v (dummy_entry w []) st))"
          unfolding d by (rule runs_to_mono [OF insert_dummy_rep [OF r1 v G, of NULL "[]"]]) auto
        then show ?thesis
          using x G
          apply (simp add: runs_to_bnd)
        proof (erule_tac runs_to_mono, elim exE conjE)
          fix r s2 l2 assume r: "r = (True, lk_info l2)"
            and r2: "rep t {} Z s2 F (G(?v \<mapsto> l2)) (put_entry ?v (dummy_entry w []) st)"
          from represents_entryE [OF r2, of ?v "dummy_entry w []"] obtain i2 where
            i2: "infos s2 (lk_info l2) = Some i2" "info_matches {} ?v l2 (dummy_entry w []) i2" by auto
          then have "\<not> bi_sent i2" by (simp add: info_matches_def dummy_entry_def)
          moreover have "rep t {} Z (s2\<lparr>infos := (infos s2)(lk_info l2 \<mapsto> i2\<lparr>bi_next_tag := w\<rparr>)\<rparr>) F (G(?v \<mapsto> l2)) st'"
            using rep_set_next [OF r2 _ i2(1), of ?v "dummy_entry w []" w] st' None by (simp add: dummy_entry_def)
          ultimately show "runs_to (case r of (added, x) \<Rightarrow> ret x) s2 (\<lambda>prev s'.
              runs_to (rd_info prev) s' (\<lambda>p s'. runs_to (if \<not> bi_sent p then wr_info prev (bi_next_tag_update (\<lambda>_. w))
                else bnd (RemoveFromHashTable t (scast ?v)) (\<lambda>_. seq (dealloc infos infos_update prev)
                  (handle_finished_buffer_next f handler t (lk_info l)))) s' (\<lambda>_ s'. \<exists>F' G'. rep t {} Z s' F' G' st')))"
            using r i2(1) by (auto simp: wp)
        qed
      next
        case (Some p)
        from represents_entryE [OF r1 Some] obtain lp j where p: "G ?v = Some lp" "infos s1 (lk_info lp) = Some j"
          "info_matches {} ?v lp p j" by blast
        then have sent: "bi_sent j = en_sent p" by (simp add: info_matches_def)
        show ?thesis
        proof (cases "en_sent p")
          case False
          with st' Some have "st' = put_entry ?v (p\<lparr>en_next := w\<rparr>) st" by simp
          with rep_set_next [OF r1 p(1,2) Some, of w] x p sent False show ?thesis by (auto simp: wp)
        next
          case True
          with st' Some have nx: "a_next f w (drop_entry ?v st) = Some st'" by simp
          then have ne: "?v \<noteq> w" using f by (cases f) auto
          show ?thesis
            using x p(1,2) sent True
            apply (simp add: runs_to_bnd runs_to_ret runs_to_load runs_to_seq)
          proof (rule runs_to_mono [OF remove_rep [OF r1 v]], elim conjE)
            fix s2 assume r2: "rep t {} Z s2 F (G(?v := None)) (drop_entry ?v st)" and f2: "ht_frame s1 s2"
            from ht_frameD(3) [OF f2] p(2) have j2: "infos s2 (lk_info lp) = Some j" by simp
            have "rep t {} Z (s2\<lparr>infos := (infos s2)(lk_info lp := None)\<rparr>) F (G(?v := None)) (drop_entry ?v st)"
            proof (rule rep_free_info [OF r2])
              fix u l' assume "(G(?v := None)) u = Some l'"
              then show "lk_info l' \<noteq> lk_info lp"
                using representsD(6) [OF r1 _ p(1), of u l'] by (auto simp: apart_def split: if_splits)
            next
              fix k p' q bss assume Z: "Z = Some (k, p', q, bss)"
              with z have "k = w" by blast
              with representsD(8) [OF r1 Z] p(1) ne show "p' \<noteq> lk_info lp" by (auto simp: pinned_def)
            qed
            from nxt [OF nx this] l ne j2 show "runs_to (dealloc infos infos_update (lk_info lp)) s2
              (\<lambda>_ s'. runs_to (handle_finished_buffer_next f handler t (lk_info l)) s' (\<lambda>_ s'. \<exists>F' G'. rep t {} Z s' F' G' st'))"
              using below_nonnull [OF representsD(3) [OF r2]] by (auto simp: runs_to_dealloc)
          qed
        qed
      qed
    qed
  qed
qed

end

end
