(* ===== verification/ReaderBlocks.thy ===== *)
theory ReaderBlocks
  imports ReaderSim
begin

text \<open>
  The blocks: what \<open>handle_block\<close> does with a data block or an \<open>init_block\<close>, with the blocks
  that wait for an \<open>init_block\<close>, and with the blocks that a connection brings.
\<close>

section \<open>Storing data\<close>

context buffer_handler
begin

lemma rep_store:
  assumes r: "rep t {} Z s F G st" and e: "tab st w = Some e" "en_valid e" "\<not> en_sent e"
    and l: "G w = Some l" "infos s (lk_info l) = Some i" and d: "length d = length (en_data e)"
  shows "rep t {} Z (s\<lparr>chars := (chars s)(bi_buffer i \<mapsto> d),
      infos := (infos s)(lk_info l \<mapsto> i\<lparr>bi_completed := c, bi_n_written := n\<rparr>)\<rparr>) F G
    (put_entry w (e\<lparr>en_data := d, en_written := n, en_done := c\<rparr>) st)" (is "rep t {} Z ?s F G ?st")
proof -
  note R = representsD [OF r]
  have m: "info_matches {} w l e i" "entry_at own s F {} w l e"
    using represents_entryE [OF r e(1)] l by (metis option.inject)+
  then have b: "lk_buf l = Some (bi_buffer i)" "lk_queue l = None" "chars s (bi_buffer i) = Some (en_data e)"
    "unqueued F (bi_buffer i)" using e(2,3) by (auto simp: info_matches_def entry_at_def)
  have q: "fst x \<noteq> bi_buffer i" if "F k = Some xs" "x \<in> set xs" for k xs x
    using b(4) that unfolding unqueued_def by (metis imageI)
  have alike: "ht_alike s ?s" by (simp add: ht_alike_def)
  have cb: "below (chars s) (next_addr s)" using R(2) by (simp add: sendable_def)
  have w: "sendable ?s F" "wire ?s F = wire s F"
    using sendable_cong [OF R(2), of ?s] q cb b(3) by auto
  show ?thesis
  proof (rule represents_change [OF r ht_ok_alike [OF R(1) alike] w(1), where k = w])
    show "dlv ?s F (out ?st)" using R(7) w by (auto elim: dlv_stable)
    fix v l' assume l': "v \<noteq> w" "G v = Some l'"
    from R(6) [OF l'(2) l(1) l'(1)] b(1) have "lk_buf l' \<noteq> Some (bi_buffer i)" "lk_info l' \<noteq> lk_info l"
      by (auto simp: apart_def)
    then show "untouched s F ?s F l'" by (simp add: untouched_def w(2))
  next
    show "rel_option (entry_at own ?s F {} w) (G w) (tab ?st w)"
      using m b l d w(2) e by (auto simp: entry_at_def info_matches_def)
  next
    fix z assume z: "Z = Some z"
    from R(8) [OF z] show "pinned own ?s F G z" using l(2) w(2) by (auto simp: pinned_def)
  qed (use R(3,5,6) l in \<open>auto intro: apart_sym\<close>)
qed

lemma store_rep:
  assumes a: "a_store f w off data e st = Some st'" and r: "rep t {} Z s F G st" and out: "set (out st') \<subseteq> {b. takes b}"
    and e: "tab st w = Some e" "en_valid e" and l: "G w = Some l" and f: "0 < f"
    and z: "\<And>k p q bss. Z = Some (k, p, q, bss) \<Longrightarrow> k = w"
    and b: "chars s b = Some bs" "word_at bs 0 = Some sz" "word_at bs 4 = Some off" "sz - 12 = of_nat (length data)"
      "unat (sz - 12) = length data" "12 + length data \<le> length bs" "take (length data) (drop 12 bs) = data"
    and kv: "kv_value kv = lk_info l"
  shows "runs_to (store_data f handler t b (lk_info l) (Some kv)) s (\<lambda>_ s'. \<exists>F' G'. rep t {} Z s' F' G' st')"
proof -
  note R = representsD [OF r]
  obtain i where i: "infos s (lk_info l) = Some i" "info_matches {} w l e i" "entry_at own s F {} w l e"
    using represents_entryE [OF r e(1)] l by (metis option.inject)
  from a have ns: "\<not> en_sent e" and fits: "unat off + length data \<le> length (en_data e)"
    by (auto simp: a_store_def split: if_splits)
  from i e ns have buf: "chars s (bi_buffer i) = Some (en_data e)" and fields: "\<not> bi_mutex i"
    "bi_n_written i = en_written e" "bi_buffer_size i = of_nat (length (en_data e))" "bi_completed i = en_done e"
    by (auto simp: info_matches_def entry_at_def)
  let ?d = "splice (unat off) data (en_data e)" let ?n = "en_written e + of_nat (length data)"
  have d: "length ?d = length (en_data e)" using fits by simp
  let ?st = "\<lambda>c. put_entry w (e\<lparr>en_data := ?d, en_written := ?n, en_done := c\<rparr>) st"
  let ?s = "\<lambda>c. s\<lparr>chars := (chars s)(bi_buffer i \<mapsto> ?d),
      infos := (infos s)(lk_info l \<mapsto> i\<lparr>bi_completed := c, bi_n_written := ?n\<rparr>)\<rparr>"
  have rs: "rep t {} Z (?s c) F G (?st c)" for c by (rule rep_store [OF r e ns l i(1) d])
  have st': "if ?n = of_nat (length (en_data e)) then a_prev f w (?st True) = Some st' else st' = ?st (en_done e)"
    using a ns fits d by (auto simp: a_store_def Let_def split: if_splits)
  have inf: "(bi_n_written_update (\<lambda>n. n + of_nat (length data)) i)\<lparr>bi_mutex := False\<rparr> =
      i\<lparr>bi_completed := en_done e, bi_n_written := ?n\<rparr>"
    "(bi_n_written_update (\<lambda>n. n + of_nat (length data)) i)\<lparr>bi_mutex := False, bi_completed := True\<rparr> =
      i\<lparr>bi_completed := True, bi_n_written := ?n\<rparr>"
    "i\<lparr>bi_n_written := m, bi_completed := True\<rparr> = i\<lparr>bi_completed := True, bi_n_written := m\<rparr>" for m
    using fields by (cases i; simp)+
  have run: "runs_to (store_data f handler t b (lk_info l) (Some kv)) s Q = (
      if ?n = of_nat (length (en_data e)) then runs_to (handle_finished_buffer_prev f handler t (lk_info l)) (?s True) Q
      else Q () (?s (en_done e)))" for Q
    using b fits i(1) fields buf kv
    by (simp add: store_data_def lock_info_def unlock_info_def sizeof_data_block_def wp inf Let_def)
  show ?thesis
  proof (cases "?n = of_nat (length (en_data e))")
    case True
    with st' have "a_prev f w (?st True) = Some st'" by simp
    from prev_rep [OF this rs out l f] z show ?thesis unfolding run if_P [OF True] by blast
  next
    case False
    with st' have "st' = ?st (en_done e)" by simp
    with rs [of "en_done e"] show ?thesis unfolding run if_not_P [OF False] by blast
  qed
qed

end

section \<open>Blocks that wait\<close>

text \<open>\<open>block_at s b blk\<close>: the array at \<open>b\<close> starts with the block \<open>blk\<close>.\<close>

definition block_at :: "mem \<Rightarrow> addr \<Rightarrow> 8 word option list \<Rightarrow> bool" where
  "block_at s b blk \<longleftrightarrow> (\<exists>bs. chars s b = Some bs \<and> length blk \<le> length bs \<and> take (length blk) bs = blk)"

lemma word_at_prefix:
  assumes "word_at (take n bs) off = Some x" and "n \<le> length bs"
  shows "word_at bs off = Some x"
proof -
  from assms have le: "off + 4 \<le> n" by (simp add: word_at_def split: if_splits)
  then have "min 4 (n - off) = 4" by simp
  then have "take 4 (drop off (take n bs)) = take 4 (drop off bs)" by (simp only: drop_take take_take)
  moreover have "off + 4 \<le> length bs" "off + 4 \<le> length (take n bs)" using le assms(2) by auto
  ultimately have "word_at bs off = word_at (take n bs) off" unfolding word_at_def by (simp only: if_True)
  with assms(1) show ?thesis by (simp only:)
qed

context buffer_handler
begin

text \<open>A queue that no entry refers to changes.\<close>

lemma rep_queues:
  assumes r: "rep t lent Z s F G st" and f: "q_frame s s'" and F': "sendable s' F'"
    and other: "\<And>q'. q' \<noteq> q \<Longrightarrow> F' q' = F q' \<and> wire s' F' q' = wire s F q'"
    and q: "\<not> own q" "\<And>v l. G v = Some l \<Longrightarrow> lk_queue l \<noteq> Some q"
    and live: "\<And>v l a. G v = Some l \<Longrightarrow> lk_buf l = Some a \<Longrightarrow> unqueued F a \<Longrightarrow> unqueued F' a"
    and z: "\<And>z. Z' = Some z \<Longrightarrow> pinned own s' F' G z"
  shows "rep t lent Z' s' F' G st"
proof -
  note R = representsD [OF r] and fr = q_frameD [OF f]
  show ?thesis
  proof (rule represents_same [OF r ht_ok_alike [OF R(1) q_frame_alike [OF f]] F'])
    show "below (infos s') (next_addr s')" using R(3) fr by (auto intro: below_mono)
    have "\<forall>k. own k \<longrightarrow> F' k = F k \<and> wire s' F' k = wire s F k" using q(1) other by metis
    from dlv_stable [OF R(7) this fr(5-8)] show "dlv s' F' (out st)" .
    fix v l assume l: "G v = Some l"
    then have "lk_queue l \<noteq> Some q" by (rule q(2))
    then show "untouched s F s' F' l" using fr live [OF l] other by (auto simp: untouched_def)
  qed (rule z)
qed

lemma unlinked_queue:
  assumes r: "rep t lent Z s F G st" and q: "F q = None"
  shows "\<not> own q" "G v = Some l \<Longrightarrow> lk_queue l \<noteq> Some q"
proof -
  note R = representsD [OF r]
  show "\<not> own q" using own_queue [OF R(7)] q by blast
  assume "G v = Some l"
  with R(4) [of v] obtain e where "entry_at own s F lent v l e" by (auto simp: rel_option_iff split: option.splits)
  with q show "lk_queue l \<noteq> Some q" by (auto simp: entry_at_def wire_def)
qed

lemma pinned_queue: "pinned own s F G z \<Longrightarrow> F (fst (snd (snd z))) \<noteq> None"
  by (auto simp: pinned_def wire_def)

lemma pinned_other:
  assumes "pinned own s F G z" and "infos s' = infos s" and "q \<noteq> fst (snd (snd z))"
    and "\<And>q'. q' \<noteq> q \<Longrightarrow> wire s' F' q' = wire s F q'"
  shows "pinned own s' F' G z"
  using assms(2-4) by (intro pinned_cong [OF assms(1)]) auto

lemma allocate_rep:
  assumes r: "rep t lent Z s F G st"
  shows "runs_to allocate_queue s (\<lambda>q s'. rep t lent Z s' (F(q \<mapsto> [])) G st \<and> q_frame s s' \<and> F q = None \<and>
    q \<noteq> NULL \<and> wire s' (F(q \<mapsto> [])) = (wire s F)(q \<mapsto> []))"
proof (rule runs_to_mono [OF sendable_allocate [OF representsD(2) [OF r]]], elim conjE)
  fix q s' assume q: "q = Suc (next_addr s)" and s': "q_frame s s'" "sendable s' (F(q \<mapsto> []))"
    "wire s' (F(q \<mapsto> [])) = (wire s F)(q \<mapsto> [])"
  have none: "F q = None" unfolding q by (rule sendable_next [OF representsD(2) [OF r]])
  have "rep t lent Z s' (F(q \<mapsto> [])) G st"
  proof (rule rep_queues [OF r s'(1,2), where q = q])
    fix z assume z: "Z = Some z"
    from pinned_queue [OF representsD(8) [OF r z]] none have "q \<noteq> fst (snd (snd z))" by metis
    from pinned_other [OF representsD(8) [OF r z] q_frameD(3) [OF s'(1)] this] s'(3)
    show "pinned own s' (F(q \<mapsto> [])) G z" by auto
  qed (use s'(3) unlinked_queue [OF r none] in \<open>auto simp: unqueued_def\<close>)
  with none s' q show "rep t lent Z s' (F(q \<mapsto> [])) G st \<and> q_frame s s' \<and> F q = None \<and>
    q \<noteq> NULL \<and> wire s' (F(q \<mapsto> [])) = (wire s F)(q \<mapsto> [])" by simp
qed

text \<open>A block goes to a queue that no entry refers to yet.\<close>

lemma enqueue_loose_rep:
  assumes r: "rep t lent Z s F G st" and q: "F q = Some xs" "\<not> own q" "\<And>v l. G v = Some l \<Longrightarrow> lk_queue l \<noteq> Some q"
    and b: "chars s b = Some bs" "unat n \<le> length bs" "unqueued F b" "\<And>v l. G v = Some l \<Longrightarrow> lk_buf l \<noteq> Some b"
    and z: "\<And>k p q' bss. Z = Some (k, p, q', bss) \<Longrightarrow> q' \<noteq> q"
  shows "runs_to (enqueue q b n) s (\<lambda>_ s'. rep t lent Z s' (F(q \<mapsto> xs @ [(b, n)])) G st \<and> q_frame s s' \<and>
    wire s' (F(q \<mapsto> xs @ [(b, n)])) = (wire s F)(q \<mapsto> the (wire s F q) @ [take (unat n) bs]))"
proof (rule runs_to_mono [OF sendable_enqueue [OF representsD(2) [OF r] q(1) b(1,2)]], goal_cases)
  case (1 q xs)
  then show ?case using b(3) by (simp add: unqueued_def)
next
  case (2 x s')
  then have s': "q_frame s s'" "sendable s' (F(q \<mapsto> xs @ [(b, n)]))"
    "wire s' (F(q \<mapsto> xs @ [(b, n)])) = (wire s F)(q \<mapsto> the (wire s F q) @ [take (unat n) bs])" by auto
  have "rep t lent Z s' (F(q \<mapsto> xs @ [(b, n)])) G st"
  proof (rule rep_queues [OF r s'(1,2), where q = q])
    fix v l a assume "G v = Some l" "lk_buf l = Some a" "unqueued F a"
    then show "unqueued (F(q \<mapsto> xs @ [(b, n)])) a" using b(4) q(1) by (auto simp: unqueued_def)
  next
    fix x assume x: "Z = Some x"
    with z have "q \<noteq> fst (snd (snd x))" by (cases x) auto
    from pinned_other [OF representsD(8) [OF r x] q_frameD(3) [OF s'(1)] this] s'(3)
    show "pinned own s' (F(q \<mapsto> xs @ [(b, n)])) G x" by auto
  qed (use s'(3) q in auto)
  with s' show ?case by simp
qed

text \<open>A block goes to the waiting queue of the entry \<open>w\<close>.\<close>

lemma enqueue_linked_rep:
  assumes r: "rep t lent Z s F G st" and l: "G w = Some l" "lk_queue l = Some q" and e: "tab st w = Some e"
    and b: "chars s b = Some bs" "unat n \<le> length bs" "unqueued F b" "\<And>v l. G v = Some l \<Longrightarrow> lk_buf l \<noteq> Some b"
    and tag: "word_at (take (unat n) bs) 8 = Some w"
  shows "runs_to (enqueue q b n) s (\<lambda>_ s'. \<exists>F'. rep t lent Z s' F' G
    (put_entry w (e\<lparr>en_waiting := en_waiting e @ [take (unat n) bs]\<rparr>) st))"
proof -
  note R = representsD [OF r]
  have E: "entry_at own s F lent w l e" using represents_entryE [OF r e] l by (metis option.inject)
  with l have q: "\<not> own q" "wire s F q = Some (en_waiting e)" by (auto simp: entry_at_def)
  then obtain xs where xs: "F q = Some xs" by (auto simp: wire_def)
  let ?F = "F(q \<mapsto> xs @ [(b, n)])"
  show ?thesis
  proof (rule runs_to_mono [OF sendable_enqueue [OF R(2) xs b(1,2)]], goal_cases)
    case (1 q xs)
    then show ?case using b(3) by (simp add: unqueued_def)
  next
    case (2 x s')
    then have s': "q_frame s s'" "sendable s' ?F"
      "wire s' ?F = (wire s F)(q \<mapsto> en_waiting e @ [take (unat n) bs])" by (auto simp: q(2))
    note fr = q_frameD [OF s'(1)]
    have un: "unqueued ?F a" if "unqueued F a" "a \<noteq> b" for a using that xs by (auto simp: unqueued_def)
    show ?case
    proof (intro exI, rule represents_change [OF r ht_ok_alike [OF R(1) q_frame_alike [OF s'(1)]] s'(2), where k = w])
      show "below (infos s') (next_addr s')" using R(3) fr by (auto intro: below_mono)
      show "dlv s' ?F (out (put_entry w (e\<lparr>en_waiting := en_waiting e @ [take (unat n) bs]\<rparr>) st))"
        using q(1) s'(3) by (auto intro!: dlv_stable [OF R(7) _ fr(5-8)])
    next
      fix v l' assume l': "v \<noteq> w" "G v = Some l'"
      from R(6) [OF l'(2) l(1) l'(1)] l(2) have "lk_queue l' \<noteq> Some q" by (auto simp: apart_def)
      then show "untouched s F s' ?F l'"
        using fr s'(3) un b(4) [OF l'(2)] unfolding untouched_def by auto
    next
      show "rel_option (entry_at own s' ?F lent w) (G w)
          (tab (put_entry w (e\<lparr>en_waiting := en_waiting e @ [take (unat n) bs]\<rparr>) st) w)"
        using E l q(1) s'(3) fr un b(4) [OF l(1)] tag by (auto simp: entry_at_def info_matches_def)
    next
      fix z assume z: "Z = Some z"
      from R(8) [OF z] l have "q \<noteq> fst (snd (snd z))" by (auto simp: pinned_def split: prod.splits)
      from pinned_other [OF R(8) [OF z] fr(3) this] s'(3) show "pinned own s' ?F G z" by auto
    qed (use R(5,6) l in \<open>auto intro: apart_sym\<close>)
  qed
qed

end

section \<open>Data blocks\<close>

text \<open>A byte array that neither a queue nor a record refers to.\<close>

definition loose :: "queued \<Rightarrow> links \<Rightarrow> addr \<Rightarrow> bool" where
  "loose F G b \<longleftrightarrow> unqueued F b \<and> (\<forall>v l. G v = Some l \<longrightarrow> lk_buf l \<noteq> Some b)"

context buffer_handler
begin

lemma rep_waiting:
  assumes r: "rep t lent Z s F G st" and l: "G w = Some l" "infos s (lk_info l) = Some i" and e: "tab st w = Some e"
    and v: "\<not> en_valid e" "bi_waiting_queue i = NULL" and q: "q \<noteq> NULL" "\<not> own q" "wire s F q = Some []"
      "\<And>v l. G v = Some l \<Longrightarrow> lk_queue l \<noteq> Some q" "\<And>k p q' bss. Z = Some (k, p, q', bss) \<Longrightarrow> q' \<noteq> q"
  shows "rep t lent Z (s\<lparr>infos := (infos s)(lk_info l \<mapsto> i\<lparr>bi_waiting_queue := q\<rparr>)\<rparr>) F
    (G(w \<mapsto> l\<lparr>lk_queue := Some q\<rparr>)) st" (is "rep t lent Z ?s F ?G st")
proof -
  note R = representsD [OF r]
  have E: "entry_at own s F lent w l e" "info_matches lent w l e i"
    using represents_entryE [OF r e] l by (metis option.inject)+
  with v have bv: "\<not> bi_valid i" by (simp add: info_matches_def)
  show ?thesis
proof (rule rep_info [OF r l(2)])
  from E v have w: "en_waiting e = []" by (auto simp: entry_at_def info_matches_def)
  show "rel_option (entry_at own ?s F lent w) (?G w) (tab st w)"
    using E v q(1-3) e w by (auto simp: entry_at_def info_matches_def wire_def)
  show "keyed ?G = keyed G" by (rule keyed_same [of G, OF l(1)]) simp
  show "tag_ok w" by (rule R(5)) (simp add: l(1))
  fix v l1 l2 assume "v \<noteq> w" "?G w = Some l1" "G v = Some l2"
  then show "apart l1 l2" using R(6) [OF l(1), of v l2] q(4) by (auto simp: apart_def)
next
  fix v l' assume "G v = Some l'" "lk_info l' = lk_info l"
  then show "v = w" using R(6) [OF _ l(1), of v l'] by (auto simp: apart_def)
next
  fix z assume z: "Z = Some z" "pinned own s F G z"
  obtain k p q' bss where k: "z = (k, p, q', bss)" by (cases z)
  from z(2) k l bv have "p \<noteq> lk_info l" by (clarsimp simp: pinned_def) metis
  moreover have "q' \<noteq> q" using q(5) z(1) k by blast
  ultimately show "pinned own ?s F ?G z" using z(2) k l by (auto simp: pinned_def wire_def)
qed simp_all
qed

lemma data_rep:
  assumes a: "a_data f blk st = Some st'" and r: "rep t {} Z s F G st" and out: "set (out st') \<subseteq> {b. takes b}"
    and b: "block_at s b blk" "loose F G b"
    and z: "\<And>k p q bss. Z = Some (k, p, q, bss) \<Longrightarrow> word_at blk 8 = Some k"
  shows "runs_to (handle_data_block f handler t b) s (\<lambda>_ s'. \<exists>F' G'. rep t {} Z s' F' G' st')"
proof -
  from a obtain sz off k where w: "word_at blk 0 = Some sz" "word_at blk 4 = Some off" "word_at blk 8 = Some k"
    and sz: "unat sz = length blk" "12 \<le> length blk" and k: "tag_ok k" and f: "0 < f"
    and st': "(case tab st k of
       None \<Rightarrow> st' = put_entry k (dummy_entry (-1) [blk]) st
     | Some e \<Rightarrow> if \<not> en_valid e then st' = put_entry k (e\<lparr>en_waiting := en_waiting e @ [blk]\<rparr>) st
         else a_store f k off (drop 12 blk) e st = Some st')"
    by (auto simp: a_data_def split: option.splits if_splits)
  from b(1) obtain bs where bs: "chars s b = Some bs" "length blk \<le> length bs" "take (length blk) bs = blk"
    by (auto simp: block_at_def)
  have wb: "word_at bs 0 = Some sz" "word_at bs 4 = Some off" "word_at bs 8 = Some k"
    using word_at_prefix [of "length blk" bs] bs(2,3) w by auto
  have data: "unat (sz - 12) = length (drop 12 blk)" "take (length (drop 12 blk)) (drop 12 bs) = drop 12 blk"
  proof -
    have "12 \<le> sz" using sz by (simp add: word_le_nat_alt)
    then show "unat (sz - 12) = length (drop 12 blk)" using sz by (simp add: unat_sub)
    show "take (length (drop 12 blk)) (drop 12 bs) = drop 12 blk"
      by (subst (2) bs(3) [symmetric]) (simp add: drop_take)
  qed
  have "of_nat (unat (sz - 12)) = sz - 12" by simp
  with data(1) have data': "sz - 12 = of_nat (length (drop 12 blk))" by simp
  have zk: "k' = k" if "Z = Some (k', p, q, bss)" for k' p q bss using z [OF that] w(3) by simp
  have no_tag: "no_tag = -1" by (simp add: no_tag_def NO_TAG_def)
  obtain d where d: "f = Suc d" using f by (cases f) auto
  have lo: "unqueued F b" "\<And>v l. G v = Some l \<Longrightarrow> lk_buf l \<noteq> Some b" using b(2) by (auto simp: loose_def)
  show ?thesis
    unfolding handle_data_block_def runs_to_bnd runs_to_read_word bs(1) option.case wb(1,3)
  proof (rule runs_to_mono [OF lookup_rep [OF r, of k]], elim conjE)
    fix x :: "int \<times> HTKeyValue option" and s1
    assume x: "x = (case G k of None \<Rightarrow> (0, None) | Some l \<Rightarrow> (1, Some \<lparr>kv_key = scast k, kv_value = lk_info l\<rparr>))"
      and r1: "rep t {} Z s1 F G st" and f1: "ht_frame s s1"
    have c1: "chars s1 b = Some bs" using ht_frameD(2) [OF f1] bs(1) by simp
    let ?Q = "\<lambda>_ s'. \<exists>F' G'. rep t {} Z s' F' G' st'"
    show "runs_to (case x of (res, buffer_kv) \<Rightarrow>
        if res \<noteq> 1 then
          bnd allocate_queue (\<lambda>waiting_queue.
          seq (enqueue waiting_queue b sz)
         (bnd (insert_dummy_buffer f t k no_tag waiting_queue) (\<lambda>(added, buffer).
          if added then ret ()
          else
            bnd (rd_info buffer) (\<lambda>i.
            if \<not> bi_valid i then
              if bi_waiting_queue i \<noteq> NULL then
                seq (enqueue (bi_waiting_queue i) b sz) (free_queue waiting_queue)
              else wr_info buffer (bi_waiting_queue_update (\<lambda>_. waiting_queue))
            else seq (free_queue waiting_queue) (store_data f handler t b buffer None)))))
        else
          (case buffer_kv of None \<Rightarrow> halt Undefined | Some kv \<Rightarrow>
            let buffer = kv_value kv in
            bnd (rd_info buffer) (\<lambda>i.
            if \<not> bi_valid i then
              seq (whenM (bi_waiting_queue i = NULL)
                     (bnd allocate_queue (\<lambda>q. wr_info buffer (bi_waiting_queue_update (\<lambda>_. q)))))
             (bnd (rd_info buffer) (\<lambda>i. enqueue (bi_waiting_queue i) b sz))
            else store_data f handler t b buffer (Some kv)))) s1 ?Q"
    proof (cases "tab st k")
      case None
      then have G: "G k = None" using representsD(9) [OF r1] by blast
      show ?thesis
        using x G
        apply (simp add: runs_to_bnd runs_to_seq)
      proof (rule runs_to_mono [OF allocate_rep [OF r1]], elim conjE)
        fix q s2 assume r2: "rep t {} Z s2 (F(q \<mapsto> [])) G st" and f2: "q_frame s1 s2" and q: "F q = None" "q \<noteq> NULL"
          and w2: "wire s2 (F(q \<mapsto> [])) = (wire s1 F)(q \<mapsto> [])"
        note ql = unlinked_queue [OF r1 q(1)]
        have c2: "chars s2 b = Some bs" using q_frameD(2) [OF f2] c1 by simp
        have u2: "unqueued (F(q \<mapsto> [])) b" using lo(1) by (auto simp: unqueued_def)
        have zq: "q' \<noteq> q" if "Z = Some (k', p, q', bss)" for k' p q' bss
          using pinned_queue [OF representsD(8) [OF r1 that]] q(1) by auto
        have n: "unat sz \<le> length bs" using sz(1) bs(2) by simp
        show "runs_to (enqueue q b sz) s2 (\<lambda>_ s'. runs_to (insert_dummy_buffer f t k no_tag q) s' (\<lambda>x s'.
            runs_to (case x of (added, buffer) \<Rightarrow> if added then ret ()
              else bnd (rd_info buffer) (\<lambda>i.
                if \<not> bi_valid i then
                  if bi_waiting_queue i \<noteq> NULL then seq (enqueue (bi_waiting_queue i) b sz) (free_queue q)
                  else wr_info buffer (bi_waiting_queue_update (\<lambda>_. q))
                else seq (free_queue q) (store_data f handler t b buffer None))) s' ?Q))"
        proof (rule runs_to_mono)
          let ?F = "F(q \<mapsto> [], q \<mapsto> [] @ [(b, sz)])"
          show "runs_to (enqueue q b sz) s2 (\<lambda>_ s3. rep t {} Z s3 ?F G st \<and> wire s3 ?F q = Some [blk])"
            by (rule runs_to_mono [OF enqueue_loose_rep [OF r2 fun_upd_same ql(1) _ c2 n u2]])
              (use ql(2) lo(2) zq w2 sz(1) bs(3) in auto)
          fix y s3 assume "rep t {} Z s3 ?F G st \<and> wire s3 ?F q = Some [blk]"
          then have r3: "rep t {} Z s3 ?F G st" and w3: "wire s3 ?F q = Some [blk]" by auto
          from q(2) w3 ql(1) have wq: "if q = NULL then [blk] = [] else \<not> own q \<and> wire s3 ?F q = Some [blk]" by simp
          have "runs_to (insert_dummy_buffer f t k no_tag q) s3 (\<lambda>r s'. \<exists>l. r = (True, lk_info l) \<and>
              rep t {} Z s' ?F (G(k \<mapsto> l)) (put_entry k (dummy_entry (-1) [blk]) st))"
            unfolding d no_tag
            by (rule runs_to_mono [OF insert_dummy_rep [OF r3 k G wq]]) (use ql zq w(3) in auto)
          then show "runs_to (insert_dummy_buffer f t k no_tag q) s3 (\<lambda>x s'.
            runs_to (case x of (added, buffer) \<Rightarrow> if added then ret ()
              else bnd (rd_info buffer) (\<lambda>i.
                if \<not> bi_valid i then
                  if bi_waiting_queue i \<noteq> NULL then seq (enqueue (bi_waiting_queue i) b sz) (free_queue q)
                  else wr_info buffer (bi_waiting_queue_update (\<lambda>_. q))
                else seq (free_queue q) (store_data f handler t b buffer None))) s' ?Q)"
          proof (rule runs_to_mono, elim exE conjE, goal_cases)
            case (1 x s4 l)
            with st' None have rp: "rep t {} Z s4 ?F (G(k \<mapsto> l)) st'" by (simp only: option.case)
            from 1 have "x = (True, lk_info l)" by blast
            then show ?case unfolding wp using rp by (auto simp: wp)
          qed
        qed
      qed
    next
      case (Some e)
      from represents_entryE [OF r1 Some] obtain l i where l: "G k = Some l" "infos s1 (lk_info l) = Some i"
        "info_matches {} k l e i" by blast
      then have iv: "bi_valid i = en_valid e" by (simp add: info_matches_def)
      have x': "x = (1, Some \<lparr>kv_key = scast k, kv_value = lk_info l\<rparr>)" using x l(1) by simp
      show ?thesis
      proof (cases "en_valid e")
        case True
        with st' Some have a': "a_store f k off (drop 12 blk) e st = Some st'" by simp
        have "12 + length (drop 12 blk) \<le> length bs" using sz(2) bs(2) by simp
        then have "runs_to (store_data f handler t b (lk_info l) (Some \<lparr>kv_key = scast k, kv_value = lk_info l\<rparr>)) s1 ?Q"
          using zk by (intro store_rep [OF a' r1 out Some True l(1) f _ c1 wb(1,2) data' data(1) _ data(2)]) auto
        then show ?thesis using x' l(2) iv True by (simp add: runs_to_bnd runs_to_load Let_def)
      next
        case False
        with st' Some have st': "st' = put_entry k (e\<lparr>en_waiting := en_waiting e @ [blk]\<rparr>) st" by simp
        have enq: "runs_to (enqueue q b sz) s2 ?Q"
          if "rep t {} Z s2 F2 G2 st" "G2 k = Some l2" "lk_queue l2 = Some q" "chars s2 b = Some bs" "loose F2 G2 b" for s2 F2 G2 l2 q
        proof -
          have n: "unat sz \<le> length bs" and tk: "take (unat sz) bs = blk" using sz(1) bs by simp_all
          have "runs_to (enqueue q b sz) s2 (\<lambda>_ s'. \<exists>F'. rep t {} Z s' F' G2 st')"
            using enqueue_linked_rep [OF that(1-3) Some that(4) n, unfolded tk] that(5) w(3)
            unfolding st' loose_def by auto
          then show ?thesis by (rule runs_to_mono) blast
        qed
        show ?thesis
        proof (cases "bi_waiting_queue i = NULL")
          case True
          show ?thesis
            using x' l(2) iv False True
            apply (simp add: runs_to_bnd runs_to_load runs_to_seq runs_to_whenM Let_def)
          proof (rule runs_to_mono [OF allocate_rep [OF r1]], elim conjE)
            fix q s2 assume r2: "rep t {} Z s2 (F(q \<mapsto> [])) G st" and f2: "q_frame s1 s2" and q: "F q = None" "q \<noteq> NULL"
              and w2: "wire s2 (F(q \<mapsto> [])) = (wire s1 F)(q \<mapsto> [])"
            note ql = unlinked_queue [OF r1 q(1)]
            have i2: "infos s2 (lk_info l) = Some i" using q_frameD(3) [OF f2] l(2) by simp
            have zq: "q' \<noteq> q" if "Z = Some (k', p, q', bss)" for k' p q' bss
              using pinned_queue [OF representsD(8) [OF r1 that]] q(1) by auto
            let ?s = "s2\<lparr>infos := (infos s2)(lk_info l \<mapsto> i\<lparr>bi_waiting_queue := q\<rparr>)\<rparr>"
            have r3: "rep t {} Z ?s (F(q \<mapsto> [])) (G(k \<mapsto> l\<lparr>lk_queue := Some q\<rparr>)) st"
              by (rule rep_waiting [OF r2 l(1) i2 Some False True q(2) ql(1) _ ql(2) zq]) (simp_all add: w2)
            have "runs_to (enqueue q b sz) ?s ?Q"
              by (rule enq [OF r3 fun_upd_same])
                (use q_frameD(2) [OF f2] c1 lo l(1) in \<open>auto simp: loose_def unqueued_def\<close>)
            then show "runs_to (wr_info (lk_info l) (bi_waiting_queue_update (\<lambda>_. q))) s2 (\<lambda>_ s'.
                case infos s' (lk_info l) of None \<Rightarrow> False | Some i \<Rightarrow> runs_to (enqueue (bi_waiting_queue i) b sz) s' ?Q)"
              by (simp add: runs_to_store i2)
          qed
        next
          case nn: False
          from l(3) False nn have "lk_queue l = Some (bi_waiting_queue i)" by (simp add: info_matches_def)
          from enq [OF r1 l(1) this c1 b(2)] show ?thesis
            using x' l(2) iv False nn by (simp add: runs_to_bnd runs_to_load runs_to_seq runs_to_whenM Let_def)
        qed
      qed
    qed
  qed
qed

end

section \<open>The blocks that waited\<close>

context buffer_handler
begin

abbreviation drain_loop :: "(addr \<Rightarrow> (mem, unit) prog) \<Rightarrow> addr \<Rightarrow> unit \<Rightarrow> (mem, unit) prog" where
  "drain_loop again p \<equiv> whileM
     (\<lambda>_. bnd (rd_info p) (\<lambda>i. bnd (is_empty (bi_waiting_queue i)) (\<lambda>e. ret (\<not> e))))
     (\<lambda>_. bnd (rd_info p) (\<lambda>i.
          bnd (dequeue (bi_waiting_queue i)) (\<lambda>(sz, old_block).
          case old_block of None \<Rightarrow> halt Undefined | Some b \<Rightarrow> again b)))"

lemma pinnedE:
  assumes "pinned own s F G (w, p, q, bss)"
  obtains i xs where "infos s p = Some i" and "bi_waiting_queue i = q" and "F q = Some xs"
    and "map (\<lambda>x. take (unat (snd x)) (the (chars s (fst x)))) xs = bss"
    and "\<forall>v l. G v = Some l \<longrightarrow> lk_info l = p \<longrightarrow> v = w \<and> bi_valid i"
    and "\<not> own q" and "\<forall>v l. G v = Some l \<longrightarrow> lk_queue l \<noteq> Some q"
  using assms unfolding pinned_def wire_def by auto

text \<open>Taking the oldest block from the queue that is being emptied.\<close>

lemma dequeue_rep:
  assumes r: "rep t {} (Some (w, p, q, blk # bss)) s F G st"
  shows "runs_to (dequeue q) s (\<lambda>r s'. \<exists>n b F'. r = (n, Some b) \<and> rep t {} (Some (w, p, q, bss)) s' F' G st \<and>
    block_at s' b blk \<and> loose F' G b)"
proof -
  note R = representsD [OF r]
  have pin: "pinned own s F G (w, p, q, blk # bss)" by (rule R(8)) simp
  then obtain i ys where i: "infos s p = Some i" "bi_waiting_queue i = q" "F q = Some ys"
      "map (\<lambda>x. take (unat (snd x)) (the (chars s (fst x)))) ys = blk # bss"
      "\<forall>v l. G v = Some l \<longrightarrow> lk_info l = p \<longrightarrow> v = w \<and> bi_valid i"
      "\<not> own q" "\<forall>v l. G v = Some l \<longrightarrow> lk_queue l \<noteq> Some q" by (rule pinnedE)
  then obtain b n xs where ys: "ys = (b, n) # xs" by (cases ys) auto
  note xs = i(3) [unfolded ys]
  let ?F = "F(q \<mapsto> xs)"
  have sep: "separate F" using R(2) by (simp add: sendable_def)
  obtain bs where bs: "chars s b = Some bs" "unat n \<le> length bs"
    using sendable_item [OF R(2) xs, of "(b, n)"] by auto
  have uq: "unqueued ?F b" unfolding unqueued_def using separate_tl(2) [OF sep xs] by force
  have live: "lk_buf l \<noteq> Some b" if l: "G v = Some l" for v l
  proof
    assume "lk_buf l = Some b"
    with R(4) [of v] l have "unqueued F b" by (auto simp: rel_option_iff entry_at_def split: option.splits)
    with xs have "b \<notin> fst ` set ((b, n) # xs)" unfolding unqueued_def by blast
    then show False by simp
  qed
  have un: "unqueued ?F a" if a: "unqueued F a" for a
  proof -
    have "a \<notin> fst ` set ((b, n) # xs)" using a xs unfolding unqueued_def by blast
    with a show ?thesis by (simp add: unqueued_def)
  qed
  show ?thesis
  proof (rule runs_to_mono [OF sendable_dequeue [OF R(2) xs]], elim conjE)
    fix x s' assume x: "x = (n, Some b)" and s': "q_frame s s'" "sendable s' ?F"
      "wire s' ?F = (wire s F)(q := map_option tl (wire s F q))"
    note fr = q_frameD [OF s'(1)]
    have "pinned own s' ?F G (w, p, q, bss)"
      using pin s'(3) fr(3) by (auto simp: pinned_def)
    then have "rep t {} (Some (w, p, q, bss)) s' ?F G st"
      by (intro rep_queues [OF r s'(1,2) _ i(6)]) (use s'(3) i(7) un in auto)
    moreover have "block_at s' b blk" using bs fr(2) i(4) ys by (auto simp: block_at_def)
    moreover have "loose ?F G b" using uq live by (auto simp: loose_def)
    ultimately show "\<exists>n b F'. x = (n, Some b) \<and> rep t {} (Some (w, p, q, bss)) s' F' G st \<and>
        block_at s' b blk \<and> loose F' G b" using x by blast
  qed
qed

lemma drain_loop_rep:
  assumes out: "set (out st') \<subseteq> {b. takes b}"
  shows "a_drain f bss st = Some st' \<Longrightarrow> rep t {} (Some (w, p, q, bss)) s F G st \<Longrightarrow>
    \<forall>blk \<in> set bss. word_at blk 8 = Some w \<Longrightarrow>
    runs_to (drain_loop (handle_block f handler t) p ()) s
      (\<lambda>_ s'. \<exists>F' G'. rep t {} (Some (w, p, q, [])) s' F' G' st')"
proof (induction bss arbitrary: s F G st)
  case Nil
  have "pinned own s F G (w, p, q, [])" by (rule representsD(8) [OF Nil.prems(2)]) simp
  then obtain i where i: "infos s p = Some i" "bi_waiting_queue i = q" "F q = Some []"
    by (rule pinnedE) auto
  have "is_empty q s = Inr (True, s)" using sendable_is_empty [OF representsD(2) [OF Nil.prems(2)] i(3)] by simp
  from runs_to_exact [of "is_empty q" s, OF this] show ?case
    using Nil.prems(1,2) i by (subst whileM_unfold) (auto simp: wp)
next
  case (Cons blk bss)
  have "pinned own s F G (w, p, q, blk # bss)" by (rule representsD(8) [OF Cons.prems(2)]) simp
  then obtain i xs where i: "infos s p = Some i" "bi_waiting_queue i = q" "F q = Some xs" "xs \<noteq> []"
    by (rule pinnedE) auto
  have empty: "is_empty q s = Inr (False, s)"
    using sendable_is_empty [OF representsD(2) [OF Cons.prems(2)] i(3)] i(4) by simp
  from Cons.prems(1) obtain g st1 where f: "f = Suc g" and st1: "a_data g blk st = Some st1" "a_drain f bss st1 = Some st'"
    by (auto split: nat.splits option.splits)
  from st1(1) obtain off where off: "word_at blk 4 = Some off" "off \<noteq> -1"
    by (auto simp: a_data_def split: option.splits if_splits)
  have out1: "set (out st1) \<subseteq> {b. takes b}" using a_drain_out [OF st1(2)] out by blast
  have "runs_to (dequeue q) s (\<lambda>r s1. runs_to
      (case r of (sz, old_block) \<Rightarrow> (case old_block of None \<Rightarrow> halt Undefined | Some b \<Rightarrow> handle_block f handler t b)) s1
      (\<lambda>_ s'. runs_to (drain_loop (handle_block f handler t) p ()) s'
        (\<lambda>_ s'. \<exists>F' G'. rep t {} (Some (w, p, q, [])) s' F' G' st')))"
  proof (rule runs_to_mono [OF dequeue_rep [OF Cons.prems(2)]], elim exE conjE)
    fix r s1 n b F1
    assume r: "r = (n, Some b)" and r1: "rep t {} (Some (w, p, q, bss)) s1 F1 G st"
      and b: "block_at s1 b blk" "loose F1 G b"
    from b(1) off(1) word_at_prefix [of "length blk"] obtain bs where "chars s1 b = Some bs" "word_at bs 4 = Some off"
      unfolding block_at_def by metis
    then have hb: "runs_to (handle_block f handler t b) s1 Q = runs_to (handle_data_block g handler t b) s1 Q" for Q
      using off(2) by (simp add: f wp)
    have "runs_to (handle_data_block g handler t b) s1 (\<lambda>_ s'. \<exists>F' G'. rep t {} (Some (w, p, q, bss)) s' F' G' st1)"
      using data_rep [OF st1(1) r1 out1 b] Cons.prems(3) by simp
    then have "runs_to (handle_data_block g handler t b) s1 (\<lambda>_ s'. runs_to (drain_loop (handle_block f handler t) p ()) s'
        (\<lambda>_ s'. \<exists>F' G'. rep t {} (Some (w, p, q, [])) s' F' G' st'))"
      by (rule runs_to_mono) (use Cons.IH [OF st1(2)] Cons.prems(3) in auto)
    then show "runs_to
        (case r of (sz, old_block) \<Rightarrow> (case old_block of None \<Rightarrow> halt Undefined | Some b \<Rightarrow> handle_block f handler t b)) s1
        (\<lambda>_ s'. runs_to (drain_loop (handle_block f handler t) p ()) s'
          (\<lambda>_ s'. \<exists>F' G'. rep t {} (Some (w, p, q, [])) s' F' G' st'))"
      by (simp add: r hb del: handle_block.simps)
  qed
  then show ?case
    by (subst whileM_unfold) (simp add: runs_to_bnd runs_to_load runs_to_ret i(1,2) runs_to_exact [of "is_empty q" s, OF empty])
qed

lemma unpin_rep:
  assumes r: "rep t {} (Some (w, p, q, [])) s F G st"
  shows "runs_to (bnd (rd_info p) (\<lambda>i. seq (free_queue (bi_waiting_queue i))
      (wr_info p (bi_waiting_queue_update (\<lambda>_. NULL))))) s (\<lambda>_ s'. \<exists>F' G'. rep t {} None s' F' G' st)"
proof -
  note R = representsD [OF r]
  have "pinned own s F G (w, p, q, [])" by (rule R(8)) simp
  then obtain i where i: "infos s p = Some i" "bi_waiting_queue i = q" "F q = Some []"
      "\<forall>v l. G v = Some l \<longrightarrow> lk_info l = p \<longrightarrow> v = w \<and> bi_valid i"
      "\<not> own q" "\<forall>v l. G v = Some l \<longrightarrow> lk_queue l \<noteq> Some q"
    by (rule pinnedE) auto
  let ?F = "F(q := None)"
  have "runs_to (free_queue q) s (\<lambda>_ s'. runs_to (wr_info p (bi_waiting_queue_update (\<lambda>_. NULL))) s'
      (\<lambda>_ s'. \<exists>F' G'. rep t {} None s' F' G' st))"
  proof (rule runs_to_mono [OF sendable_free [OF R(2) i(3)]], elim conjE)
    fix x s1 assume s1: "q_frame s s1" "sendable s1 ?F" "wire s1 ?F = (wire s F)(q := None)"
    note fr = q_frameD [OF s1(1)]
    have r1: "rep t {} None s1 ?F G st"
      by (rule rep_queues [OF r s1(1,2) _ i(5)]) (use s1(3) i(6) in \<open>auto simp: unqueued_def\<close>)
    have i1: "infos s1 p = Some i" using i(1) fr(3) by simp
    let ?s = "s1\<lparr>infos := (infos s1)(p \<mapsto> i\<lparr>bi_waiting_queue := NULL\<rparr>)\<rparr>"
    have "rep t {} None ?s ?F G st"
    proof (rule rep_info [OF r1 i1])
      show "rel_option (entry_at own ?s ?F {} w) (G w) (tab st w)"
      proof (cases "G w")
        case (Some l)
        with representsD(4) [OF r1, of w] obtain e where e: "tab st w = Some e" "entry_at own s1 ?F {} w l e"
          by (auto simp: rel_option_iff split: option.splits)
        show ?thesis
        proof (cases "lk_info l = p")
          case True
          with i(4) Some have "bi_valid i" by blast
          with e(2) True i1 have m: "info_matches {} w l e i" "en_valid e" by (auto simp: entry_at_def info_matches_def)
          then have "info_matches {} w l e (i\<lparr>bi_waiting_queue := NULL\<rparr>)" by (simp add: info_matches_def)
          moreover have "lk_queue l = None" using m by (simp add: info_matches_def)
          ultimately show ?thesis using True e Some m(2) by (simp add: entry_at_def wire_def)
        next
          case False
          then have "untouched s1 ?F ?s ?F l" by (simp add: untouched_def wire_def)
          with entry_at_untouched [OF e(2) this] e(1) Some show ?thesis by simp
        qed
      qed (use representsD(4) [OF r1, of w] in \<open>auto simp: rel_option_iff split: option.splits\<close>)
    qed (use i(4) representsD(5,6) [OF r1] in \<open>auto intro: apart_sym\<close>)
    with i1 show "runs_to (wr_info p (bi_waiting_queue_update (\<lambda>_. NULL))) s1 (\<lambda>_ s'. \<exists>F' G'. rep t {} None s' F' G' st)"
      by (auto simp: runs_to_store)
  qed
  then show ?thesis by (simp add: runs_to_bnd runs_to_seq runs_to_load i(1,2))
qed

lemma drain_rep:
  assumes a: "a_drain f bss st = Some st'" and out: "set (out st') \<subseteq> {b. takes b}"
    and i: "infos s p = Some i" and r: "rep t {} None s F G st"
    and q: "if bi_waiting_queue i = NULL then bss = [] else pinned own s F G (w, p, bi_waiting_queue i, bss)"
    and tag: "\<forall>blk \<in> set bss. word_at blk 8 = Some w"
  shows "runs_to (drain_waiting (handle_block f handler t) p) s (\<lambda>_ s'. \<exists>F' G'. rep t {} None s' F' G' st')"
proof (cases "bi_waiting_queue i = NULL")
  case True
  with a q r i show ?thesis by (auto simp: drain_waiting_def wp)
next
  case False
  with r q have "rep t {} (Some (w, p, bi_waiting_queue i, bss)) s F G st" by (simp add: represents_def)
  have "runs_to (drain_loop (handle_block f handler t) p ()) s (\<lambda>_ s'. runs_to
      (bnd (rd_info p) (\<lambda>i. seq (free_queue (bi_waiting_queue i)) (wr_info p (bi_waiting_queue_update (\<lambda>_. NULL))))) s'
      (\<lambda>_ s'. \<exists>F' G'. rep t {} None s' F' G' st'))"
  proof (rule runs_to_mono [OF drain_loop_rep [OF out a _ tag]])
    show "rep t {} (Some (w, p, bi_waiting_queue i, bss)) s F G st" by fact
  qed (elim exE, rule unpin_rep)
  with False i show ?thesis by (simp add: drain_waiting_def runs_to_bnd runs_to_load runs_to_whenM)
qed

end

section \<open>Init blocks\<close>

lemma fill_in_run:
  assumes "chars s b = Some bs" and "word_at bs 8 = Some sz" and "word_at bs 12 = Some k"
    and "word_at bs 16 = Some prev" and "21 \<le> length bs" and "initialised (take 1 (drop 20 bs)) = Some [x]"
    and "infos s p = Some i" and "\<not> oom s (Suc (next_addr s))" and "b \<noteq> Suc (next_addr s)"
  shows "runs_to (fill_in b p) s Q = Q () (s\<lparr>next_addr := Suc (next_addr s),
    chars := (chars s)(Suc (next_addr s) \<mapsto> replicate (unat sz) None),
    infos := (infos s)(p \<mapsto> i\<lparr>bi_buffer := Suc (next_addr s), bi_tag := k, bi_prev_tag := prev,
      bi_last_block := (x \<noteq> 0), bi_buffer_size := sz, bi_valid := True\<rparr>)\<rparr>)"
  using assms by (simp add: fill_in_def read_bool_def wp)

lemma unqueued_new:
  assumes F: "sendable s F" and a: "chars s a = None"
  shows "unqueued F a"
  unfolding unqueued_def
proof (intro allI impI notI)
  fix q xs assume q: "F q = Some xs" "a \<in> fst ` set xs"
  then obtain x where x: "x \<in> set xs" "a = fst x" by blast
  from sendable_item [OF F q(1) x(1)] x(2) a show False by (metis option.distinct(1))
qed

context buffer_handler
begin

lemma not_fresh: "rep t lent Z s F G st \<Longrightarrow> chars s b = Some bs \<Longrightarrow> b \<noteq> Suc (next_addr s) \<and> b \<noteq> Suc (Suc (next_addr s))"
  using below_bound [of "chars s" "next_addr s" b bs] by (auto simp: represents_def sendable_def)

lemma init_rep:
  assumes a: "a_init f blk st = Some st'" and r: "rep t {} None s F G st" and out: "set (out st') \<subseteq> {b. takes b}"
    and b: "block_at s b blk"
  shows "runs_to (handle_init_block f (handle_block f handler t) t b) s (\<lambda>_ s'. \<exists>F' G'. rep t {} None s' F' G' st')"
proof -
  note R = representsD [OF r]
  from a obtain sz k prev lst where w: "word_at blk 8 = Some sz" "word_at blk 12 = Some k"
      "word_at blk 16 = Some prev" "initialised (take 1 (drop 20 blk)) = Some [lst]"
    and k: "tag_ok k" and f: "f \<noteq> 0"
    and st': "(case tab st k of
        None \<Rightarrow> st' = put_entry k \<lparr>en_valid = True, en_data = replicate (unat sz) None, en_written = 0,
          en_prev = prev, en_next = -1, en_last = (lst \<noteq> 0), en_done = False, en_sent = False, en_waiting = []\<rparr> st
      | Some e \<Rightarrow> \<not> en_valid e \<and> a_drain f (en_waiting e) (put_entry k (e\<lparr>en_valid := True,
            en_data := replicate (unat sz) None, en_prev := prev, en_last := (lst \<noteq> 0), en_waiting := []\<rparr>) st) = Some st')"
    by (auto simp: a_init_def split: option.splits list.splits if_splits)
  from b obtain bs where bs: "chars s b = Some bs" "length blk \<le> length bs" "take (length blk) bs = blk"
    by (auto simp: block_at_def)
  have wb: "word_at bs 8 = Some sz" "word_at bs 12 = Some k" "word_at bs 16 = Some prev"
    using word_at_prefix [of "length blk" bs] bs(2,3) w by auto
  have len: "21 \<le> length blk"
  proof (rule ccontr)
    assume "\<not> 21 \<le> length blk"
    then have "drop 20 blk = []" by simp
    with w(4) show False by (simp add: initialised_def)
  qed
  have lst: "initialised (take 1 (drop 20 bs)) = Some [lst]"
  proof -
    have "take 1 (drop 20 blk) = take 1 (drop 20 bs)"
      by (subst bs(3) [symmetric]) (use len in \<open>simp add: drop_take\<close>)
    with w(4) show ?thesis by simp
  qed
  have blen: "21 \<le> length bs" using len bs(2) by simp
  obtain d where d: "f = Suc d" using f by (cases f) auto
  have n64: "unat sz < 2 ^ 32" using unsigned_less [of sz, where 'a = nat] by simp
  have cb: "below (chars s) (next_addr s)" using R(2) by (simp add: sendable_def)
  have oom: "\<not> oom s n" for n by (rule sendable_oom [OF R(2)])
  let ?Q = "\<lambda>_ s'. \<exists>F' G'. rep t {} None s' F' G' st'"
  show ?thesis
    unfolding handle_init_block_def runs_to_bnd runs_to_read_word bs(1) option.case wb(2)
  proof (rule runs_to_mono [OF lookup_rep [OF r, of k]], elim conjE)
    fix x :: "int \<times> HTKeyValue option" and s1
    assume x: "x = (case G k of None \<Rightarrow> (0, None) | Some l \<Rightarrow> (1, Some \<lparr>kv_key = scast k, kv_value = lk_info l\<rparr>))"
      and r1: "rep t {} None s1 F G st" and f1: "ht_frame s s1"
    note R1 = representsD [OF r1]
    have c1: "chars s1 b = Some bs" using ht_frameD(2) [OF f1] bs(1) by simp
    note nb = not_fresh [OF r1 c1]
    have cb1: "below (chars s1) (next_addr s1)" using R1(2) by (simp add: sendable_def)
    have oom1: "\<not> oom s1 n" for n by (rule sendable_oom [OF R1(2)])
    let ?p = "Suc (next_addr s1)"
    have p_new: "infos s1 ?p = None" "chars s1 ?p = None" "chars s1 (Suc ?p) = None"
      using below_fresh [OF R1(3)] below_fresh [OF cb1] by simp_all
    show "runs_to (case x of (found, keyvalue) \<Rightarrow>
        if found = 0 then
          bnd calloc_info (\<lambda>new_buf.
          seq (wr_info new_buf (\<lambda>i. i\<lparr>bi_mutex := False, bi_next_tag := no_tag\<rparr>))
         (seq (fill_in b new_buf)
         (bnd (rd_info new_buf) (\<lambda>i.
          bnd (InsertHashTable f t \<lparr>kv_key = scast (bi_tag i), kv_value = new_buf\<rparr>) (\<lambda>(res, old).
          whenM (res = 2)
            (case old of
               None \<Rightarrow> halt Undefined
             | Some kv \<Rightarrow>
                 bnd (rd_info (kv_value kv)) (\<lambda>repeat.
                 seq (wr_info new_buf (bi_next_tag_update (\<lambda>_. bi_next_tag repeat)))
                (seq (drain_waiting (handle_block f handler t) (kv_value kv))
                     (dealloc infos infos_update (kv_value kv))))))))))
        else
          (case keyvalue of
             None \<Rightarrow> halt Undefined
           | Some kv \<Rightarrow>
               let new_buf = kv_value kv in
               bnd (rd_info new_buf) (\<lambda>i.
               if bi_valid i then halt (Exit 1)
               else
                 seq (lock_info new_buf)
                (seq (fill_in b new_buf)
                (seq (unlock_info new_buf)
                     (drain_waiting (handle_block f handler t) new_buf)))))) s1 ?Q"
    proof (cases "tab st k")
      case None
      then have G: "G k = None" using R1(9) by blast
      let ?e = "\<lparr>en_valid = True, en_data = replicate (unat sz) None, en_written = 0,
          en_prev = prev, en_next = -1, en_last = (lst \<noteq> 0), en_done = False, en_sent = False, en_waiting = []\<rparr>"
      from st' None have st': "st' = put_entry k ?e st" by simp
      let ?i = "\<lparr>bi_buffer = Suc ?p, bi_buffer_size = sz, bi_tag = k, bi_completed = False, bi_sent = False,
         bi_n_written = 0, bi_prev_tag = prev, bi_last_block = (lst \<noteq> 0), bi_mutex = False,
         bi_valid = True, bi_next_tag = no_tag, bi_waiting_queue = NULL\<rparr>"
      let ?s = "s1\<lparr>next_addr := Suc ?p, chars := (chars s1)(Suc ?p \<mapsto> replicate (unat sz) None),
         infos := (infos s1)(?p \<mapsto> ?i)\<rparr>"
      let ?l = "\<lparr>lk_info = ?p, lk_buf = Some (Suc ?p), lk_queue = None\<rparr>"
      have r2: "rep t {} None ?s F G st"
        by (rule rep_fresh [OF r1]) (use R1(3) cb1 in \<open>auto simp: ht_alike_def below_mono\<close>)
      have un: "unqueued F (Suc ?p)"
        by (rule unqueued_new [OF R1(2)]) (rule p_new)
      have old: "\<exists>i. infos s1 (lk_info l') = Some i" "lk_buf l' = Some a \<Longrightarrow> chars s1 a \<noteq> None"
        if "G v = Some l'" for v l' a
        using R1(4) [of v] that by (auto simp: rel_option_iff entry_at_def split: option.splits)
      have ap: "apart ?l l'" if "G v = Some l'" for v l'
        using old [OF that] p_new by (auto simp: apart_def)
      have e: "entry_at own ?s F {} k ?l ?e"
        using un n64 by (auto simp: entry_at_def info_matches_def no_tag_def NO_TAG_def)
      have ins: "runs_to (InsertHashTable f t \<lparr>kv_key = scast k, kv_value = ?p\<rparr>) ?s (\<lambda>res s'.
          res = (1, None) \<and> rep t {} None s' F (G(k \<mapsto> ?l)) st')"
      proof -
        have "runs_to (InsertHashTable (Suc d) t \<lparr>kv_key = ucast k, kv_value = lk_info ?l\<rparr>) ?s (\<lambda>res s'.
            res = (1, None) \<and> rep t {} None s' F (G(k \<mapsto> ?l)) (put_entry k ?e st) \<and> ht_frame ?s s')"
          by (rule rep_insert [OF r2 k G e ap]) simp_all
        then show ?thesis unfolding d st' scast_tag [OF k] link.simps by (rule runs_to_mono) blast
      qed
      have fill: "runs_to (fill_in b ?p) (s1\<lparr>next_addr := ?p, infos := (infos s1)(?p \<mapsto> i)\<rparr>) Q =
          Q () (s1\<lparr>next_addr := Suc ?p, chars := (chars s1)(Suc ?p \<mapsto> replicate (unat sz) None),
            infos := (infos s1)(?p \<mapsto> i\<lparr>bi_buffer := Suc ?p, bi_tag := k, bi_prev_tag := prev,
              bi_last_block := (lst \<noteq> 0), bi_buffer_size := sz, bi_valid := True\<rparr>)\<rparr>)" for i Q
        by (subst fill_in_run [OF _ wb blen lst]) (use c1 nb oom1 in simp_all)
      have "runs_to (InsertHashTable f t \<lparr>kv_key = scast k, kv_value = ?p\<rparr>) ?s (\<lambda>r s'.
          runs_to (case r of (res, old) \<Rightarrow> whenM (res = 2) (h old)) s' ?Q)" for h
        by (rule runs_to_mono [OF ins]) (auto simp: wp)
      then show ?thesis
        using x G oom1
        by (simp add: runs_to_bnd runs_to_seq runs_to_load runs_to_store calloc_info_def runs_to_malloc_obj Let_def fill)
    next
      case (Some e)
      from represents_entryE [OF r1 Some] obtain l i where l: "G k = Some l" "infos s1 (lk_info l) = Some i"
        "info_matches {} k l e i" "entry_at own s1 F {} k l e" by blast
      from st' Some have v: "\<not> en_valid e" and a': "a_drain f (en_waiting e) (put_entry k (e\<lparr>en_valid := True,
            en_data := replicate (unat sz) None, en_prev := prev, en_last := (lst \<noteq> 0), en_waiting := []\<rparr>) st) = Some st'"
        by auto
      let ?e = "e\<lparr>en_valid := True, en_data := replicate (unat sz) None, en_prev := prev,
        en_last := (lst \<noteq> 0), en_waiting := []\<rparr>"
      let ?b = "Suc (next_addr s1)"
      let ?i = "i\<lparr>bi_buffer := ?b, bi_tag := k, bi_prev_tag := prev, bi_last_block := (lst \<noteq> 0),
        bi_buffer_size := sz, bi_valid := True\<rparr>"
      let ?u = "s1\<lparr>next_addr := ?b, chars := (chars s1)(?b \<mapsto> replicate (unat sz) None)\<rparr>"
      let ?s = "?u\<lparr>infos := (infos ?u)(lk_info l \<mapsto> ?i)\<rparr>"
      let ?l = "l\<lparr>lk_buf := if en_sent e then None else Some ?b, lk_queue := None\<rparr>"
      have r2: "rep t {} None ?u F G st"
        by (rule rep_fresh [OF r1]) (use R1(3) cb1 in \<open>auto simp: ht_alike_def below_mono\<close>)
      have un: "unqueued F ?b"
        by (rule unqueued_new [OF R1(2)]) (rule p_new)
      have live: "lk_buf l' \<noteq> Some ?b" if "G v = Some l'" for v l'
        using R1(4) [of v] that p_new(2) by (auto simp: rel_option_iff entry_at_def split: option.splits)
      have only: "v = k" if "G v = Some l'" "lk_info l' = lk_info l" for v l'
        using R1(6) [OF that(1) l(1)] that(2) by (auto simp: apart_def)
      have r3: "rep t {} None ?s F (G(k \<mapsto> ?l)) (put_entry k ?e st)"
      proof (rule rep_info [OF r2])
        show "infos ?u (lk_info l) = Some i" using l(2) by simp
        show "keyed (G(k \<mapsto> ?l)) = keyed G" by (rule keyed_same [of G, OF l(1)]) simp
        show "rel_option (entry_at own ?s F {} k) ((G(k \<mapsto> ?l)) k) (tab (put_entry k ?e st) k)"
          using l(3) v un n64 by (auto simp: entry_at_def info_matches_def)
        fix v l1 l2 assume "v \<noteq> k" "(G(k \<mapsto> ?l)) k = Some l1" "G v = Some l2"
        then show "apart l1 l2" using R1(6) [OF l(1), of v l2] live [of v l2]
          by (auto simp: apart_def split: if_splits)
      qed (use only k in auto)
      have q: "if bi_waiting_queue ?i = NULL then en_waiting e = []
          else pinned own ?s F (G(k \<mapsto> ?l)) (k, lk_info l, bi_waiting_queue ?i, en_waiting e)"
      proof (cases "bi_waiting_queue i = NULL")
        case True
        with l(3,4) v show ?thesis by (auto simp: info_matches_def entry_at_def)
      next
        case False
        with l(3) v have lq: "lk_queue l = Some (bi_waiting_queue i)" by (simp add: info_matches_def)
        with l(4) have wq: "\<not> own (bi_waiting_queue i)" "wire s1 F (bi_waiting_queue i) = Some (en_waiting e)"
          by (auto simp: entry_at_def)
        have eq: "wire ?s F = wire s1 F"
          using with_bytes_new(2) [OF R1(2), of "replicate (unat sz) None"] by (simp add: wire_def)
        have "lk_queue l' \<noteq> Some (bi_waiting_queue i)" if "(G(k \<mapsto> ?l)) v' = Some l'" for v' l'
          using that R1(6) [OF _ l(1), of v' l'] lq by (auto simp: apart_def split: if_splits)
        moreover have "wire ?s F (bi_waiting_queue i) = Some (en_waiting e)" by (simp only: eq wq(2))
        ultimately show ?thesis using only wq(1) False by (auto simp: pinned_def split: if_splits)
      qed
      have tag: "\<forall>blk \<in> set (en_waiting e). word_at blk 8 = Some k" using l(4) by (simp add: entry_at_def)
      have dr: "runs_to (drain_waiting (handle_block f handler t) (lk_info l)) ?s ?Q"
        by (rule drain_rep [OF a' out _ r3 q tag]) simp
      have mu: "\<not> bi_mutex i" "\<not> bi_valid i" using l(3) v by (simp_all add: info_matches_def)
      have fill: "runs_to (fill_in b (lk_info l)) (s1\<lparr>infos := (infos s1)(lk_info l \<mapsto> j)\<rparr>) Q =
          Q () (s1\<lparr>next_addr := ?b, chars := (chars s1)(?b \<mapsto> replicate (unat sz) None),
            infos := (infos s1)(lk_info l \<mapsto> j\<lparr>bi_buffer := ?b, bi_tag := k, bi_prev_tag := prev,
              bi_last_block := (lst \<noteq> 0), bi_buffer_size := sz, bi_valid := True\<rparr>)\<rparr>)" for j Q
        by (subst fill_in_run [OF _ wb blen lst]) (use c1 nb oom1 in simp_all)
      have i: "i\<lparr>bi_buffer := ?b, bi_tag := k, bi_prev_tag := prev, bi_last_block := (lst \<noteq> 0),
        bi_buffer_size := sz, bi_valid := True, bi_mutex := False\<rparr> = ?i"
        using mu(1) by (cases i) simp
      from dr show ?thesis
        using x l(1,2) mu
        by (simp add: i runs_to_bnd runs_to_seq runs_to_load runs_to_store lock_info_def unlock_info_def Let_def fill)
    qed
  qed
qed

lemma block_rep:
  assumes a: "a_block f blk st = Some st'" and r: "rep t {} None s F G st" and out: "set (out st') \<subseteq> {b. takes b}"
    and b: "block_at s b blk" "loose F G b"
  shows "runs_to (handle_block f handler t b) s (\<lambda>_ s'. \<exists>F' G'. rep t {} None s' F' G' st')"
proof -
  from a obtain g head where f: "f = Suc g" and head: "word_at blk 4 = Some head"
    and st': "if head = -1 then a_init g blk st = Some st' else a_data g blk st = Some st'"
    by (auto simp: a_block_def split: nat.splits option.splits if_splits)
  from b(1) head word_at_prefix [of "length blk"] obtain bs where "chars s b = Some bs" "word_at bs 4 = Some head"
    unfolding block_at_def by metis
  then have run: "runs_to (handle_block f handler t b) s Q =
      (if head = -1 then runs_to (handle_init_block g (handle_block g handler t) t b) s Q
       else runs_to (handle_data_block g handler t b) s Q)" for Q
    by (simp add: f wp)
  show ?thesis
    unfolding run
    using st' init_rep [OF _ r out b(1), of g] data_rep [OF _ r out b, of g] by auto
qed

end

section \<open>Blocks from a connection\<close>

text \<open>A handler that does not look at what is still to arrive.\<close>

locale net_handler = buffer_handler +
  assumes dlv_net: "dlv s F D \<Longrightarrow> dlv (s\<lparr>net_in := N\<rparr>) F D"
begin

lemma at_net: "buffer_handler handler own (\<lambda>s F D. dlv s F D \<and> net_in s = N) takes"
proof (unfold_locales, goal_cases)
  case (1 s F D bs b n)
  then have d: "dlv s F D" and N: "net_in s = N" by simp_all
  show ?case
  proof (rule runs_to_mono [OF handler_law [OF 1(1) d 1(3-6)]], elim exE conjE)
    fix x s' F' assume h: "handled own s F b s' F'" "dlv s' F' (D @ [bs])"
    then have "net_in s' = N" using N by (simp add: handled_def)
    with h show "\<exists>F'. handled own s F b s' F' \<and> dlv s' F' (D @ [bs]) \<and> net_in s' = N" by blast
  qed
next
  case (2 s F D F' s')
  then have "dlv s F D" "net_in s = N" by simp_all
  from dlv_stable [OF this(1) 2(2-6)] 2(6) this(2) show ?case by simp
next
  case (3 s F D q)
  then show ?case using own_queue by blast
qed

lemma represents_net:
  "represents t own (\<lambda>s F D. dlv s F D \<and> net_in s = N) lent Z s F G st \<longleftrightarrow>
     rep t lent Z s F G st \<and> net_in s = N"
  by (auto simp: represents_def)

lemma rep_net:
  assumes r: "rep t lent Z s F G st"
  shows "rep t lent Z (s\<lparr>net_in := N\<rparr>) F G st"
proof -
  let ?s = "s\<lparr>net_in := N\<rparr>"
  note R = representsD [OF r]
  have w: "sendable ?s F" "wire ?s F = wire s F"
    using sendable_cong [OF R(2), of ?s] R(2) by (simp_all add: sendable_def)
  show ?thesis
    by (rule represents_same [OF r ht_ok_alike [OF R(1)] w(1)])
      (use R(3) dlv_net [OF R(7)] w(2) R(8) in \<open>auto simp: ht_alike_def intro: untouched_eq elim: pinned_cong\<close>)
qed

text \<open>One round of the loop of \<open>listen_for_block\<close>.\<close>

lemma listen_once_rep:
  assumes a: "a_block f (map Some ws) st = Some st'" and r: "rep t {} None s F G st"
    and out: "set (out st') \<subseteq> {b. takes b}"
    and net: "clean s fd" "pending s fd = ws @ rest"
    and ws: "4 \<le> length ws" "unat (of_le32 (take 4 ws)) = length ws" "length ws \<le> 16396"
  shows "runs_to (listen_once f handler t fd) s (\<lambda>go s'. go \<and> (\<exists>F' G'. rep t {} None s' F' G' st') \<and>
    pending s' fd = rest \<and> clean s' fd \<and> (\<forall>k. k \<noteq> fd \<longrightarrow> net_in s' k = net_in s k))"
proof -
  note R = representsD [OF r]
  let ?b = "Suc (next_addr s)"
  have cb: "below (chars s) (next_addr s)" using R(2) by (simp add: sendable_def)
  have none: "chars s ?b = None" using below_fresh [OF cb] by simp
  let ?s1 = "s\<lparr>next_addr := ?b, chars := (chars s)(?b \<mapsto> replicate 16396 None)\<rparr>"
  have oom: "\<not> oom s n" for n by (rule sendable_oom [OF R(2)])
  have size: "nat (BLOCK_SIZE + int sizeof_data_block) = 16396" by (simp add: BLOCK_SIZE_def sizeof_data_block_def)
  have "runs_to (recieve_tcp_block ?b max fd) ?s1 (\<lambda>r s'. r = int (length ws) \<and>
      pending s' fd = rest \<and> clean s' fd \<and> (\<exists>as. s' = ?s1\<lparr>net_in := (net_in ?s1)(fd := as),
      chars := (chars ?s1)(?b \<mapsto> map Some ws @ drop (length ws) (replicate 16396 None))\<rparr>))" for max
    by (rule recieve_tcp_block_law) (use net ws in \<open>simp_all add: clean_def pending_def\<close>)
  then have "runs_to (recieve_tcp_block ?b max fd) ?s1 (\<lambda>r s2. runs_to
      (if r = -1 \<or> r = 0 then ret False else seq (handle_block f handler t ?b) (ret True)) s2
      (\<lambda>go s'. go \<and> (\<exists>F' G'. rep t {} None s' F' G' st') \<and>
        pending s' fd = rest \<and> clean s' fd \<and> (\<forall>k. k \<noteq> fd \<longrightarrow> net_in s' k = net_in s k)))" for max
  proof (rule runs_to_mono, elim conjE exE)
    fix x s2 as
    assume x: "x = int (length ws)" and p: "pending s2 fd = rest" "clean s2 fd"
      and s2: "s2 = ?s1\<lparr>net_in := (net_in ?s1)(fd := as),
        chars := (chars ?s1)(?b \<mapsto> map Some ws @ drop (length ws) (replicate 16396 None))\<rparr>"
    let ?bs = "map Some ws @ drop (length ws) (replicate 16396 None)"
    have "rep t {} None (s\<lparr>next_addr := ?b, chars := (chars s)(?b \<mapsto> ?bs)\<rparr>) F G st"
      by (rule rep_fresh [OF r]) (use R(3) cb in \<open>auto simp: ht_alike_def\<close>)
    moreover have "s\<lparr>next_addr := ?b, chars := (chars s)(?b \<mapsto> ?bs), net_in := net_in s2\<rparr> = s2"
      by (cases s) (simp add: s2)
    ultimately have r2: "rep t {} None s2 F G st" using rep_net by (metis (no_types))
    have b: "block_at s2 ?b (map Some ws)" by (simp add: block_at_def s2)
    have "lk_buf l \<noteq> Some ?b" if "G v = Some l" for v l
      using R(4) [of v] that none by (auto simp: rel_option_iff entry_at_def split: option.splits)
    then have lo: "loose F G ?b" using unqueued_new [OF R(2) none] by (simp add: loose_def)
    have rN: "represents t own (\<lambda>s F D. dlv s F D \<and> net_in s = net_in s2) {} None s2 F G st"
      using r2 by (simp add: represents_net)
    have hb: "runs_to (handle_block f handler t ?b) s2 (\<lambda>_ s'. (\<exists>F' G'. rep t {} None s' F' G' st') \<and>
        net_in s' = net_in s2)"
      by (rule runs_to_mono [OF buffer_handler.block_rep [OF at_net a rN out b lo]]) (auto simp: represents_net)
    have "pending s' fd = rest \<and> clean s' fd \<and> (\<forall>k. k \<noteq> fd \<longrightarrow> net_in s' k = net_in s k)"
      if "net_in s' = net_in s2" for s'
      using p that by (auto simp: pending_def clean_def s2)
    moreover have "x \<noteq> -1" "x \<noteq> 0" using x ws(1) by auto
    ultimately show "runs_to (if x = -1 \<or> x = 0 then ret False else seq (handle_block f handler t ?b) (ret True)) s2
      (\<lambda>go s'. go \<and> (\<exists>F' G'. rep t {} None s' F' G' st') \<and>
        pending s' fd = rest \<and> clean s' fd \<and> (\<forall>k. k \<noteq> fd \<longrightarrow> net_in s' k = net_in s k))"
      by (simp add: runs_to_seq runs_to_ret) (rule runs_to_mono [OF hb], simp)
  qed
  then show ?thesis
    using oom by (simp add: listen_once_def Let_def runs_to_bnd runs_to_malloc_bytes size)
qed

end
end
