(* ===== verification/WriterSpec.thy ===== *)
theory WriterSpec
  imports Writer
begin

text \<open>
  What \<open>multiplex_write_queues\<close> promises: which blocks it puts on which queue, and that it does not
  return when the buffer has fewer bytes than there are queues.
\<close>

section \<open>More queues than bytes\<close>

lemma fl_below_one:
  assumes "0 < x" and "x \<le> 1 - 1 / 2 ^ 24"
  shows "fl x < 1"
proof (cases "x \<le> 2 powi (-1)")
  case True
  have "fl x \<le> 2 powi (-1)" by (rule fl_le [OF assms(1) True])
  then show ?thesis by (rule le_less_trans) simp
next
  case False
  have "exponent x < 0"
    using exponent_bounds(1) [OF assms(1)] assms(2) by (intro powi_le) auto
  moreover have "-1 < exponent x + 1"
    using False exponent_bounds(2) [OF assms(1)] by (intro powi_le [of _ x]) auto
  ultimately have e: "exponent x = -1" by simp
  have "x / 2 powi (-24) \<le> of_int (2 ^ 24 - 1)" using assms(2) by (simp add: power_int_minus)
  then have "round_half_even (x / 2 powi (-24)) \<le> 2 ^ 24 - 1" by (rule round_half_even_le)
  then have "(of_int (round_half_even (x / 2 powi (-24))) :: rat) \<le> of_int (2 ^ 24 - 1)"
    by (simp only: of_int_le_iff)
  then have "fl x \<le> of_int (2 ^ 24 - 1) * 2 powi (-24)"
    using assms(1) by (simp add: fl_def Let_def e)
  also have "\<dots> < 1" by (simp add: power_int_minus)
  finally show ?thesis .
qed

lemma choose_unif_size_zero:
  assumes "0 < l" and "l < n" and "n < 2 ^ 24"
  shows "choose_unif_size l n = Some 0"
proof -
  have "of_int l / of_int n \<le> (of_int (n - 1) / of_int n :: rat)"
    using assms by (intro divide_right_mono) auto
  also have "\<dots> = 1 - 1 / of_int n" using assms by (simp add: diff_divide_distrib)
  also have "\<dots> \<le> 1 - 1 / 2 ^ 24"
  proof -
    have "(of_int n :: rat) \<le> of_int (2 ^ 24)" using assms(3) by (simp only: of_int_le_iff)
    then have "(1 :: rat) / 2 ^ 24 \<le> 1 / of_int n" using assms by (intro divide_left_mono) auto
    then show ?thesis by simp
  qed
  finally have "block_quotient l n 1 < 1"
    using assms unfolding block_quotient_def by (simp add: fl_int fl_below_one)
  moreover have "0 < block_quotient l n 1"
    using assms fl_half_double(1) [of "of_int l / of_int n"]
    by (simp add: block_quotient_def fl_int less_le_trans [of 0 "of_int l / of_int n / 2"])
  ultimately have "\<not> of_int BLOCK_SIZE < block_quotient l n 1" "truncate_int (block_quotient l n 1) = 0"
    by (simp_all add: BLOCK_SIZE_def truncate_int_def floor_eq_iff)
  then show ?thesis by (simp add: choose_unif_size_def while_option_unfold)
qed

lemma empty_blocks_diverge:
  assumes h: "holding s W" "set qs \<subseteq> dom W" and r: "writer_ready s qarr qs buffer bs"
    and n: "bs \<noteq> []" "length bs + 16384 < 2 ^ 31"
  shows "whileM (\<lambda>i. ret (i < int (length bs)))
      (write_block qarr (int (length qs)) buffer (int (length bs)) tag 0) 0 s = Inl Diverges"
proof (rule whileM_diverges [where I = "\<lambda>i s'. i = 0 \<and> wr_frame s s' \<and>
    (\<exists>W'. holding s' W' \<and> set qs \<subseteq> dom W')"])
  show "(0 :: int) = 0 \<and> wr_frame s s \<and> (\<exists>W'. holding s W' \<and> set qs \<subseteq> dom W')" using h by auto
next
  fix i :: int and s'
  assume "i = 0 \<and> wr_frame s s' \<and> (\<exists>W'. holding s' W' \<and> set qs \<subseteq> dom W')"
  then obtain W' where I: "i = 0" "wr_frame s s'" "holding s' W'" "set qs \<subseteq> dom W'" by blast
  have dom: "set qs \<subseteq> dom (deliver ps W')" for ps using I(4) by (auto intro!: deliver_dom)
  have "runs_to (write_block qarr (int (length qs)) buffer (int (length bs)) tag (int 0) (int 0)) s' (\<lambda>i s''.
      i = 0 \<and> wr_frame s s'' \<and> (\<exists>W'. holding s'' W' \<and> set qs \<subseteq> dom W'))"
    by (rule runs_to_mono [OF write_block_law [OF I(3,4) writer_ready_frame [OF r I(2)] _ _ _ keeps_True le0]])
      (use n dom wr_frame_trans [OF I(2)] in auto)
  then show "runs_to (ret (i < int (length bs))) s' (\<lambda>go s''. go \<and>
      runs_to (write_block qarr (int (length qs)) buffer (int (length bs)) tag 0 i) s'' (\<lambda>i s'.
        i = 0 \<and> wr_frame s s' \<and> (\<exists>W'. holding s' W' \<and> set qs \<subseteq> dom W')))"
    using n I(1) by (simp add: wp)
qed

lemma multiplex_write_queues_diverges:
  assumes h: "holding s W" "set qs \<subseteq> dom W" and r: "writer_ready s qarr qs buffer bs"
    and n: "bs \<noteq> []" "length bs < length qs" "length qs < 2 ^ 24" and tag: "in_int (prev + 1)"
  shows "multiplex_write_queues qarr (int (length qs)) buffer (int (length bs)) prev s = Inl Diverges"
proof -
  have size: "choose_unif_size (int (length bs)) (int (length qs)) = Some 0"
    using n by (intro choose_unif_size_zero) simp_all
  let ?W = "W(last qs \<mapsto> the (W (last qs)) @ [init_bytes (prev + 1) prev (length bs)])"
  have "whileM (\<lambda>i. ret (i < int (length bs)))
      (write_block qarr (int (length qs)) buffer (int (length bs)) (prev + 1) 0) 0 s' = Inl Diverges"
    if "wr_frame s s'" "holding s' ?W" for s'
  proof (rule empty_blocks_diverge [OF that(2)])
    show "set qs \<subseteq> dom ?W" using h(2) by auto
  qed (use n writer_ready_frame [OF r that(1)] in simp_all)
  then have loop: "bnd (whileM (\<lambda>i. ret (i < int (length bs)))
      (write_block qarr (int (length qs)) buffer (int (length bs)) (prev + 1) 0) 0)
      (\<lambda>_. ret (prev + 1)) s' = Inl Diverges"
    if "wr_frame s s'" "holding s' ?W" for s'
    using that by (simp add: bnd_def)
  show ?thesis
    unfolding multiplex_write_queues_def size option.case seq_def
    by (rule bnd_stops, simp only: wp, intro conjI tag, rule bnd_stops,
        rule runs_to_mono [OF write_init_block_law [OF h r keeps_True le0]]) (use loop in blast)
qed

section \<open>Properties\<close>

text \<open>A process with two empty queues at addresses 1 and 2, the array of them and three bytes.\<close>

definition demo_writer :: mem where
  "demo_writer = mem0\<lparr>next_addr := 4,
     queues := [1 \<mapsto> \<lparr>q_head = NULL, q_tail = NULL, q_mutex = False, q_wrt = 1\<rparr>,
                2 \<mapsto> \<lparr>q_head = NULL, q_tail = NULL, q_mutex = False, q_wrt = 1\<rparr>],
     ptr_arrays := [3 \<mapsto> [1, 2]], chars := [4 \<mapsto> map Some [104, 105, 33]]\<rparr>"

lemma demo_writer_chars:
  assumes "below c 4"
  shows "holding (demo_writer\<lparr>chars := c\<rparr>) [1 \<mapsto> [], 2 \<mapsto> []]"
proof -
  let ?s = "demo_writer\<lparr>chars := c\<rparr>"
  have "q_inv ?s [1 \<mapsto> [], 2 \<mapsto> []]"
    by (auto simp: demo_writer_def mem0_def q_inv_def structs_def struct_at_def queue_rec_def
        disjoint_chains_def owned_def below_def split: if_splits)
  then have "q_fifo ?s [1 \<mapsto> [], 2 \<mapsto> []]"
    unfolding q_fifo_def
    by (intro conjI exI [of _ "[1 \<mapsto> [], 2 \<mapsto> []]"]) (auto simp: demo_writer_def mem0_def)
  then show ?thesis
    unfolding holding_def using assms
    by (intro exI [of _ "[1 \<mapsto> [], 2 \<mapsto> []]"])
      (auto simp: sendable_def separate_def wire_def locked_def demo_writer_def fun_eq_iff)
qed

lemma demo_writer_holding: "holding demo_writer [1 \<mapsto> [], 2 \<mapsto> []]"
  using demo_writer_chars [of "chars demo_writer"] by (simp add: demo_writer_def below_def)

lemma demo_writer_ready:
  "writer_ready demo_writer 3 [1, 2] 4 (map Some [104, 105, 33])"
  "writer_ready demo_writer 3 [1, 2] 4 (map Some [104])"
  by (simp_all add: writer_ready_def demo_writer_def)

text \<open>C6. \<open>multiplex_write_queues\<close> on a buffer of at least as many bytes as there are queues
  returns the next tag, having chosen a block size between 1 and \<open>BLOCK_SIZE\<close> and queued the
  \<open>init_block\<close> and the pieces of the buffer, each behind its header, in the planned order; it
  changes nothing but the queues and fresh memory.\<close>

theorem buffer_is_split:
  assumes "holding s W" and "set qs \<subseteq> dom W" and "writer_ready s qarr qs buffer bs"
    and "length qs \<le> length bs" and "length qs < 2 ^ 24" and "length bs + 16384 < 2 ^ 31"
    and "in_int (prev + 1)"
  shows "\<exists>u. choose_unif_size (int (length bs)) (int (length qs)) = Some (int u) \<and> 0 < u \<and>
    int u \<le> BLOCK_SIZE \<and>
    runs_to (multiplex_write_queues qarr (int (length qs)) buffer (int (length bs)) prev) s
      (\<lambda>tag s'. tag = prev + 1 \<and> wr_frame s s' \<and> holding s' (deliver (plan qs u (prev + 1) prev bs) W))"
proof -
  have "qs \<noteq> []" using assms(3) by (simp add: writer_ready_def)
  then obtain i where i: "choose_unif_size (int (length bs)) (int (length qs)) = Some i" "0 < i"
      "i \<le> BLOCK_SIZE"
    using choose_unif_size_law [of "int (length qs)" "int (length bs)"] assms(4-6) by auto
  then have u: "choose_unif_size (int (length bs)) (int (length qs)) = Some (int (nat i))" "0 < nat i"
      "nat i \<le> 16384" by (simp_all add: BLOCK_SIZE_def)
  have "0 < nat i" "int (nat i) \<le> BLOCK_SIZE" using i(2,3) by simp_all
  with u(1) multiplex_write_queues_law [OF assms(1-3) u(1) _ u(3) assms(6,7) keeps_True le0] show ?thesis by blast
qed

lemma buffer_is_split_witness:
  "\<exists>u. 0 < u \<and> runs_to (multiplex_write_queues 3 2 4 3 (-1)) demo_writer (\<lambda>tag s'. tag = 0 \<and>
     holding s' (deliver (plan [1, 2] u 0 (-1) (map Some [104, 105, 33])) [1 \<mapsto> [], 2 \<mapsto> []]))"
proof -
  from buffer_is_split [OF demo_writer_holding _ demo_writer_ready(1), of "-1"]
  obtain u where "0 < u" and "runs_to (multiplex_write_queues 3 2 4 3 (-1)) demo_writer (\<lambda>tag s'. tag = 0 \<and>
     wr_frame demo_writer s' \<and>
     holding s' (deliver (plan [1, 2] u 0 (-1) (map Some [104, 105, 33])) [1 \<mapsto> [], 2 \<mapsto> []]))"
    by (auto simp: in_int_def)
  then show ?thesis by (auto elim: runs_to_mono)
qed

text \<open>C32. A buffer of fewer bytes than there are queues, but not empty: the block size is rounded to
  zero, and the function queues empty data blocks for ever.\<close>

theorem short_buffer_diverges:
  assumes "holding s W" and "set qs \<subseteq> dom W" and "writer_ready s qarr qs buffer bs"
    and "bs \<noteq> []" and "length bs < length qs" and "length qs < 2 ^ 24" and "in_int (prev + 1)"
  shows "multiplex_write_queues qarr (int (length qs)) buffer (int (length bs)) prev s = Inl Diverges"
  using assms by (rule multiplex_write_queues_diverges)

lemma short_buffer_diverges_witness:
  "multiplex_write_queues 3 2 4 1 (-1) demo_writer = Inl Diverges"
  using short_buffer_diverges [OF demo_writer_holding _ demo_writer_ready(2), of "-1"]
  by (simp add: in_int_def)

lemma chunks_offsets: "p \<in> set (chunks u off bs) \<Longrightarrow> \<exists>k. fst p = off + k * u"
proof (induction u off bs rule: chunks.induct)
  case (1 u off bs)
  show ?case
  proof (cases "bs = [] \<or> u = 0")
    case False
    with "1.prems" have "p = (off, take u bs) \<or> p \<in> set (chunks u (off + u) (drop u bs))"
      by (subst (asm) chunks.simps) simp
    then consider "p = (off, take u bs)" | "p \<in> set (chunks u (off + u) (drop u bs))" by blast
    then show ?thesis
    proof cases
      case 1
      then show ?thesis by (intro exI [of _ 0]) simp
    next
      case 2
      with "1.IH" [OF False] obtain k where "fst p = off + u + k * u" by blast
      then show ?thesis by (intro exI [of _ "Suc k"]) simp
    qed
  qed (use "1.prems" in \<open>auto simp: chunks.simps\<close>)
qed

lemma block_quotient_exact:
  assumes "0 \<le> l" "l < 2 ^ 24" "0 < n" "0 < k" "k * n < 2 ^ 24" "n < 2 ^ 24" and "l = m * (k * n)" "m < 2 ^ 24" "0 \<le> m"
  shows "block_quotient l n (of_int k) = of_int m"
proof -
  have "0 \<le> k * n" using assms(3,4) by simp
  then have kn: "fl (of_int k * of_int n) = of_int (k * n)" using assms(5) fl_int [of "k * n"] by simp
  have "of_int l / of_int (k * n) = (of_int m :: rat)" using assms(3,4,7) by simp
  with kn have "fl (of_int l / fl (of_int k * of_int n)) = of_int m"
    using assms(8,9) by (simp add: fl_int del: of_int_mult)
  then show ?thesis using assms(1-3,6) by (simp add: block_quotient_def fl_int)
qed

lemma while_option_steps:
  "b s \<Longrightarrow> c s = s' \<Longrightarrow> while_option b c s' = r \<Longrightarrow> while_option b c s = r"
  "\<not> b s \<Longrightarrow> while_option b c s = Some s"
  by (subst while_option_unfold, simp)+

lemma client_block_size: "choose_unif_size 210000 2 = Some 15000"
proof -
  have "block_quotient 210000 2 (of_int 1) = of_int 105000"
    "block_quotient 210000 2 (of_int 2) = of_int 52500"
    "block_quotient 210000 2 (of_int 3) = of_int 35000"
    "block_quotient 210000 2 (of_int 4) = of_int 26250"
    "block_quotient 210000 2 (of_int 5) = of_int 21000"
    "block_quotient 210000 2 (of_int 6) = of_int 17500"
    "block_quotient 210000 2 (of_int 7) = of_int 15000"
    by (rule block_quotient_exact; simp)+
  then have q: "block_quotient 210000 2 1 = 105000"
    "block_quotient 210000 2 2 = 52500"
    "block_quotient 210000 2 3 = 35000"
    "block_quotient 210000 2 4 = 26250"
    "block_quotient 210000 2 5 = 21000"
    "block_quotient 210000 2 6 = 17500"
    "block_quotient 210000 2 7 = 15000"
    by (simp_all only: of_int_numeral of_int_1)
  have "fl (of_int 2) = of_int 2" "fl (of_int 3) = of_int 3" "fl (of_int 4) = of_int 4" "fl (of_int 5) = of_int 5" "fl (of_int 6) = of_int 6" "fl (of_int 7) = of_int 7"
    by (rule fl_int; simp)+
  then have f: "fl 2 = 2" "fl 3 = 3" "fl 4 = 4" "fl 5 = 5" "fl 6 = 6" "fl 7 = 7"
    by (simp_all only: of_int_numeral)
  have "while_option (\<lambda>d. of_int BLOCK_SIZE < block_quotient 210000 2 d) (\<lambda>d. fl (d + 1)) 1 = Some 7"
    apply (rule while_option_steps(1) [of _ _ _ 2], simp add: q BLOCK_SIZE_def, simp add: f)
    apply (rule while_option_steps(1) [of _ _ _ 3], simp add: q BLOCK_SIZE_def, simp add: f)
    apply (rule while_option_steps(1) [of _ _ _ 4], simp add: q BLOCK_SIZE_def, simp add: f)
    apply (rule while_option_steps(1) [of _ _ _ 5], simp add: q BLOCK_SIZE_def, simp add: f)
    apply (rule while_option_steps(1) [of _ _ _ 6], simp add: q BLOCK_SIZE_def, simp add: f)
    apply (rule while_option_steps(1) [of _ _ _ 7], simp add: q BLOCK_SIZE_def, simp add: f)
    apply (rule while_option_steps(2), simp add: q BLOCK_SIZE_def)
    done
  then show ?thesis
    by (simp add: choose_unif_size_def q truncate_int_def)
qed

lemma deliver_one_queue:
  "W q = Some xs \<Longrightarrow> deliver (map (\<lambda>p. (q, f p)) ps) W = W(q \<mapsto> xs @ map f ps)"
  by (induction ps arbitrary: W xs) (simp_all add: fun_upd_idem)

text \<open>C33. When the block size is a multiple of the number of queues, the load is not spread: every data
  block goes to the first queue, the last one gets the \<open>init_block\<close>, and all others get nothing. The
  client's buffer of 210000 bytes over two connections is such a case, with blocks of 15000 bytes.\<close>

theorem data_on_first_queue:
  assumes "holding s W" and "set qs \<subseteq> dom W" and "writer_ready s qarr qs buffer bs"
    and "distinct qs" and "1 < length qs" and "length qs \<le> length bs" and "length qs < 2 ^ 24"
    and "length bs + 16384 < 2 ^ 31" and "in_int (prev + 1)"
    and "choose_unif_size (int (length bs)) (int (length qs)) = Some (int u)" and "length qs dvd u"
  shows "runs_to (multiplex_write_queues qarr (int (length qs)) buffer (int (length bs)) prev) s
    (\<lambda>tag s'. tag = prev + 1 \<and> wr_frame s s' \<and> holding s' (W(
       last qs \<mapsto> the (W (last qs)) @ [init_bytes tag prev (length bs)],
       hd qs \<mapsto> the (W (hd qs)) @ map (data_bytes tag) (chunks u 0 bs))))"
proof -
  have "qs \<noteq> []" using assms(5) by auto
  then have qs: "qs \<noteq> []" "hd qs = qs ! 0" "last qs = qs ! (length qs - 1)"
    by (simp_all add: hd_conv_nth last_conv_nth)
  then have ne: "hd qs \<noteq> last qs" using assms(4,5) by (simp add: nth_eq_iff_index_eq)
  have u: "0 < u" "u \<le> 16384"
    using choose_unif_size_law [of "int (length qs)" "int (length bs)"] assms(5-8,10) qs(1) by (auto simp: BLOCK_SIZE_def)
  obtain xs where xs: "W (hd qs) = Some xs" using assms(2) qs(1) by (metis domD hd_in_set subsetD)
  have "fst p mod length qs = 0" if "p \<in> set (chunks u 0 bs)" for p
    using chunks_offsets [OF that] assms(11) by auto
  then have "data_plan qs tag (chunks u 0 bs) = map (\<lambda>p. (hd qs, data_bytes tag p)) (chunks u 0 bs)" for tag
    by (simp add: data_plan_def qs(2))
  then have d: "deliver (plan qs u tag prev bs) W = W(last qs \<mapsto> the (W (last qs)) @ [init_bytes tag prev (length bs)],
      hd qs \<mapsto> the (W (hd qs)) @ map (data_bytes tag) (chunks u 0 bs))" for tag
    using xs ne by (simp add: plan_def deliver_one_queue)
  show ?thesis
    by (rule runs_to_mono [OF multiplex_write_queues_law [OF assms(1-3) assms(10) _ u(2) assms(8,9) keeps_True le0]])
      (use u(1) d in auto)
qed

lemma data_on_first_queue_witness:
  "runs_to (multiplex_write_queues 3 2 4 210000 (-1)) (demo_writer\<lparr>chars := [4 \<mapsto> replicate 210000 (Some 65)]\<rparr>)
    (\<lambda>tag s'. holding s' [1 \<mapsto> map (data_bytes 0) (chunks 15000 0 (replicate 210000 (Some 65))),
       2 \<mapsto> [init_bytes 0 (-1) 210000]])"
proof -
  let ?bs = "replicate 210000 (Some (65 :: 8 word))" let ?s = "demo_writer\<lparr>chars := [4 \<mapsto> ?bs]\<rparr>"
  have h: "holding ?s [1 \<mapsto> [], 2 \<mapsto> []]" by (rule demo_writer_chars) simp
  have r: "writer_ready ?s 3 [1, 2] 4 ?bs" by (simp add: writer_ready_def demo_writer_def)
  let ?W = "[1 \<mapsto> [], 2 \<mapsto> []] :: addr \<rightharpoonup> 8 word option list list"
  have "runs_to (multiplex_write_queues 3 (int (length [1 :: addr, 2])) 4 (int (length ?bs)) (-1)) ?s (\<lambda>tag s'. tag = -1 + 1 \<and>
      wr_frame ?s s' \<and> holding s' (?W(
        last [1, 2] \<mapsto> the (?W (last [1, 2])) @ [init_bytes tag (-1) (length ?bs)],
        hd [1, 2] \<mapsto> the (?W (hd [1, 2])) @ map (data_bytes tag) (chunks 15000 0 ?bs))))"
    by (rule data_on_first_queue [OF h _ r]) (simp_all add: client_block_size in_int_def, presburger?)
  moreover have "int (length [1 :: addr, 2]) = 2" "int (length ?bs) = 210000" by simp_all
  ultimately show ?thesis by (auto simp: fun_upd_twist elim!: runs_to_mono)
qed

end
