(* ===== verification/Delivery.thy ===== *)
theory Delivery
  imports AbstractReader WriterSpec
begin

text \<open>
  The order of delivery: whatever order the blocks of a series of buffers arrive in, the abstract
  reader hands the buffers over complete, each once, in the order of their tags.
\<close>

section \<open>The blocks of a series of buffers\<close>

text \<open>
  Buffer number \<open>k\<close> has tag \<open>k\<close> and depends on the one before; \<open>u k\<close> is the size that it
  is cut into. A block is the \<open>init_block\<close> of a buffer or a piece of it.
\<close>

datatype block_id = Init nat | Piece nat "nat \<times> 8 word option list"

definition stream_ok :: "8 word option list list \<Rightarrow> (nat \<Rightarrow> nat) \<Rightarrow> bool" where
  "stream_ok bufs u \<longleftrightarrow> length bufs \<le> 768 \<and>
     (\<forall>k < length bufs. bufs ! k \<noteq> [] \<and> length (bufs ! k) + 16384 < 2 ^ 31 \<and> 0 < u k)"

definition pieces_of :: "8 word option list list \<Rightarrow> (nat \<Rightarrow> nat) \<Rightarrow> nat \<Rightarrow> (nat \<times> 8 word option list) list" where
  "pieces_of bufs u k = chunks (u k) 0 (bufs ! k)"

definition prev_word :: "nat \<Rightarrow> 32 word" where
  "prev_word k = word_of_int (int k - 1)"

fun block_of :: "8 word option list list \<Rightarrow> (nat \<Rightarrow> 8 word option list) \<Rightarrow> block_id \<Rightarrow> 8 word option list" where
  "block_of bufs pad (Init k) =
     init_block_bytes \<lparr>ib_block_size = 24, ib_flag = -1, ib_buffer_size = of_nat (length (bufs ! k)),
       ib_tag = of_nat k, ib_prev_tag = prev_word k, ib_last_block = False\<rparr> @ pad k"
| "block_of bufs pad (Piece k p) = data_bytes (int k) p"

definition all_blocks :: "8 word option list list \<Rightarrow> (nat \<Rightarrow> nat) \<Rightarrow> block_id set" where
  "all_blocks bufs u = (\<Union>k < length bufs. {Init k} \<union> Piece k ` set (pieces_of bufs u k))"

section \<open>What the reader holds\<close>

text \<open>
  After the \<open>init_block\<close>s of the buffers \<open>I\<close> and the pieces \<open>P k\<close> of each buffer \<open>k\<close>, in this
  order: the complete buffers, the entry of a buffer that has not been delivered, and the state,
  when \<open>m\<close> buffers have been delivered. The last delivered buffer keeps an entry, so that its
  successor finds that it has been sent.
\<close>

definition complete :: "8 word option list list \<Rightarrow> (nat \<Rightarrow> nat) \<Rightarrow> nat set \<Rightarrow>
    (nat \<Rightarrow> (nat \<times> 8 word option list) list) \<Rightarrow> nat \<Rightarrow> bool" where
  "complete bufs u I P k \<longleftrightarrow> k < length bufs \<and> k \<in> I \<and> set (pieces_of bufs u k) \<subseteq> set (P k)"

definition present :: "8 word option list list \<Rightarrow> (nat \<Rightarrow> nat) \<Rightarrow> nat set \<Rightarrow>
    (nat \<Rightarrow> (nat \<times> 8 word option list) list) \<Rightarrow> nat \<Rightarrow> bool" where
  "present bufs u I P k \<longleftrightarrow> k \<in> I \<or> P k \<noteq> [] \<or> complete bufs u I P (Suc k)"

definition total :: "(nat \<times> 8 word option list) list \<Rightarrow> nat" where
  "total ps = sum_list (map (\<lambda>p. length (snd p)) ps)"

definition entry_of :: "8 word option list list \<Rightarrow> (nat \<Rightarrow> nat) \<Rightarrow> nat set \<Rightarrow>
    (nat \<Rightarrow> (nat \<times> 8 word option list) list) \<Rightarrow> nat \<Rightarrow> entry" where
  "entry_of bufs u I P k =
     \<lparr>en_valid = k \<in> I,
      en_data = if k \<in> I then assemble (P k) (replicate (length (bufs ! k)) None) else [],
      en_written = if k \<in> I then of_nat (total (P k)) else 0,
      en_prev = if k \<in> I then prev_word k else 0,
      en_next = if complete bufs u I P (Suc k) then of_nat (Suc k) else -1,
      en_last = False, en_done = complete bufs u I P k, en_sent = False,
      en_waiting = if k \<in> I then [] else map (data_bytes (int k)) (P k)\<rparr>"

definition tracks :: "8 word option list list \<Rightarrow> (nat \<Rightarrow> nat) \<Rightarrow> nat set \<Rightarrow>
    (nat \<Rightarrow> (nat \<times> 8 word option list) list) \<Rightarrow> nat \<Rightarrow> areader \<Rightarrow> bool" where
  "tracks bufs u I P m st \<longleftrightarrow>
     (\<forall>j < m. complete bufs u I P j) \<and> \<not> complete bufs u I P m \<and>
     (\<forall>k. distinct (P k) \<and> (k < length bufs \<longrightarrow> set (P k) \<subseteq> set (pieces_of bufs u k)) \<and>
        (length bufs \<le> k \<longrightarrow> P k = [])) \<and>
     out st = take m bufs \<and>
     (\<forall>w. tab st w \<noteq> None \<longrightarrow> unat w < length bufs) \<and>
     (\<forall>k < length bufs. m \<le> k \<longrightarrow>
        tab st (of_nat k) = (if present bufs u I P k then Some (entry_of bufs u I P k) else None)) \<and>
     (\<forall>k. Suc k < m \<longrightarrow> tab st (of_nat k) = None) \<and>
     (\<forall>k. Suc k = m \<longrightarrow> (\<exists>z. tab st (of_nat k) = Some z \<and> en_sent z))"

section \<open>Facts on blocks\<close>

lemma stream_okD:
  assumes "stream_ok bufs u" and "k < length bufs"
  shows "bufs ! k \<noteq> []" "length (bufs ! k) + 16384 < 2 ^ 31" "0 < u k" "k < 2 ^ 31" "k < 768"
  using assms by (auto simp: stream_ok_def)

lemma unat_tag: "k < 2 ^ 31 \<Longrightarrow> unat (of_nat k :: 32 word) = k"
  by (rule unat_of_nat32) simp

lemma tag_eq_iff: "j < 2 ^ 31 \<Longrightarrow> k < 2 ^ 31 \<Longrightarrow> (of_nat j :: 32 word) = of_nat k \<longleftrightarrow> j = k"
  by (metis unat_tag)

lemma tag_ok_tag: "k < 768 \<Longrightarrow> tag_ok (of_nat k)"
  by (simp add: tag_ok_def unat_tag)

lemma tag_not_minus_one: "k < 2 ^ 31 \<Longrightarrow> (of_nat k :: 32 word) \<noteq> -1"
proof
  assume k: "k < 2 ^ 31" and "(of_nat k :: 32 word) = -1"
  then have "unat (of_nat k :: 32 word) = unat (-1 :: 32 word)" by (simp only:)
  with k show False by (simp add: unat_tag unsigned_minus_1_eq_mask mask_eq_exp_minus_1)
qed

lemma prev_word_simps:
  "prev_word 0 = -1" "prev_word (Suc k) = of_nat k"
  by (simp_all add: prev_word_def)

lemma total_simps [simp]:
  "total [] = 0" "total (p # ps) = length (snd p) + total ps" "total (ps @ qs) = total ps + total qs"
  by (simp_all add: total_def)

lemma total_pieces_of:
  assumes "stream_ok bufs u" and "k < length bufs"
  shows "total (pieces_of bufs u k) = length (bufs ! k)"
  using chunks_total stream_okD(3) [OF assms] by (simp add: total_def pieces_of_def)

lemma pieces_of_piece:
  assumes "p \<in> set (pieces_of bufs u k)"
  shows "piece (bufs ! k) p"
  using assms chunks_pieces [of p "u k" 0 "bufs ! k"] by (simp add: pieces_of_def)

text \<open>Distinct pieces of a buffer are all of them exactly when their sizes add up.\<close>

lemma total_distinct: "distinct ps \<Longrightarrow> total ps = (\<Sum>p \<in> set ps. length (snd p))"
  unfolding total_def by (rule sum_list_distinct_conv_sum_set)

lemma distinct_chunks: "distinct (chunks u off bs) \<and> (\<forall>p \<in> set (chunks u off bs). off \<le> fst p)"
proof (induction u off bs rule: chunks.induct)
  case (1 u off bs)
  show ?case
  proof (cases "bs = [] \<or> u = 0")
    case False
    with 1 [OF False] show ?thesis by (auto simp: chunks_step)
  qed (auto simp: chunks.simps)
qed

lemma distinct_pieces_of: "distinct (pieces_of bufs u k)"
  using distinct_chunks [of "u k" 0] by (simp add: pieces_of_def)

lemma total_le:
  assumes "stream_ok bufs u" and "k < length bufs" and "distinct ps" and "set ps \<subseteq> set (pieces_of bufs u k)"
  shows "total ps \<le> length (bufs ! k)"
  unfolding total_pieces_of [OF assms(1,2), symmetric] total_distinct [OF assms(3)]
    total_distinct [OF distinct_pieces_of]
  by (rule sum_mono2) (use assms(4) in auto)

lemma total_complete_iff:
  assumes "stream_ok bufs u" and "k < length bufs" and "distinct ps" and "set ps \<subseteq> set (pieces_of bufs u k)"
  shows "total ps = length (bufs ! k) \<longleftrightarrow> set (pieces_of bufs u k) \<subseteq> set ps"
proof
  assume "set (pieces_of bufs u k) \<subseteq> set ps"
  with assms(4) have "set ps = set (pieces_of bufs u k)" by simp
  then show "total ps = length (bufs ! k)"
    by (simp add: total_distinct [OF assms(3)] total_pieces_of [OF assms(1,2), symmetric]
        total_distinct [OF distinct_pieces_of])
next
  assume eq: "total ps = length (bufs ! k)"
  show "set (pieces_of bufs u k) \<subseteq> set ps"
  proof
    fix p assume p: "p \<in> set (pieces_of bufs u k)"
    show "p \<in> set ps"
    proof (rule ccontr)
      assume "p \<notin> set ps"
      with p have "(\<Sum>p \<in> set ps. length (snd p)) < (\<Sum>p \<in> set (pieces_of bufs u k). length (snd p))"
        using pieces_of_piece [OF p] assms(4)
        by (intro sum_strict_mono2 [of _ _ p]) (auto simp: piece_def)
      with eq show False
        by (simp add: total_distinct [OF assms(3)] total_pieces_of [OF assms(1,2), symmetric]
            total_distinct [OF distinct_pieces_of])
    qed
  qed
qed

text \<open>The data of a complete buffer is the buffer.\<close>

lemma complete_data:
  assumes "stream_ok bufs u" and "complete bufs u I P k" and "set (P k) \<subseteq> set (pieces_of bufs u k)"
  shows "assemble (P k) (replicate (length (bufs ! k)) None) = bufs ! k"
proof -
  have k: "k < length bufs" and "set (P k) = set (chunks (u k) 0 (bufs ! k))"
    using assms(2,3) by (auto simp: complete_def pieces_of_def)
  then show ?thesis by (intro assemble_chunks [OF stream_okD(3) [OF assms(1) k]]) simp_all
qed

lemma eq_tag: "k < 2 ^ 31 \<Longrightarrow> (x :: 32 word) = of_nat k \<longleftrightarrow> unat x = k"
proof
  assume "k < 2 ^ 31" and "unat x = k"
  then show "x = of_nat k" by (metis unat_tag word_unat_eq_iff)
qed (simp add: unat_tag)

section \<open>The cascade of deliveries\<close>

lemma entry_of_simps [simp]:
  "en_valid (entry_of bufs u I P k) = (k \<in> I)"
  "en_sent (entry_of bufs u I P k) = False"
  "en_done (entry_of bufs u I P k) = complete bufs u I P k"
  "en_last (entry_of bufs u I P k) = False"
  "en_next (entry_of bufs u I P k) = (if complete bufs u I P (Suc k) then of_nat (Suc k) else -1)"
  "en_waiting (entry_of bufs u I P k) = (if k \<in> I then [] else map (data_bytes (int k)) (P k))"
  "k \<in> I \<Longrightarrow> en_data (entry_of bufs u I P k) = assemble (P k) (replicate (length (bufs ! k)) None)"
  "k \<in> I \<Longrightarrow> en_written (entry_of bufs u I P k) = of_nat (total (P k))"
  "k \<in> I \<Longrightarrow> en_prev (entry_of bufs u I P k) = prev_word k"
  by (simp_all add: entry_of_def)

lemma completeD: "complete bufs u I P k \<Longrightarrow> k < length bufs" "complete bufs u I P k \<Longrightarrow> k \<in> I"
  by (simp_all add: complete_def)

text \<open>
  From buffer \<open>k\<close> on, the complete buffers up to \<open>m\<close> are delivered; the entries in between go
  away, and the last one stays as sent.
\<close>

lemma a_next_cascade:
  assumes ok: "stream_ok bufs u" and P: "\<And>j. j < length bufs \<Longrightarrow> set (P j) \<subseteq> set (pieces_of bufs u j)"
    and all: "\<forall>j. k \<le> j \<longrightarrow> j < m \<longrightarrow> complete bufs u I P j" and stop: "\<not> complete bufs u I P m"
    and "k < m"
    and tab: "\<forall>j. k \<le> j \<longrightarrow> j < m \<longrightarrow> tab st (of_nat j) = Some (entry_of bufs u I P j)"
    and none: "tab st (-1) = None" and fuel: "m - k \<le> f"
  shows "\<exists>z. en_sent z \<and> a_next f (of_nat k) st = Some (st\<lparr>tab := \<lambda>w.
      if k \<le> unat w \<and> Suc (unat w) < m then None else if Suc (unat w) = m then Some z else tab st w,
    out := out st @ drop k (take m bufs)\<rparr>)"
  using \<open>k < m\<close> all tab none fuel
proof (induction "m - k" arbitrary: k st f rule: less_induct)
  case less
  let ?e = "entry_of bufs u I P k"
  have k: "complete bufs u I P k" "k < length bufs" "k \<in> I" and e: "tab st (of_nat k) = Some ?e"
    using less.prems by (auto dest: completeD)
  have k31: "k < 2 ^ 31" using stream_okD(4) [OF ok k(2)] .
  have data: "en_data ?e = bufs ! k"
    using complete_data [OF ok k(1) P [OF k(2)]] k(3) by simp
  obtain g where f: "f = Suc g" using less.prems(1,5) by (cases f) auto
  have "complete bufs u I P (m - 1)" using less.prems(1,2) by simp
  from completeD(1) [OF this] have m: "m \<le> length bufs" by simp
  have take: "drop k (take m bufs) = bufs ! k # drop (Suc k) (take m bufs)"
    using less.prems(1) m by (simp add: Cons_nth_drop_Suc [symmetric])
  show ?case
  proof (cases "Suc k = m")
    case True
    with stop have n: "en_next ?e = -1" by simp
    have fe: "(\<lambda>w. if k \<le> unat w \<and> Suc (unat w) < m then None else if Suc (unat w) = m
        then Some (?e\<lparr>en_sent := True\<rparr>) else tab st w) = (tab st)(of_nat k \<mapsto> ?e\<lparr>en_sent := True\<rparr>)"
      using True k31 by (auto simp: fun_eq_iff eq_tag)
    have "drop k (take m bufs) = [bufs ! k]" using take True by simp
    then show ?thesis
      using True k(3) e n data less.prems(4) tag_not_minus_one [OF k31]
      by (intro exI [of _ "?e\<lparr>en_sent := True\<rparr>"]) (simp add: f fe Let_def del: entry_of_simps(5))
  next
    case False
    with less.prems(1) have lt: "Suc k < m" by simp
    then have k': "complete bufs u I P (Suc k)" using less.prems(2) by simp
    then have k31': "Suc k < 2 ^ 31" using stream_okD(4) [OF ok] completeD(1) by blast
    let ?st = "put_entry (of_nat k) (?e\<lparr>en_sent := True\<rparr>) (st\<lparr>out := out st @ [bufs ! k]\<rparr>)"
    have ne: "(of_nat (Suc k) :: 32 word) \<noteq> of_nat k" "(of_nat j :: 32 word) = of_nat k \<longleftrightarrow> j = k"
      if "j < m" for j
      using k31 k31' tag_eq_iff [of "Suc k" k] tag_eq_iff [of j k] that m ok by (simp_all add: stream_ok_def)
    have "tab ?st (-1) = None" using less.prems(4) tag_not_minus_one [OF k31] by simp
    have "m - Suc k < m - k" using lt by simp
    then have "\<exists>z. en_sent z \<and> a_next g (of_nat (Suc k)) ?st = Some (?st\<lparr>tab := \<lambda>w.
        if Suc k \<le> unat w \<and> Suc (unat w) < m then None else if Suc (unat w) = m then Some z else tab ?st w,
      out := out ?st @ drop (Suc k) (take m bufs)\<rparr>)"
      by (rule less.hyps [OF _ lt]) (use less.prems(2-5) f ne \<open>tab ?st (-1) = None\<close> in \<open>simp_all del: of_nat_Suc\<close>)
    then obtain z where z: "en_sent z" "a_next g (of_nat (Suc k)) ?st = Some (?st\<lparr>tab := \<lambda>w.
        if Suc k \<le> unat w \<and> Suc (unat w) < m then None else if Suc (unat w) = m then Some z else tab ?st w,
      out := out ?st @ drop (Suc k) (take m bufs)\<rparr>)" by blast
    have fe: "(\<lambda>w. if k \<le> unat w \<and> Suc (unat w) < m then None else if Suc (unat w) = m
        then Some z else tab st w) = (\<lambda>w. if Suc k \<le> unat w \<and> Suc (unat w) < m then None
        else if Suc (unat w) = m then Some z else tab ?st w)(of_nat k := None)"
      using lt k31 by (auto simp: fun_eq_iff eq_tag)
    have "tab ?st (of_nat (Suc k)) = Some (entry_of bufs u I P (Suc k))"
      using less.prems(3) lt ne(1) [OF lt] by (simp del: of_nat_Suc)
    then show ?thesis
      using k(3) k' e data z take
      by (intro exI [of _ z]) (simp add: f fe Let_def del: of_nat_Suc)
  qed
qed

section \<open>One more block\<close>

lemma tracksD:
  assumes "tracks bufs u I P m st"
  shows "j < m \<Longrightarrow> complete bufs u I P j" and "\<not> complete bufs u I P m"
    and "distinct (P k)" and "k < length bufs \<Longrightarrow> set (P k) \<subseteq> set (pieces_of bufs u k)"
    and "length bufs \<le> k \<Longrightarrow> P k = []"
    and "out st = take m bufs" and "tab st w \<noteq> None \<Longrightarrow> unat w < length bufs"
    and "k < length bufs \<Longrightarrow> m \<le> k \<Longrightarrow>
      tab st (of_nat k) = (if present bufs u I P k then Some (entry_of bufs u I P k) else None)"
    and "Suc k < m \<Longrightarrow> tab st (of_nat k) = None"
    and "Suc k = m \<Longrightarrow> \<exists>z. tab st (of_nat k) = Some z \<and> en_sent z"
  using assms unfolding tracks_def by blast+

lemma tracks_le: "tracks bufs u I P m st \<Longrightarrow> m \<le> length bufs"
  by (metis completeD(1) leI less_irrefl tracksD(1))

lemma not_complete_ge: "tracks bufs u I P m st \<Longrightarrow> \<not> complete bufs u I P k \<Longrightarrow> m \<le> k"
  by (metis leI tracksD(1))

text \<open>An arrival that completes nothing changes one entry.\<close>

lemma tracks_put:
  assumes ok: "stream_ok bufs u" and t: "tracks bufs u I P m st"
    and same: "\<And>j. complete bufs u I' P' j = complete bufs u I P j"
    and k: "k < length bufs" "m \<le> k"
    and other: "\<And>j. j \<noteq> k \<Longrightarrow> (j \<in> I') = (j \<in> I) \<and> P' j = P j"
    and new: "present bufs u I' P' k" "distinct (P' k)" "set (P' k) \<subseteq> set (pieces_of bufs u k)"
  shows "tracks bufs u I' P' m (put_entry (of_nat k) (entry_of bufs u I' P' k) st)"
proof -
  note D = tracksD [OF t]
  have k31: "k < 2 ^ 31" and n: "length bufs < 2 ^ 31" using ok k(1) by (auto simp: stream_ok_def)
  have e: "entry_of bufs u I' P' j = entry_of bufs u I P j" "present bufs u I' P' j = present bufs u I P j"
    if "j \<noteq> k" for j
    using other [OF that] by (simp_all add: entry_of_def present_def same)
  have ne: "(of_nat j :: 32 word) \<noteq> of_nat k" if "j \<noteq> k" "j < length bufs" for j
    using that n k31 tag_eq_iff [of j k] by simp
  show ?thesis
    unfolding tracks_def
  proof (intro conjI allI impI)
    fix j assume j: "j < length bufs" "m \<le> j"
    show "tab (put_entry (of_nat k) (entry_of bufs u I' P' k) st) (of_nat j) =
        (if present bufs u I' P' j then Some (entry_of bufs u I' P' j) else None)"
      using new(1) D(8) [OF j] e [of j] ne [of j] j by (cases "j = k") simp_all
  next
    fix j assume j: "Suc j < m"
    with k(2) tracks_le [OF t] have "j \<noteq> k" "j < length bufs" by simp_all
    with D(9) [OF j] ne show "tab (put_entry (of_nat k) (entry_of bufs u I' P' k) st) (of_nat j) = None" by simp
  next
    fix j assume j: "Suc j = m"
    with k(2) tracks_le [OF t] have "j \<noteq> k" "j < length bufs" by simp_all
    with D(10) [OF j] ne
    show "\<exists>z. tab (put_entry (of_nat k) (entry_of bufs u I' P' k) st) (of_nat j) = Some z \<and> en_sent z" by simp
  next
    fix w assume "tab (put_entry (of_nat k) (entry_of bufs u I' P' k) st) w \<noteq> None"
    then show "unat w < length bufs" using D(7) k(1) k31 by (auto simp: unat_tag split: if_splits)
  next
    fix j show "distinct (P' j)" using other new(2) D(3) by (cases "j = k") simp_all
  next
    fix j assume "j < length bufs"
    then show "set (P' j) \<subseteq> set (pieces_of bufs u j)" using other new(3) D(4) by (cases "j = k") simp_all
  next
    fix j assume "length bufs \<le> j"
    then show "P' j = []" using other k(1) D(5) by (cases "j = k") simp_all
  next
    show "out (put_entry (of_nat k) (entry_of bufs u I' P' k) st) = take m bufs" using D(6) by simp
  qed (use D(1,2) same in simp_all)
qed

text \<open>The completion of a buffer whose predecessor has not been delivered.\<close>

lemma tracks_complete_early:
  assumes ok: "stream_ok bufs u" and t: "tracks bufs u I P m st"
    and P': "P' = P(k := ps)" "distinct ps" "set ps = set (pieces_of bufs u k)"
    and k: "k < length bufs" "k \<in> I" "m < k" "Suc i = k"
  shows "tracks bufs u I P' m (put_entry (of_nat i) (entry_of bufs u I P' i)
    (put_entry (of_nat k) (entry_of bufs u I P' k) st))" (is "tracks _ _ _ _ _ ?st")
proof -
  note D = tracksD [OF t]
  have n: "length bufs < 2 ^ 31" using ok by (simp add: stream_ok_def)
  have c: "complete bufs u I P' j = (j = k \<or> complete bufs u I P j)" for j
    using k P' by (auto simp: complete_def)
  have e: "entry_of bufs u I P' j = entry_of bufs u I P j" "present bufs u I P' j = present bufs u I P j"
    if "j \<noteq> k" "Suc j \<noteq> k" for j
  proof -
    have "P' j = P j" using that P'(1) by simp
    with that show "entry_of bufs u I P' j = entry_of bufs u I P j" "present bufs u I P' j = present bufs u I P j"
      by (simp_all add: entry_of_def present_def c)
  qed
  have pr: "present bufs u I P' k" "present bufs u I P' i" using k c by (auto simp: present_def)
  have ne: "(of_nat j :: 32 word) = of_nat l \<longleftrightarrow> j = l" if "j < length bufs" "l < length bufs" for l j
    using that n tag_eq_iff [of j l] by simp
  have k1: "i < length bufs" using k(1,4) by simp
  show ?thesis
    unfolding tracks_def
  proof (intro conjI allI impI)
    fix j assume j: "j < length bufs" "m \<le> j"
    show "tab ?st (of_nat j) = (if present bufs u I P' j then Some (entry_of bufs u I P' j) else None)"
      using pr D(8) [OF j] e [of j] ne [of j k] ne [of j i] j k k1
      by (cases "j = k"; cases "j = i") auto
  next
    fix j assume j: "Suc j < m"
    with k tracks_le [OF t] have "j \<noteq> k" "j \<noteq> i" "j < length bufs" by simp_all
    with D(9) [OF j] ne k k1 show "tab ?st (of_nat j) = None" by simp
  next
    fix j assume j: "Suc j = m"
    with k tracks_le [OF t] have "j \<noteq> k" "j \<noteq> i" "j < length bufs" by simp_all
    with D(10) [OF j] ne k k1 show "\<exists>z. tab ?st (of_nat j) = Some z \<and> en_sent z" by simp
  next
    fix w assume w: "tab ?st w \<noteq> None"
    show "unat w < length bufs"
      using w D(7) [of w] k k1 n unat_tag [of k] unat_tag [of i] by (auto split: if_splits)
  next
    show "out ?st = take m bufs" using D(6) by simp
  qed (use D(1-5) P' k c in auto)
qed

text \<open>The completion of the next buffer to deliver.\<close>

lemma tracks_complete_next:
  assumes ok: "stream_ok bufs u" and t: "tracks bufs u I P m st"
    and P': "P' = P(m := ps)" "distinct ps" "set ps = set (pieces_of bufs u m)"
    and m: "m < length bufs" "m \<in> I" and fuel: "length bufs \<le> f"
    and st: "out st' = out st" "tab st' = (\<lambda>w. if w = of_nat m then Some (entry_of bufs u I P' m)
      else if Suc (unat w) = m then None else tab st w)"
  shows "\<exists>st'' m'. a_next f (of_nat m) st' = Some st'' \<and> tracks bufs u I P' m' st''"
proof -
  note D = tracksD [OF t]
  have n: "length bufs < 2 ^ 31" using ok by (simp add: stream_ok_def)
  have c: "complete bufs u I P' j = (j = m \<or> complete bufs u I P j)" for j
    using m P' by (auto simp: complete_def)
  have e: "entry_of bufs u I P' j = entry_of bufs u I P j" "present bufs u I P' j = present bufs u I P j"
    if "m < j" for j
  proof -
    have "P' j = P j" using that P'(1) by simp
    with that show "entry_of bufs u I P' j = entry_of bufs u I P j" "present bufs u I P' j = present bufs u I P j"
      by (simp_all add: entry_of_def present_def c)
  qed
  define m' where "m' = (LEAST j. \<not> complete bufs u I P' j)"
  have "\<not> complete bufs u I P' (length bufs)" by (simp add: complete_def)
  then have stop: "\<not> complete bufs u I P' m'" unfolding m'_def by (rule LeastI)
  have all: "complete bufs u I P' j" if "j < m'" for j using that not_less_Least unfolding m'_def by blast
  have m': "m < m'" using stop c D(1) by (metis linorder_neqE_nat)
  have le: "m' \<le> length bufs" using all completeD(1) by (metis leI less_irrefl)
  have P: "set (P' j) \<subseteq> set (pieces_of bufs u j)" if "j < length bufs" for j
    using D(4) [OF that] P' by auto
  have tab: "tab st' (of_nat j) = Some (entry_of bufs u I P' j)" if "m \<le> j" "j < m'" for j
  proof (cases "j = m")
    case False
    with that have j: "m < j" "j < length bufs" "complete bufs u I P j" using le all [of j] c by auto
    then have "present bufs u I P j" by (auto simp: present_def dest: completeD)
    with D(8) [of j] j e(1) [of j] n tag_eq_iff [of j m] m show ?thesis
      by (simp add: st(2) unat_tag)
  qed (simp add: st(2))
  have "unat (-1 :: 32 word) = 2 ^ 32 - 1" by (simp add: unsigned_minus_1_eq_mask mask_eq_exp_minus_1)
  with D(7) [of "-1"] n m tag_not_minus_one [of m] have none: "tab st' (-1) = None"
    by (cases "tab st (-1)") (auto simp: st(2))
  have fuel': "m' - m \<le> f" using fuel le by linarith
  obtain z where z: "en_sent z" "a_next f (of_nat m) st' = Some (st'\<lparr>tab := \<lambda>w.
      if m \<le> unat w \<and> Suc (unat w) < m' then None else if Suc (unat w) = m' then Some z else tab st' w,
    out := out st' @ drop m (take m' bufs)\<rparr>)"
    using a_next_cascade [OF ok P _ stop m' _ none fuel'] all tab by auto
  have u: "unat (of_nat j :: 32 word) = j" if "j \<le> length bufs" for j using that n by (simp add: unat_tag)
  show ?thesis
  proof (intro exI conjI, rule z(2))
    let ?t = "st'\<lparr>tab := \<lambda>w. if m \<le> unat w \<and> Suc (unat w) < m' then None
      else if Suc (unat w) = m' then Some z else tab st' w, out := out st' @ drop m (take m' bufs)\<rparr>"
    show "tracks bufs u I P' m' ?t"
      unfolding tracks_def
    proof (intro conjI allI impI)
      fix j assume j: "j < length bufs" "m' \<le> j"
      with m' D(8) [of j] e [of j] u [of j] n m tag_eq_iff [of j m]
      show "tab ?t (of_nat j) = (if present bufs u I P' j then Some (entry_of bufs u I P' j) else None)"
        by (simp add: st(2))
    next
      fix j assume j: "Suc j < m'"
      with le have "j < length bufs" by simp
      with j m' u [of j] D(9) [of j] n m tag_eq_iff [of j m] show "tab ?t (of_nat j) = None"
        by (cases "m \<le> j") (auto simp: st(2))
    next
      fix j assume j: "Suc j = m'"
      with le u [of j] z(1) show "\<exists>z. tab ?t (of_nat j) = Some z \<and> en_sent z" by simp
    next
      fix w assume w: "tab ?t w \<noteq> None"
      show "unat w < length bufs"
        using w D(7) [of w] le m m' u [of m] by (auto simp: st(2) split: if_splits)
    next
      show "out ?t = take m' bufs"
        using D(6) m' st(1) by simp (metis append_take_drop_id less_imp_le min.absorb1 take_take)
    qed (use D(3-5) P' m all stop in auto)
  qed
qed

section \<open>Arrivals\<close>

lemma piece_sizes:
  assumes "stream_ok bufs u" and "k < length bufs" and "p \<in> set (pieces_of bufs u k)"
  shows "fst p + length (snd p) \<le> length (bufs ! k)" "fst p + length (snd p) + 16384 < 2 ^ 31" "snd p \<noteq> []"
  using pieces_of_piece [OF assms(3)] stream_okD(2) [OF assms(1,2)] by (simp_all add: piece_def)

lemma a_data_piece:
  assumes "fst p + length (snd p) + 16384 < 2 ^ 31" and "k < 768" and "0 < f"
  shows "a_data f (data_bytes (int k) p) st =
    (case tab st (of_nat k) of
       None \<Rightarrow> Some (put_entry (of_nat k) (dummy_entry (-1) [data_bytes (int k) p]) st)
     | Some e \<Rightarrow>
         if \<not> en_valid e then
           Some (put_entry (of_nat k) (e\<lparr>en_waiting := en_waiting e @ [data_bytes (int k) p]\<rparr>) st)
         else a_store f (of_nat k) (of_nat (fst p)) (snd p) e st)"
proof -
  have w: "word_at (data_bytes (int k) p) 0 = Some (of_nat (12 + length (snd p)))"
    "word_at (data_bytes (int k) p) 4 = Some (of_nat (fst p))"
    "word_at (data_bytes (int k) p) 8 = Some (of_nat k)"
    by (simp_all add: data_bytes_def data_block_fields)
  have len: "length (data_bytes (int k) p) = 12 + length (snd p)" "drop 12 (data_bytes (int k) p) = snd p"
    by (simp_all add: data_bytes_def)
  have "unat (of_nat (12 + length (snd p)) :: 32 word) = 12 + length (snd p)"
    using assms(1) by (intro unat_of_nat32) simp
  moreover have "(of_nat (fst p) :: 32 word) \<noteq> -1" using assms(1) by (intro tag_not_minus_one) simp
  ultimately show ?thesis
    unfolding a_data_def w len using assms(3) by (simp add: len tag_ok_tag [OF assms(2)])
qed

lemma complete_other: "j \<noteq> k \<Longrightarrow> complete bufs u I (P(k := ps)) j = complete bufs u I P j"
  by (simp add: complete_def)

lemma assemble_length:
  assumes "\<forall>p \<in> set ps. piece bs p" and "length b = length bs"
  shows "length (assemble ps b) = length bs"
  using assemble_nth [OF assms] by simp

text \<open>
  A piece arrives: its entry is the one of the longer sequence; when the piece completes the
  buffer, the buffer and its complete successors are delivered, or the predecessor learns of it.
\<close>

lemma piece_arrives:
  assumes ok: "stream_ok bufs u" and t: "tracks bufs u I P m st" and k: "k < length bufs"
    and p: "p \<in> set (pieces_of bufs u k)" "p \<notin> set (P k)" and fuel: "length bufs \<le> f"
  shows "\<exists>st' m'. a_data f (data_bytes (int k) p) st = Some st' \<and> tracks bufs u I (P(k := P k @ [p])) m' st'"
proof -
  note D = tracksD [OF t]
  let ?P = "P(k := P k @ [p])" let ?L = "length (bufs ! k)"
  have k31: "k < 2 ^ 31" "k < 768" using stream_okD(4,5) [OF ok k] .
  have f: "0 < f" using k fuel by simp
  note data = a_data_piece [OF piece_sizes(2) [OF ok k p(1)] k31(2) f, of st]
  have nc: "\<not> complete bufs u I P k" using p by (auto simp: complete_def)
  have mk: "m \<le> k" by (rule not_complete_ge [OF t nc])
  note tabk = D(8) [OF k mk]
  have new: "distinct (?P k)" "set (?P k) \<subseteq> set (pieces_of bufs u k)" using D(3,4) k p by auto
  show ?thesis
  proof (cases "k \<in> I")
    case False
    then have same: "complete bufs u I ?P j = complete bufs u I P j" for j
      by (cases "j = k") (simp_all add: complete_def)
    have st': "a_data f (data_bytes (int k) p) st = Some (put_entry (of_nat k) (entry_of bufs u I ?P k) st)"
    proof (cases "present bufs u I P k")
      case True
      then have "(entry_of bufs u I P k)\<lparr>en_waiting := en_waiting (entry_of bufs u I P k) @ [data_bytes (int k) p]\<rparr>
          = entry_of bufs u I ?P k"
        using False by (simp add: entry_of_def same)
      with True False show ?thesis unfolding data tabk by simp
    next
      case np: False
      then have pk: "P k = []" and sk: "\<not> complete bufs u I P (Suc k)" by (simp_all add: present_def)
      from sk have sk': "\<not> complete bufs u I ?P (Suc k)" by (simp only: same not_False_eq_True)
      from nc have nc': "\<not> complete bufs u I ?P k" by (simp only: same not_False_eq_True)
      have "?P k = [p]" by (simp add: pk)
      with False sk' nc' have "dummy_entry (-1) [data_bytes (int k) p] = entry_of bufs u I ?P k"
        unfolding entry_of_def dummy_entry_def by (simp del: fun_upd_apply)
      with np show ?thesis unfolding data tabk by simp
    qed
    have "tracks bufs u I ?P m (put_entry (of_nat k) (entry_of bufs u I ?P k) st)"
      by (rule tracks_put [OF ok t same k mk _ _ new]) (simp_all add: present_def)
    with st' show ?thesis by blast
  next
    case True
    then have pr: "tab st (of_nat k) = Some (entry_of bufs u I P k)" using tabk by (simp add: present_def)
    let ?e = "entry_of bufs u I P k"
    have off: "unat (of_nat (fst p) :: 32 word) = fst p"
      using piece_sizes(2) [OF ok k p(1)] by (intro unat_tag) simp
    have pieces: "\<forall>p \<in> set (P k). piece (bufs ! k) p" "\<forall>p \<in> set (P k @ [p]). piece (bufs ! k) p"
      using D(4) [OF k] pieces_of_piece p(1) by auto
    have len: "length (en_data ?e) = ?L" using assemble_length [OF pieces(1)] True by simp
    have fits: "\<not> length (en_data ?e) < unat (of_nat (fst p) :: 32 word) + length (snd p)"
      using piece_sizes(1) [OF ok k p(1)] unfolding off len by simp
    let ?e' = "?e\<lparr>en_data := splice (fst p) (snd p) (en_data ?e), en_written := en_written ?e + of_nat (length (snd p))\<rparr>"
    have e'[simp]: "en_data ?e' = assemble (P k @ [p]) (replicate ?L None)"
      "en_written ?e' = of_nat (total (P k @ [p]))" using True by (simp_all add: entry_of_def)
    have len': "length (en_data ?e') = ?L" using assemble_length [OF pieces(2), of "replicate ?L None"] unfolding e' by simp
    have tl: "total (P k @ [p]) \<le> ?L" using total_le [OF ok k new(1)] new(2) by simp
    have L: "?L < 2 ^ 31" using stream_okD(2) [OF ok k] by simp
    have eq: "(en_written ?e' = of_nat (length (en_data ?e'))) = complete bufs u I ?P k"
    proof -
      have "(en_written ?e' = of_nat (length (en_data ?e'))) = (total (P k @ [p]) = ?L)"
        unfolding len' unfolding e'(2) using tl L by (intro tag_eq_iff) simp_all
      also have "\<dots> = (set (pieces_of bufs u k) \<subseteq> set (P k @ [p]))"
        by (rule total_complete_iff [OF ok k]) (use new in simp_all)
      finally show ?thesis using True k by (simp add: complete_def)
    qed
    have step: "a_data f (data_bytes (int k) p) st =
        (if complete bufs u I ?P k then a_prev f (of_nat k) (put_entry (of_nat k) (?e'\<lparr>en_done := True\<rparr>) st)
         else Some (put_entry (of_nat k) ?e' st))"
      unfolding data pr option.case a_store_def Let_def using True fits eq by (simp add: off del: e')
    show ?thesis
    proof (cases "complete bufs u I ?P k")
      case False
      have same: "complete bufs u I ?P j = complete bufs u I P j" for j
        using False nc complete_other by (cases "j = k") simp_all
      have "?e' = entry_of bufs u I ?P k" using True by (simp add: entry_of_def same)
      moreover have "tracks bufs u I ?P m (put_entry (of_nat k) (entry_of bufs u I ?P k) st)"
        by (rule tracks_put [OF ok t same k mk _ _ new]) (simp_all add: present_def)
      ultimately show ?thesis using step False by auto
    next
      case done': True
      have ps: "set (P k @ [p]) = set (pieces_of bufs u k)" "distinct (P k @ [p])"
        using done' new by (auto simp: complete_def)
      have e'': "?e'\<lparr>en_done := True\<rparr> = entry_of bufs u I ?P k"
        using True done' complete_other [of "Suc k" k] by (simp add: entry_of_def)
      let ?st = "put_entry (of_nat k) (entry_of bufs u I ?P k) st"
      have step': "a_data f (data_bytes (int k) p) st = a_prev f (of_nat k) ?st"
        using step done' unfolding e'' by simp
      show ?thesis
      proof (cases k)
        case 0
        with mk have m0: "m = 0" by simp
        have "a_prev f (of_nat k) ?st = a_next f (of_nat m) ?st"
          using True 0 m0 by (simp add: a_prev_def prev_word_simps)
        moreover have "\<exists>st'' m'. a_next f (of_nat m) ?st = Some st'' \<and> tracks bufs u I ?P m' st''"
          by (rule tracks_complete_next [OF ok t, of _ "P k @ [p]"])
            (use 0 m0 ps k True fuel in \<open>simp_all add: fun_eq_iff\<close>)
        ultimately show ?thesis using step' by metis
      next
        case (Suc i)
        have i31: "i < 2 ^ 31" "i \<noteq> k" "i < length bufs" "i < 768" and ne: "(of_nat i :: 32 word) \<noteq> of_nat k"
          using Suc k k31 tag_eq_iff [of i k] by simp_all
        have pw: "en_prev (entry_of bufs u I ?P k) = of_nat i" using True Suc by (simp add: prev_word_simps del: of_nat_Suc)
        have prev: "a_prev f (of_nat k) ?st =
            (case tab st (of_nat i) of
               None \<Rightarrow> Some (put_entry (of_nat i) (dummy_entry (of_nat k) []) ?st)
             | Some z \<Rightarrow>
                 if \<not> en_sent z then Some (put_entry (of_nat i) (z\<lparr>en_next := of_nat k\<rparr>) ?st)
                 else a_next f (of_nat k) (drop_entry (of_nat i) ?st))"
          using tag_not_minus_one [OF i31(1)] tag_ok_tag [OF i31(4)] ne
          by (cases "tab st (of_nat i)") (simp_all add: a_prev_def pw)
        show ?thesis
        proof (cases "m = k")
          case True
          then obtain z where z: "tab st (of_nat i) = Some z" "en_sent z" using D(10) [of i] Suc by auto
          have "a_prev f (of_nat k) ?st = a_next f (of_nat m) (drop_entry (of_nat i) ?st)"
            using prev z True by simp
          moreover have "\<exists>st'' m'. a_next f (of_nat m) (drop_entry (of_nat i) ?st) = Some st'' \<and>
              tracks bufs u I ?P m' st''"
            by (rule tracks_complete_next [OF ok t, of _ "P k @ [p]"])
              (use True Suc ps k \<open>k \<in> I\<close> fuel ne eq_tag [OF i31(1)] unat_tag [OF k31(1)]
                in \<open>auto simp: fun_eq_iff simp del: of_nat_Suc\<close>)
          ultimately show ?thesis using step' by metis
        next
          case False
          with mk Suc have mi: "m \<le> i" "m < k" by simp_all
          have c: "complete bufs u I ?P k" by (rule done')
          have ci: "complete bufs u I ?P i = complete bufs u I P i" using i31(2) complete_other by blast
          have "a_prev f (of_nat k) ?st = Some (put_entry (of_nat i) (entry_of bufs u I ?P i) ?st)"
          proof (cases "present bufs u I P i")
            case True
            then have ti: "tab st (of_nat i) = Some (entry_of bufs u I P i)" using D(8) [OF i31(3) mi(1)] by simp
            have "(entry_of bufs u I P i)\<lparr>en_next := of_nat k\<rparr> = entry_of bufs u I ?P i"
              using c ci Suc i31(2) unfolding entry_of_def by (simp del: of_nat_Suc)
            then show ?thesis unfolding prev ti by simp
          next
            case np: False
            then have ti: "tab st (of_nat i) = None" using D(8) [OF i31(3) mi(1)] by simp
            have "\<not> complete bufs u I P i" "i \<notin> I" "P i = []" using np by (auto simp: present_def dest: completeD)
            then have "dummy_entry (of_nat k) [] = entry_of bufs u I ?P i"
              using c ci Suc i31(2) unfolding entry_of_def dummy_entry_def by (simp del: of_nat_Suc)
            then show ?thesis unfolding prev ti by simp
          qed
          moreover have "tracks bufs u I ?P m (put_entry (of_nat i) (entry_of bufs u I ?P i) ?st)"
            by (rule tracks_complete_early [OF ok t refl ps(2,1) k True mi(2)]) (use Suc in simp)
          ultimately show ?thesis using step' by metis
        qed
      qed
    qed
  qed
qed

lemma a_init_block:
  assumes "k < 768" and "length (bufs ! k) + 16384 < 2 ^ 31" and "0 < f"
  shows "a_init f (block_of bufs pad (Init k)) st =
    (case tab st (of_nat k) of
       None \<Rightarrow> Some (put_entry (of_nat k) \<lparr>en_valid = True, en_data = replicate (length (bufs ! k)) None,
         en_written = 0, en_prev = prev_word k, en_next = -1, en_last = False, en_done = False,
         en_sent = False, en_waiting = []\<rparr> st)
     | Some e \<Rightarrow>
         if en_valid e then None
         else a_drain f (en_waiting e) (put_entry (of_nat k) (e\<lparr>en_valid := True,
           en_data := replicate (length (bufs ! k)) None, en_prev := prev_word k, en_last := False,
           en_waiting := []\<rparr>) st))"
proof -
  let ?b = "block_of bufs pad (Init k)"
  have "word_at ?b 8 = Some (of_nat (length (bufs ! k)))" "word_at ?b 12 = Some (of_nat k)"
    "word_at ?b 16 = Some (prev_word k)" "initialised (take 1 (drop 20 ?b)) = Some [0]"
    unfolding block_of.simps init_block_fields by simp_all
  moreover have "unat (of_nat (length (bufs ! k)) :: 32 word) = length (bufs ! k)"
    using assms(2) by (intro unat_tag) simp
  ultimately show ?thesis
    by (cases "tab st (of_nat k)") (use assms(3) in \<open>simp_all add: a_init_def tag_ok_tag [OF assms(1)] del: block_of.simps\<close>)
qed

text \<open>The pieces that waited for the \<open>init_block\<close> are stored when it arrives.\<close>

lemma drain_arrives:
  assumes ok: "stream_ok bufs u" and k: "k < length bufs" and fuel: "length bufs \<le> f"
  shows "tracks bufs u I (P(k := ps)) m st \<Longrightarrow> distinct (ps @ qs) \<Longrightarrow> set qs \<subseteq> set (pieces_of bufs u k) \<Longrightarrow>
    \<exists>st' m'. a_drain (Suc f) (map (data_bytes (int k)) qs) st = Some st' \<and>
      tracks bufs u I (P(k := ps @ qs)) m' st'"
proof (induction qs arbitrary: ps m st)
  case (Cons q qs)
  have q: "q \<in> set (pieces_of bufs u k)" "q \<notin> set ((P(k := ps)) k)" using Cons.prems by simp_all
  from piece_arrives [OF ok Cons.prems(1) k q fuel] obtain st' m' where
    st': "a_data f (data_bytes (int k) q) st = Some st'" "tracks bufs u I (P(k := ps @ [q])) m' st'"
    by (auto simp: fun_upd_same fun_upd_upd simp del: fun_upd_apply)
  from Cons.IH [OF st'(2)] Cons.prems(2,3) st'(1) show ?case by simp
qed auto

lemma init_arrives:
  assumes ok: "stream_ok bufs u" and t: "tracks bufs u I P m st" and k: "k < length bufs" "k \<notin> I"
    and fuel: "length bufs \<le> f"
  shows "\<exists>st' m'. a_init (Suc f) (block_of bufs pad (Init k)) st = Some st' \<and> tracks bufs u (insert k I) P m' st'"
proof -
  note D = tracksD [OF t] and K = stream_okD [OF ok k(1)]
  note init = a_init_block [where bufs = bufs and pad = pad, OF K(5,2) zero_less_Suc [of f], of st]
  let ?I = "insert k I" let ?P = "P(k := [])"
  have nc: "\<not> complete bufs u I P k" using k by (simp add: complete_def)
  have mk: "m \<le> k" by (rule not_complete_ge [OF t nc])
  note tabk = D(8) [OF k(1) mk]
  have "pieces_of bufs u k \<noteq> []" using total_pieces_of [OF ok k(1)] K(1) by auto
  then have same: "complete bufs u ?I ?P j = complete bufs u I P j" for j
    using k by (cases "j = k") (simp_all add: complete_def)
  let ?st = "put_entry (of_nat k) (entry_of bufs u ?I ?P k) st"
  have t': "tracks bufs u ?I ?P m ?st"
    by (rule tracks_put [OF ok t same k(1) mk]) (simp_all add: present_def)
  have e: "entry_of bufs u ?I ?P k = \<lparr>en_valid = True, en_data = replicate (length (bufs ! k)) None,
      en_written = 0, en_prev = prev_word k, en_next = en_next (entry_of bufs u I P k), en_last = False,
      en_done = False, en_sent = False, en_waiting = []\<rparr>"
    using same [of "Suc k"] same [of k] nc unfolding entry_of_def by simp
  have "a_init (Suc f) (block_of bufs pad (Init k)) st = a_drain (Suc f) (map (data_bytes (int k)) (P k)) ?st"
  proof (cases "present bufs u I P k")
    case True
    then show ?thesis unfolding init tabk e using k nc by (simp add: entry_of_def)
  next
    case False
    then have "P k = []" "en_next (entry_of bufs u I P k) = -1" by (simp_all add: present_def entry_of_def)
    with False show ?thesis unfolding init tabk e by simp
  qed
  moreover have "\<exists>st' m'. a_drain (Suc f) (map (data_bytes (int k)) (P k)) ?st = Some st' \<and>
      tracks bufs u ?I (P(k := [] @ P k)) m' st'"
    by (rule drain_arrives [OF ok k(1) fuel t']) (use D(3,4) k in auto)
  ultimately show ?thesis by simp
qed

section \<open>Any order of arrival\<close>

definition inits :: "block_id list \<Rightarrow> nat set" where
  "inits bs = {k. Init k \<in> set bs}"

definition arrived :: "block_id list \<Rightarrow> nat \<Rightarrow> (nat \<times> 8 word option list) list" where
  "arrived bs k = concat (map (\<lambda>b. case b of Piece j p \<Rightarrow> if j = k then [p] else [] | Init j \<Rightarrow> []) bs)"

lemma inits_simps [simp]:
  "inits [] = {}" "inits (bs @ [Init k]) = insert k (inits bs)" "inits (bs @ [Piece k p]) = inits bs"
  by (auto simp: inits_def)

lemma arrived_simps [simp]:
  "arrived [] = (\<lambda>k. [])" "arrived (bs @ [Init k]) = arrived bs"
  "arrived (bs @ [Piece k p]) = (arrived bs)(k := arrived bs k @ [p])"
  by (auto simp: arrived_def fun_eq_iff)

lemma arrived_mem: "p \<in> set (arrived bs k) \<longleftrightarrow> Piece k p \<in> set bs"
  by (cases p, induction bs) (auto simp: arrived_def split: block_id.splits)

lemma a_block_arrives:
  assumes ok: "stream_ok bufs u" and t: "tracks bufs u (inits bs) (arrived bs) m st"
    and b: "b \<in> all_blocks bufs u" "b \<notin> set bs" and fuel: "length bufs \<le> f"
  shows "\<exists>st' m'. a_block (Suc (Suc f)) (block_of bufs pad b) st = Some st' \<and>
    tracks bufs u (inits (bs @ [b])) (arrived (bs @ [b])) m' st'"
proof (cases b)
  case (Init k)
  with b have k: "k < length bufs" "k \<notin> inits bs" by (auto simp: all_blocks_def inits_def)
  have "word_at (block_of bufs pad b) 4 = Some (-1)" by (simp add: Init init_block_fields)
  then show ?thesis using init_arrives [OF ok t k fuel] by (simp add: Init a_block_def del: block_of.simps)
next
  case (Piece k p)
  with b have k: "k < length bufs" and p: "p \<in> set (pieces_of bufs u k)" "p \<notin> set (arrived bs k)"
    by (auto simp: all_blocks_def arrived_mem)
  have "word_at (block_of bufs pad b) 4 = Some (of_nat (fst p))" by (simp add: Piece data_bytes_def data_block_fields)
  moreover have "(of_nat (fst p) :: 32 word) \<noteq> -1"
    using piece_sizes(2) [OF ok k p(1)] by (intro tag_not_minus_one) simp
  moreover have "length bufs \<le> Suc f" using fuel by simp
  ultimately show ?thesis using piece_arrives [OF ok t k p] by (simp add: Piece a_block_def)
qed

lemma a_blocks_arrive:
  assumes ok: "stream_ok bufs u" and fuel: "length bufs \<le> f"
  shows "tracks bufs u (inits bs) (arrived bs) m st \<Longrightarrow> distinct (bs @ cs) \<Longrightarrow> set cs \<subseteq> all_blocks bufs u \<Longrightarrow>
    \<exists>st' m'. a_blocks (Suc (Suc f)) (map (block_of bufs pad) cs) st = Some st' \<and>
      tracks bufs u (inits (bs @ cs)) (arrived (bs @ cs)) m' st'"
proof (induction cs arbitrary: bs m st)
  case (Cons c cs)
  from Cons.prems have c: "c \<in> all_blocks bufs u" "c \<notin> set bs" by simp_all
  from a_block_arrives [OF ok Cons.prems(1) c fuel] obtain st' m' where
    st': "a_block (Suc (Suc f)) (block_of bufs pad c) st = Some st'"
      "tracks bufs u (inits (bs @ [c])) (arrived (bs @ [c])) m' st'" by blast
  from Cons.IH [OF st'(2)] Cons.prems(2,3) st'(1) show ?case by simp
qed auto

lemma tracks_empty: "tracks bufs u {} (\<lambda>k. []) 0 a_empty"
  by (auto simp: tracks_def a_empty_def complete_def present_def)

lemma all_complete:
  assumes t: "tracks bufs u (inits bs) (arrived bs) m st" and bs: "set bs = all_blocks bufs u"
  shows "out st = bufs"
proof -
  have "complete bufs u (inits bs) (arrived bs) k" if "k < length bufs" for k
    using that unfolding complete_def inits_def subset_iff arrived_mem bs all_blocks_def by blast
  with tracksD(2) [OF t] have "length bufs \<le> m" by (metis leI)
  with tracksD(6) [OF t] show ?thesis by simp
qed
end
