(* ===== verification/Handlers.thy ===== *)
theory Handlers
  imports ReaderBlocks Delivery
begin

text \<open>
  The functions that take finished buffers: \<open>send_buffer\<close> and \<open>bounce_buffer\<close> of server.c and
  \<open>save_buffer\<close> of client.c, and the contract of \<open>send_buffer\<close>. A file is opened for appending;
  \<open>fwrite\<close> is taken to write everything.
\<close>

section \<open>server.c and client.c\<close>

definition server_output :: string where
  "server_output = ''testout.dat''"

definition client_output :: string where
  "client_output = ''client_testout.dat''"

definition append_file :: "string \<Rightarrow> 8 word option list \<Rightarrow> (mem, unit) prog" where
  "append_file name bs = modifies (\<lambda>s. s\<lparr>files := (files s)(name := files s name @ bs)\<rparr>)"

definition send_buffer :: "addr \<Rightarrow> 32 word \<Rightarrow> (mem, unit) prog" where
  "send_buffer buffer buffer_len =
     bnd (gets fopen_fails) (\<lambda>fails.
     if fails then free_bytes buffer
     else
       bnd (read_bytes buffer 0 (unat buffer_len)) (\<lambda>bs.
       seq (append_file server_output bs)
           (free_bytes buffer)))"

text \<open>The client ends with its first buffer.\<close>

definition save_buffer :: "addr \<Rightarrow> 32 word \<Rightarrow> (mem, unit) prog" where
  "save_buffer buffer buffer_len =
     bnd (gets fopen_fails) (\<lambda>fails.
     if fails then free_bytes buffer
     else
       bnd (read_bytes buffer 0 (unat buffer_len)) (\<lambda>bs.
       seq (append_file client_output bs)
      (seq (free_bytes buffer)
           (halt (Exit 0)))))"

text \<open>
  \<open>arg\<close> holds the array of queues and their number. \<open>buffer_len\<close> is converted to \<open>int\<close>, and
  \<open>next_tag\<close> starts from -1 each time.
\<close>

definition bounce_buffer :: "addr \<Rightarrow> int \<Rightarrow> addr \<Rightarrow> 32 word \<Rightarrow> (mem, unit) prog" where
  "bounce_buffer qarr n_queues buffer buffer_len =
     bnd (multiplex_write_queues qarr n_queues buffer (sint buffer_len) (-1)) (\<lambda>_.
     free_bytes buffer)"

section \<open>The contract of \<open>send_buffer\<close>\<close>

lemma sendable_files: "sendable (s\<lparr>files := fs\<rparr>) F = sendable s F" "wire (s\<lparr>files := fs\<rparr>) F = wire s F"
  by (simp_all add: sendable_def q_fifo_def q_inv_def locked_def wire_def)

lemma sendable_free_bytes:
  assumes F: "sendable s F" and b: "unqueued F b"
  shows "sendable (s\<lparr>chars := (chars s)(b := None)\<rparr>) F"
proof -
  have "fst x \<noteq> b" if "F q = Some xs" "x \<in> set xs" for q xs x
    using b that unfolding unqueued_def by (metis imageI)
  then show ?thesis
    using sendable_cong [OF F, of "s\<lparr>chars := (chars s)(b := None)\<rparr>"] F by (simp add: sendable_def)
qed

definition written :: "string \<Rightarrow> 8 word option list \<Rightarrow> mem \<Rightarrow> queued \<Rightarrow> 8 word option list list \<Rightarrow> bool" where
  "written name old s F D \<longleftrightarrow> \<not> fopen_fails s \<and> files s name = old @ concat D"

interpretation send: net_handler send_buffer "\<lambda>_. False" "written server_output old" "\<lambda>_. True" for old
proof (unfold_locales, goal_cases)
  case (1 s F D bs b n)
  have cb: "below (chars s) (next_addr s)" using 1(1) by (simp add: sendable_def)
  let ?s = "s\<lparr>files := (files s)(server_output := files s server_output @ bs), chars := (chars s)(b := None)\<rparr>"
  have "runs_to (send_buffer b n) s (\<lambda>_ s'. s' = ?s)"
    using 1(2,4,6) below_nonnull [OF cb]
    by (auto simp: send_buffer_def written_def append_file_def free_bytes_def wp)
  then show ?case
  proof (rule runs_to_mono)
    fix x s' assume s': "s' = ?s"
    have "sendable (s\<lparr>files := (files s)(server_output := files s server_output @ bs)\<rparr>) F"
      using 1(1) by (simp add: sendable_files)
    from sendable_free_bytes [OF this 1(5)] have "sendable s' F" by (simp add: s')
    moreover have "written server_output old s' F (D @ [bs])" using 1(2) by (simp add: written_def s')
    ultimately show "\<exists>F'. handled (\<lambda>_. False) s F b s' F' \<and> written server_output old s' F' (D @ [bs])"
      by (intro exI [of _ F]) (simp add: handled_def s' ht_alike_def)
  qed
qed (simp_all add: written_def)

end
