(* ===== verification/Endpoints.thy ===== *)
theory Endpoints
  imports Host Handlers
begin

text \<open>
  client.c and server.c: the handshake over UDP, the choice of a port, the threads and tables of
  a connection, and the two main functions; and the start routines of the threads. A thread is
  started by recording its start routine and argument; \<open>run_thread\<close> is what it then does.
  Messages to the terminal are left out.
\<close>

section \<open>Threads\<close>

text \<open>multiplex_writer.c and multiplex_reader.c. The bytes of \<open>handler_arg\<close> are read when a
  handler is called; they do not change after the thread has been started.\<close>

definition multiplex_writer_init :: "addr \<Rightarrow> (host, unit) prog" where
  "multiplex_writer_init arg =
     bnd (load writer_inits arg) (\<lambda>w. lift (listen_for_blocks (wi_queue w) (wi_client_fd w)))"

definition call_handler :: "(addr \<rightharpoonup> bounce_buf_arg) \<Rightarrow> buffer_handler \<Rightarrow> addr \<Rightarrow>
    addr \<Rightarrow> 32 word \<Rightarrow> (mem, unit) prog" where
  "call_handler args h arg buffer buffer_len =
     (case h of
        Save_buffer \<Rightarrow> save_buffer buffer buffer_len
      | Send_buffer \<Rightarrow> send_buffer buffer buffer_len
      | Bounce_buffer \<Rightarrow>
          (case args arg of
             None \<Rightarrow> halt Undefined
           | Some b \<Rightarrow> bounce_buffer (bb_queues b) (bb_n_queues b) buffer buffer_len))"

definition multiplex_reader_init :: "nat \<Rightarrow> addr \<Rightarrow> (host, unit) prog" where
  "multiplex_reader_init fuel arg =
     bnd (load reader_inits arg) (\<lambda>r.
     bnd (gets bounce_args) (\<lambda>args.
     lift (listen_for_block fuel (call_handler args (ri_handler r) (ri_handler_arg r)) (ri_ht r) (ri_client_fd r))))"

section \<open>server.c\<close>

definition MAX_CONN :: int where
  "MAX_CONN = 5"

text \<open>\<open>INADDR_ANY\<close> is 0. The results are the socket and the address it is bound to.
  \<open>random_port\<close> is the choice of the port in the loop of \<open>bind_random_port\<close>.\<close>

definition random_port :: "(host, 16 word) prog" where
  "random_port = bnd sys_rand (\<lambda>r.
     let port_range = (65524 - 256 :: nat) in ret (of_nat (r mod port_range + 256)))"

definition bind_random_port :: "sock_type \<Rightarrow> (host, int \<times> sockaddr_in) prog" where
  "bind_random_port type =
     bnd sys_socket (\<lambda>sockfd.
     bnd (whileM (\<lambda>(r, servaddr). ret (r = -1))
            (\<lambda>_.
               bnd random_port (\<lambda>port.
               let servaddr = \<lparr>sin_addr = 0, sin_port = htons port\<rparr> in
               bnd (sys_bind type sockfd servaddr) (\<lambda>r. ret (r, servaddr))))
            (-1, \<lparr>sin_addr = 0, sin_port = 0\<rparr>)) (\<lambda>(r, servaddr).
     ret (sockfd, servaddr)))"

text \<open>
  \<open>serve_client\<close>: \<open>malloc\<close> gets room for more pointers than there are connections, since the
  size in the code is that of \<open>struct queue\<close>; a slot that has not been stored yet is taken for
  a null pointer; \<open>malloc\<close> of a negative size fails. The results of \<open>malloc\<close> and \<open>accept\<close> are not tested. \<open>serve_connection\<close> is
  the body of the loop.
\<close>

definition sizeof_queue :: nat where
  "sizeof_queue = 136"

definition serve_connection :: "addr \<Rightarrow> addr \<Rightarrow> addr \<Rightarrow> nat \<Rightarrow> (host, unit) prog" where
  "serve_connection ht qarr bounce_buffer_arg i =
     bnd sys_accept (\<lambda>client_fd.
     bnd (lift allocate_queue) (\<lambda>q.
     seq (lift (bnd (load ptr_arrays qarr) (\<lambda>xs.
            if i < length xs then store ptr_arrays ptr_arrays_update qarr (\<lambda>xs. xs[i := q])
            else halt Undefined)))
    (bnd (malloc_host writer_inits writer_inits_update \<lparr>wi_client_fd = 0, wi_queue = NULL\<rparr>) (\<lambda>w.
     seq (store writer_inits writer_inits_update w (\<lambda>_. \<lparr>wi_client_fd = client_fd, wi_queue = q\<rparr>))
    (seq (start_thread (Writer_thread w))
    (bnd (malloc_host reader_inits reader_inits_update
            \<lparr>ri_client_fd = 0, ri_ht = NULL, ri_handler = Bounce_buffer, ri_handler_arg = NULL\<rparr>) (\<lambda>r.
     seq (store reader_inits reader_inits_update r (\<lambda>_.
            \<lparr>ri_client_fd = client_fd, ri_ht = ht, ri_handler = Bounce_buffer, ri_handler_arg = bounce_buffer_arg\<rparr>))
         (start_thread (Reader_thread r)))))))))"

definition serve_client :: "addr \<Rightarrow> (host, unit) prog" where
  "serve_client arg =
     bnd (load client_infos arg) (\<lambda>init.
     bnd (lift (AllocateHashTable 256)) (\<lambda>ht.
     let n = sint (ci_num_conn init) in
     bnd (if n < 0 then ret NULL
          else lift (malloc_obj ptr_arrays ptr_arrays_update (replicate (nat n * sizeof_queue div 8) NULL))) (\<lambda>qarr.
     bnd (malloc_host bounce_args bounce_args_update \<lparr>bb_queues = NULL, bb_n_queues = 0\<rparr>) (\<lambda>b.
     seq (store bounce_args bounce_args_update b (\<lambda>_. \<lparr>bb_queues = qarr, bb_n_queues = n\<rparr>))
    (seq (modifies (\<lambda>s. s\<lparr>listening := listening s @ [(ci_sock_fd init, ci_sock_port init)]\<rparr>))
    (bnd (whileM (\<lambda>i. ret (int i < n)) (\<lambda>i. seq (serve_connection ht qarr b i) (ret (Suc i))) 0) (\<lambda>_.
     ret ())))))))"

text \<open>
  \<open>server_round\<close> is the body of the loop of the server's \<open>main\<close>; its early returns are the
  \<open>continue\<close>s. \<open>rec_size\<close> is compared as an unsigned number with \<open>sizeof(int)\<close>. The exit code
  is \<open>ENOMEM\<close>.
\<close>

definition server_round :: "int \<Rightarrow> (host, unit) prog" where
  "server_round main_sockfd =
     bnd (gets (\<lambda>s. map (junk s) [0..<4])) (\<lambda>uninit.
     bnd (malloc_host client_infos client_infos_update
            \<lparr>ci_num_conn = of_le32 uninit, ci_sock_fd = 0, ci_sock_port = 0\<rparr>) (\<lambda>arg.
     if arg = NULL then halt (Exit 12)
     else
       bnd (recieve_udp uninit \<lparr>sin_addr = 0, sin_port = 0\<rparr> main_sockfd 0) (\<lambda>(rec_size, bytes, client_addr).
       let num_conn = ntohl (of_le32 bytes) in
       seq (store client_infos client_infos_update arg (ci_num_conn_update (\<lambda>_. num_conn)))
      (if rec_size = 0 then ret ()
       else if (word_of_int rec_size :: 64 word) \<noteq> 4 \<or> sint num_conn > MAX_CONN \<or> sint num_conn < 0 then ret ()
       else
         bnd (bind_random_port SOCK_STREAM) (\<lambda>(sock_fd, tcp_servaddr).
         seq (store client_infos client_infos_update arg (\<lambda>c. c\<lparr>ci_sock_fd := sock_fd,
                ci_sock_port := uint (ntohs (sin_port tcp_servaddr))\<rparr>))
        (bnd (send_udp (le16 (sin_port tcp_servaddr)) client_addr main_sockfd) (\<lambda>_.
         start_thread (Serve_client arg))))))))"

definition server_main :: "string list \<Rightarrow> (host, unit) prog" where
  "server_main argv =
     (if length argv < 2 then halt (Exit 1)
      else
        seq (lift (modifies (\<lambda>s. s\<lparr>files := (files s)(server_output := [])\<rparr>)))
       (bnd (atoi (argv ! 1)) (\<lambda>first_port.
        bnd sys_socket (\<lambda>main_sockfd.
        bnd (sys_bind SOCK_DGRAM main_sockfd \<lparr>sin_addr = htonl 0, sin_port = htons (word_of_int first_port)\<rparr>) (\<lambda>_.
        bnd (whileM (\<lambda>_. ret True) (\<lambda>_. server_round main_sockfd) ()) (\<lambda>_. ret ()))))))"

section \<open>client.c\<close>

definition client_input :: string where
  "client_input = ''client_testin.dat''"

definition udp_handshake :: "string \<Rightarrow> 32 word \<Rightarrow> int \<Rightarrow> (host, 32 word) prog" where
  "udp_handshake serv_address udp_port num_conn =
     bnd (open_udp serv_address udp_port) (\<lambda>(servaddr, udp_fd).
     let net_order_num_conn = htonl (word_of_int num_conn) in
     bnd (send_udp (le32 net_order_num_conn) servaddr udp_fd) (\<lambda>_.
     bnd (gets (\<lambda>s. map (junk s) [0..<2])) (\<lambda>uninit.
     bnd (recieve_udp uninit servaddr udp_fd 3) (\<lambda>(rec_size, port, servaddr).
     if rec_size = -1 then halt (Exit 1)
     else ret (ucast (ntohs (of_le16 port)))))))"

text \<open>
  The buffer of \<open>test_writing\<close> is on the stack; the time of the start is taken before the
  blocks are queued.
\<close>

definition test_writing :: "addr \<Rightarrow> int \<Rightarrow> (host, unit) prog" where
  "test_writing qarr num_queues =
     bnd (gets (\<lambda>s. fopen_fails (image s))) (\<lambda>fails.
     if fails then ret ()
     else
       let buffer_size = 210000 in
       bnd (lift (local_obj chars chars_update (replicate buffer_size None))) (\<lambda>buffer.
       bnd (gets (\<lambda>s. take buffer_size (files (image s) client_input))) (\<lambda>bs.
       seq (lift (write_bytes buffer 0 bs))
      (seq set_time
      (bnd (lift (multiplex_write_queues qarr num_queues buffer (int (length bs)) (-1))) (\<lambda>_.
       lift (free_bytes buffer)))))))"

text \<open>
  \<open>client_connection\<close> is the body of the loop of the client's \<open>main\<close>; \<open>argv[i + 3]\<close> is the
  address of a network card. \<open>main\<close> ends after ten minutes, and with it all threads.
\<close>

definition client_connection :: "string \<Rightarrow> 32 word \<Rightarrow> string list \<Rightarrow> addr \<Rightarrow> addr \<Rightarrow> nat \<Rightarrow> (host, unit) prog" where
  "client_connection serv_address tcp_port argv ht qarr i =
     bnd (open_tcp serv_address tcp_port (Some (argv ! (i + 3)))) (\<lambda>(res, fd).
     if res = -1 then halt (Exit 1)
     else
       bnd (lift allocate_queue) (\<lambda>q.
       seq (lift (store ptr_arrays ptr_arrays_update qarr (\<lambda>xs. xs[i := q])))
      (bnd (malloc_host writer_inits writer_inits_update \<lparr>wi_client_fd = 0, wi_queue = NULL\<rparr>) (\<lambda>w.
       seq (store writer_inits writer_inits_update w (\<lambda>_. \<lparr>wi_client_fd = fd, wi_queue = q\<rparr>))
      (seq (start_thread (Writer_thread w))
      (bnd (malloc_host reader_inits reader_inits_update
              \<lparr>ri_client_fd = 0, ri_ht = NULL, ri_handler = Save_buffer, ri_handler_arg = NULL\<rparr>) (\<lambda>r.
       seq (store reader_inits reader_inits_update r (\<lambda>_.
              \<lparr>ri_client_fd = fd, ri_ht = ht, ri_handler = Save_buffer, ri_handler_arg = NULL\<rparr>))
           (start_thread (Reader_thread r)))))))))"

definition client_main :: "string list \<Rightarrow> (host, unit) prog" where
  "client_main argv =
     (if length argv < 4 then halt (Exit 1)
      else
        seq (lift (modifies (\<lambda>s. s\<lparr>files := (files s)(client_output := [])\<rparr>)))
       (bnd (atoi (argv ! 2)) (\<lambda>port.
        let serv_address = argv ! 1; num_conn = length argv - 3 in
        bnd (udp_handshake serv_address (word_of_int port) (int num_conn)) (\<lambda>tcp_port.
        bnd (lift (AllocateHashTable 256)) (\<lambda>ht.
        bnd (lift (local_obj ptr_arrays ptr_arrays_update (replicate num_conn NULL))) (\<lambda>qarr.
        bnd (whileM (\<lambda>i. ret (i < num_conn))
               (\<lambda>i. seq (client_connection serv_address tcp_port argv ht qarr i) (ret (Suc i))) 0) (\<lambda>_.
        test_writing qarr (int num_conn))))))))"

text \<open>What the threads do, on the process they were started in.\<close>

definition run_thread :: "nat \<Rightarrow> thread \<Rightarrow> (host, unit) prog" where
  "run_thread fuel t =
     (case t of
        Serve_client arg \<Rightarrow> serve_client arg
      | Writer_thread arg \<Rightarrow> multiplex_writer_init arg
      | Reader_thread arg \<Rightarrow> multiplex_reader_init fuel arg)"

end
