(* ===== verification/ReaderSpec.thy ===== *)
theory ReaderSpec
  imports Handlers
begin

text \<open>
  What the receiving side achieves: the reader threads take blocks from their connections in any
  order, and the handler gets the buffers in the order of their tags, each once and complete.
\<close>

section \<open>Turns of the reader threads\<close>

text \<open>
  Each turn is a round of the loop of \<open>listen_for_block\<close> by the thread of one connection; the
  list says whose turn it is.
\<close>

fun take_turns :: "nat \<Rightarrow> (addr \<Rightarrow> 32 word \<Rightarrow> (mem, unit) prog) \<Rightarrow> addr \<Rightarrow> int list \<Rightarrow> (mem, unit) prog" where
  "take_turns fuel handler ht [] = ret ()"
| "take_turns fuel handler ht (fd # fds) =
     bnd (listen_once fuel handler ht fd) (\<lambda>_. take_turns fuel handler ht fds)"

text \<open>The bytes that connection \<open>fd\<close> carries, when the turns \<open>fds\<close> bring the blocks \<open>blks\<close>.\<close>

fun carried :: "int \<Rightarrow> int list \<Rightarrow> 8 word list list \<Rightarrow> 8 word list" where
  "carried fd (k # fds) (blk # blks) = (if k = fd then blk @ carried fd fds blks else carried fd fds blks)"
| "carried fd _ _ = []"

definition framed :: "8 word list \<Rightarrow> bool" where
  "framed ws \<longleftrightarrow> 4 \<le> length ws \<and> unat (of_le32 (take 4 ws)) = length ws \<and> length ws \<le> 16396"

lemma a_blocks_out: "a_blocks f bs st = Some st' \<Longrightarrow> set (out st) \<subseteq> set (out st')"
proof (induction bs arbitrary: st)
  case (Cons blk bs)
  then obtain st1 where "a_block f blk st = Some st1" "a_blocks f bs st1 = Some st'" by (auto split: option.splits)
  then show ?case using Cons.IH a_block_out by blast
qed simp

context net_handler
begin

lemma take_turns_rep:
  assumes out: "set (out st') \<subseteq> {b. takes b}"
  shows "a_blocks f (map (map Some) blks) st = Some st' \<Longrightarrow> rep t {} None s F G st \<Longrightarrow>
    length fds = length blks \<Longrightarrow> \<forall>blk \<in> set blks. framed blk \<Longrightarrow>
    \<forall>fd \<in> set fds. clean s fd \<and> pending s fd = carried fd fds blks @ rest fd \<Longrightarrow>
    runs_to (take_turns f handler t fds) s (\<lambda>_ s'. \<exists>F' G'. rep t {} None s' F' G' st')"
proof (induction blks arbitrary: st s F G fds)
  case (Cons blk blks)
  obtain fd fds' where fds: "fds = fd # fds'" using Cons.prems(3) by (cases fds) auto
  from Cons.prems(1) obtain st1 where st1: "a_block f (map Some blk) st = Some st1"
    "a_blocks f (map (map Some) blks) st1 = Some st'" by (auto split: option.splits)
  have out1: "set (out st1) \<subseteq> {b. takes b}" using a_blocks_out [OF st1(2)] out by blast
  have net: "clean s fd" "pending s fd = blk @ carried fd fds' blks @ rest fd" using Cons.prems(5) fds by simp_all
  have fr: "4 \<le> length blk" "unat (of_le32 (take 4 blk)) = length blk" "length blk \<le> 16396"
    using Cons.prems(4) by (simp_all add: framed_def)
  show ?case
    unfolding fds take_turns.simps runs_to_bnd
  proof (rule runs_to_mono [OF listen_once_rep [OF st1(1) Cons.prems(2) out1 net fr]], elim exE conjE)
    fix go s1 F1 G1
    assume r1: "rep t {} None s1 F1 G1 st1" and fd: "pending s1 fd = carried fd fds' blks @ rest fd" "clean s1 fd"
      and other: "\<forall>k. k \<noteq> fd \<longrightarrow> net_in s1 k = net_in s k"
    have "clean s1 k \<and> pending s1 k = carried k fds' blks @ rest k" if k: "k \<in> set fds'" for k
    proof (cases "k = fd")
      case False
      with other have "net_in s1 k = net_in s k" by blast
      moreover from k have "k \<in> set fds" by (simp add: fds)
      ultimately show ?thesis using Cons.prems(5) False by (simp add: clean_def pending_def fds)
    qed (use fd in simp)
    with Cons.IH [OF st1(2) r1] Cons.prems(3,4)
    show "runs_to (take_turns f handler t fds') s1 (\<lambda>_ s'. \<exists>F' G'. rep t {} None s' F' G' st')"
      by (simp add: fds)
  qed
qed (auto simp: runs_to_ret)

end

section \<open>The blocks of a series of buffers on the wire\<close>

text \<open>
  The last three bytes of an \<open>init_block\<close> are padding, which the sender does not initialise.
  \<open>received bufs u ids k\<close>: all blocks of buffer \<open>k\<close> are among \<open>ids\<close>.
\<close>

definition received :: "8 word option list list \<Rightarrow> (nat \<Rightarrow> nat) \<Rightarrow> block_id list \<Rightarrow> nat \<Rightarrow> bool" where
  "received bufs u ids k \<longleftrightarrow> k < length bufs \<and> Init k \<in> set ids \<and>
     (\<forall>p \<in> set (pieces_of bufs u k). Piece k p \<in> set ids)"

lemma received_complete: "complete bufs u (inits ids) (arrived ids) k = received bufs u ids k"
  by (auto simp: complete_def received_def inits_def arrived_mem)

lemma block_framed:
  assumes ok: "stream_ok bufs u" and u: "\<forall>k < length bufs. u k \<le> 16384" and pad: "\<forall>k. length (pad k) = 3"
    and b: "b \<in> all_blocks bufs u" and ws: "map Some ws = block_of bufs pad b"
  shows "framed ws"
proof -
  have start: "of_le32 (take 4 ws) = sz" if "word_at (map Some ws) 0 = Some sz" "4 \<le> length ws" for sz
    using that by (simp add: word_at_def take_map)
  have len: "length ws = length (block_of bufs pad b)" using ws by (metis length_map)
  show ?thesis
  proof (cases b)
    case (Init k)
    then have "length ws = 24" using len pad by simp
    moreover have "word_at (map Some ws) 0 = Some 24" unfolding ws by (simp add: Init init_block_fields)
    ultimately show ?thesis using start by (simp add: framed_def)
  next
    case (Piece k p)
    with b have k: "k < length bufs" and p: "p \<in> set (pieces_of bufs u k)" by (auto simp: all_blocks_def)
    from p have "length (snd p) \<le> u k" using chunks_pieces [of p "u k" 0 "bufs ! k"] by (simp add: pieces_of_def)
    moreover have "u k \<le> 16384" using u k by simp
    ultimately have n: "length (snd p) \<le> 16384" by (rule order_trans)
    have l: "length ws = 12 + length (snd p)" using len Piece by (simp add: data_bytes_def)
    have "word_at (map Some ws) 0 = Some (of_nat (12 + length (snd p)))"
      unfolding ws by (simp add: Piece data_bytes_def data_block_fields)
    moreover have "unat (of_nat (12 + length (snd p)) :: 32 word) = 12 + length (snd p)"
      using n by (intro unat_of_nat32) simp
    ultimately show ?thesis using start l n by (simp add: framed_def)
  qed
qed

lemma blocks_deliver:
  assumes ok: "stream_ok bufs u" and ids: "distinct ids" "set ids \<subseteq> all_blocks bufs u" and f: "length bufs + 2 \<le> f"
  shows "\<exists>st m. a_blocks f (map (block_of bufs pad) ids) a_empty = Some st \<and> tracks bufs u (inits ids) (arrived ids) m st"
proof -
  let ?g = "f - 2"
  have g: "f = Suc (Suc ?g)" "length bufs \<le> ?g" using f by auto
  have "tracks bufs u (inits []) (arrived []) 0 a_empty" using tracks_empty by simp
  from a_blocks_arrive [OF ok g(2) this, of ids] ids show ?thesis by (subst g(1)) simp
qed


text \<open>The receiving side before the first block: an empty table of 256 buckets.\<close>

definition reader_ready :: "addr \<Rightarrow> mem \<Rightarrow> queued \<Rightarrow> bool" where
  "reader_ready t s F \<longleftrightarrow> ht_ok 256 t s Map.empty \<and> sendable s F \<and> below (infos s) (next_addr s)"

text \<open>
  \<open>on_the_wire\<close>: the turns \<open>fds\<close> bring the blocks \<open>ids\<close> of the buffers \<open>bufs\<close>, as the bytes \<open>blks\<close>.
\<close>

definition on_the_wire :: "8 word option list list \<Rightarrow> (nat \<Rightarrow> nat) \<Rightarrow> (nat \<Rightarrow> 8 word option list) \<Rightarrow>
    block_id list \<Rightarrow> 8 word list list \<Rightarrow> int list \<Rightarrow> mem \<Rightarrow> bool" where
  "on_the_wire bufs u pad ids blks fds s \<longleftrightarrow>
     stream_ok bufs u \<and> (\<forall>k < length bufs. u k \<le> 16384) \<and> (\<forall>k. length (pad k) = 3) \<and>
     distinct ids \<and> set ids \<subseteq> all_blocks bufs u \<and> map (map Some) blks = map (block_of bufs pad) ids \<and>
     length fds = length blks \<and> (\<forall>fd \<in> set fds. clean s fd \<and> pending s fd = carried fd fds blks)"

context net_handler
begin

lemma rep_start:
  assumes "reader_ready t s F" and "dlv s F []"
  shows "rep t {} None s F Map.empty a_empty"
proof -
  have "keyed Map.empty = Map.empty" by (simp add: keyed_def fun_eq_iff)
  with assms show ?thesis by (simp add: represents_def reader_ready_def a_empty_def)
qed

text \<open>After any distinct blocks, the handler has taken the buffers up to the first incomplete one.\<close>

lemma turns_deliver:
  assumes w: "on_the_wire bufs u pad ids blks fds s" and r: "reader_ready t s F" and d: "dlv s F []"
    and t: "\<forall>bs \<in> set bufs. takes bs" and f: "length bufs + 2 \<le> f"
  shows "\<exists>m \<le> length bufs. (\<forall>k < m. received bufs u ids k) \<and> \<not> received bufs u ids m \<and>
    runs_to (take_turns f handler t fds) s (\<lambda>_ s'. \<exists>F'. sendable s' F' \<and> dlv s' F' (take m bufs))"
proof -
  from w have ok: "stream_ok bufs u" and u: "\<forall>k < length bufs. u k \<le> 16384" and pad: "\<forall>k. length (pad k) = 3"
    and ids: "distinct ids" "set ids \<subseteq> all_blocks bufs u" and blks: "map (map Some) blks = map (block_of bufs pad) ids"
    and len: "length fds = length blks" and net: "\<forall>fd \<in> set fds. clean s fd \<and> pending s fd = carried fd fds blks"
    by (simp_all add: on_the_wire_def)
  from blocks_deliver [OF ok ids f] obtain st m where
    st: "a_blocks f (map (map Some) blks) a_empty = Some st" and tr: "tracks bufs u (inits ids) (arrived ids) m st"
    unfolding blks by metis
  note T = tracksD [OF tr, unfolded received_complete]
  have fr: "\<forall>blk \<in> set blks. framed blk"
  proof
    fix blk assume "blk \<in> set blks"
    then have "map Some blk \<in> set (map (map Some) blks)" by simp
    then obtain b where "b \<in> set ids" "map Some blk = block_of bufs pad b" unfolding blks by auto
    with block_framed [OF ok u pad] ids(2) show "framed blk" by blast
  qed
  have out: "set (out st) \<subseteq> {b. takes b}" using T(6) t by (auto dest: in_set_takeD)
  have net': "\<forall>fd \<in> set fds. clean s fd \<and> pending s fd = carried fd fds blks @ []" using net by simp
  have run: "runs_to (take_turns f handler t fds) s (\<lambda>_ s'. \<exists>F'. sendable s' F' \<and> dlv s' F' (take m bufs))"
    by (rule runs_to_mono [OF take_turns_rep [OF out st rep_start [OF r d] len fr net']])
      (use representsD(2,7) T(6) in metis)
  show ?thesis
    by (intro exI [of _ m] conjI tracks_le [OF tr] allI impI T(1,2) run)
qed

end


section \<open>From an empty table\<close>

text \<open>
  A well-formed memory: linked structures and queues are intact, \<open>malloc\<close> does not fail, and
  every object has an address that was handed out.
\<close>

definition well_formed :: "mem \<Rightarrow> queued \<Rightarrow> bool" where
  "well_formed s F \<longleftrightarrow> (\<exists>S. heap_ok s S) \<and> sendable s F \<and> below (infos s) (next_addr s)"

lemma allocate_ready:
  assumes "well_formed s F"
  shows "runs_to (AllocateHashTable 256) s (\<lambda>t s'. reader_ready t s' F \<and> wire s' F = wire s F \<and> net_in s' = net_in s \<and>
    files s' = files s \<and> fopen_fails s' = fopen_fails s \<and> (\<forall>a. chars s' a = chars s a))"
proof -
  from assms obtain S where S: "heap_ok s S" "sendable s F" "below (infos s) (next_addr s)" by (auto simp: well_formed_def)
  show ?thesis
  proof (rule runs_to_mono [OF AllocateHashTable_law [OF S(1)]], goal_cases)
    case (3 t s')
    then obtain H R P m where s': "s' = s\<lparr>next_addr := m, ht_recs := R, ptr_arrays := P, ll_lists := H\<rparr>"
      "next_addr s < m" "ht_ok 256 t s' Map.empty" by auto
    have "sendable s' F \<and> wire s' F = wire s F"
      by (rule sendable_cong [OF S(2)]) (use s'(1,2) S(2) in \<open>auto simp: sendable_def intro: below_mono\<close>)
    with s' S(3) show ?case by (auto simp: reader_ready_def intro: below_mono)
  qed (use sendable_oom [OF S(2)] in auto)
qed

lemma well_formed_mem0: "well_formed (mem0\<lparr>net_in := N\<rparr>) Map.empty"
proof -
  have "heap_ok (mem0\<lparr>net_in := N\<rparr>) Map.empty" by (simp add: heap_ok_def ll_inv_def mem0_def)
  moreover have "sendable (mem0\<lparr>net_in := N\<rparr>) Map.empty"
    by (auto simp: sendable_def q_fifo_def q_inv_def separate_def mem0_def intro!: exI [of _ Map.empty])
  ultimately show ?thesis by (auto simp: well_formed_def mem0_def)
qed

lemma on_the_wire_net:
  "net_in s' = net_in s \<Longrightarrow> on_the_wire bufs u pad ids blks fds s' = on_the_wire bufs u pad ids blks fds s"
  by (simp add: on_the_wire_def clean_def pending_def)

lemma send_turns:
  assumes wf: "well_formed s F" and w: "on_the_wire bufs u pad ids blks fds s" and o: "\<not> fopen_fails s"
    and f: "length bufs + 2 \<le> f"
  shows "\<exists>m \<le> length bufs. (\<forall>k < m. received bufs u ids k) \<and> \<not> received bufs u ids m \<and>
    runs_to (bnd (AllocateHashTable 256) (\<lambda>t. take_turns f send_buffer t fds)) s
      (\<lambda>_ s'. files s' server_output = files s server_output @ concat (take m bufs))"
proof -
  from runs_toE [OF allocate_ready [OF wf]] obtain t s1 where s1: "AllocateHashTable 256 s = Inr (t, s1)"
    "reader_ready t s1 F" "net_in s1 = net_in s" "files s1 = files s" "fopen_fails s1 = fopen_fails s" by blast
  have d: "written server_output (files s server_output) s1 F []" using o s1 by (simp add: written_def)
  from send.turns_deliver [OF w [folded on_the_wire_net [OF s1(3)]] s1(2) d _ f] obtain m where
    m: "m \<le> length bufs" "\<forall>k < m. received bufs u ids k" "\<not> received bufs u ids m"
      "runs_to (take_turns f send_buffer t fds) s1 (\<lambda>_ s'. \<exists>F'. sendable s' F' \<and> written server_output (files s server_output) s' F' (take m bufs))"
    by blast
  have "runs_to (bnd (AllocateHashTable 256) (\<lambda>t. take_turns f send_buffer t fds)) s
      (\<lambda>_ s'. files s' server_output = files s server_output @ concat (take m bufs))"
    unfolding runs_to_bnd runs_to_exact [of "AllocateHashTable 256" s, OF s1(1)]
    by (rule runs_to_mono [OF m(4)]) (auto simp: written_def)
  with m(1-3) show ?thesis by blast
qed

lemma send_turns_all:
  assumes "well_formed s F" and "on_the_wire bufs u pad ids blks fds s" and "\<not> fopen_fails s"
    and "length bufs + 2 \<le> f" and "set ids = all_blocks bufs u"
  shows "runs_to (bnd (AllocateHashTable 256) (\<lambda>t. take_turns f send_buffer t fds)) s
    (\<lambda>_ s'. files s' server_output = files s server_output @ concat bufs)"
proof -
  from send_turns [OF assms(1-4)] obtain m where m: "m \<le> length bufs" "\<not> received bufs u ids m"
      "runs_to (bnd (AllocateHashTable 256) (\<lambda>t. take_turns f send_buffer t fds)) s
        (\<lambda>_ s'. files s' server_output = files s server_output @ concat (take m bufs))" by blast
  have "received bufs u ids k" if "k < length bufs" for k
    using that by (auto simp: received_def assms(5) all_blocks_def)
  with m(1,2) have "m = length bufs" by (metis le_neq_implies_less)
  with m(3) show ?thesis by simp
qed

section \<open>Properties\<close>

text \<open>A buffer of two bytes: the data block arrives on connection 5, before the \<open>init_block\<close> on
  connection 6; both connections split what they carry.\<close>

definition demo_data :: "8 word list" where
  "demo_data = le32 14 @ le32 0 @ le32 0 @ [104, 105]"

definition demo_init :: "8 word list" where
  "demo_init = le32 24 @ le32 (-1) @ le32 2 @ le32 0 @ le32 (-1) @ [0, 7, 7, 7]"

definition demo_net :: mem where
  "demo_net = mem0\<lparr>net_in := (\<lambda>_. [])(5 := [Segment (take 6 demo_data), Segment (drop 6 demo_data)],
     6 := [Segment (take 1 demo_init), Segment (drop 1 demo_init)])\<rparr>"

lemma demo_on_the_wire:
  "on_the_wire [map Some [104, 105]] (\<lambda>_. 2) (\<lambda>_. [Some 7, Some 7, Some 7])
     [Piece 0 (0, map Some [104, 105]), Init 0] [demo_data, demo_init] [5, 6] demo_net"
proof -
  have "chunks 2 0 [Some 104, Some 105] = [(0, [Some (104 :: 8 word), Some 105])]"
    by (simp add: chunks.simps)
  then show ?thesis
    by (auto simp: on_the_wire_def stream_ok_def all_blocks_def pieces_of_def demo_net_def clean_def
        pending_def demo_data_def demo_init_def data_bytes_def data_block_bytes_def init_block_bytes_def
        prev_word_def le32_def)
qed

text \<open>C2. The blocks of a series of buffers, distributed over any number of connections and
  taken from them in any order of turns: when all have been handled, the handler \<open>send_buffer\<close> has
  appended the buffers to the file in the order of their tags, each once and complete. In
  particular the handling of a block never stops, whatever blocks it comes after.\<close>

theorem buffers_delivered_in_order:
  assumes "well_formed s F" and "on_the_wire bufs u pad ids blks fds s" and "\<not> fopen_fails s"
    and "length bufs + 2 \<le> f" and "set ids = all_blocks bufs u"
  shows "runs_to (bnd (AllocateHashTable 256) (\<lambda>t. take_turns f send_buffer t fds)) s
    (\<lambda>_ s'. files s' server_output = files s server_output @ concat bufs)"
  using assms by (rule send_turns_all)

lemma buffers_delivered_in_order_witness:
  "runs_to (bnd (AllocateHashTable 256) (\<lambda>t. take_turns 3 send_buffer t [5, 6])) demo_net
    (\<lambda>_ s'. files s' server_output = map Some [104, 105])"
proof -
  have "set [Piece 0 (0, map Some [104, 105]), Init 0] = all_blocks [map Some [104, 105 :: 8 word]] (\<lambda>_. 2)"
    by (auto simp: all_blocks_def pieces_of_def chunks.simps)
  from buffers_delivered_in_order [OF _ demo_on_the_wire _ _ this, of Map.empty 3] show ?thesis
    using well_formed_mem0 by (simp add: demo_net_def mem0_def)
qed

text \<open>C3. At every moment the handler has the buffers up to the first one that has not been
  received completely, and nothing else: no buffer is delivered early, late, twice or in part.\<close>

theorem delivered_up_to_first_gap:
  assumes "well_formed s F" and "on_the_wire bufs u pad ids blks fds s" and "\<not> fopen_fails s"
    and "length bufs + 2 \<le> f"
  shows "\<exists>m \<le> length bufs. (\<forall>k < m. received bufs u ids k) \<and> \<not> received bufs u ids m \<and>
    runs_to (bnd (AllocateHashTable 256) (\<lambda>t. take_turns f send_buffer t fds)) s
      (\<lambda>_ s'. files s' server_output = files s server_output @ concat (take m bufs))"
  using assms by (rule send_turns)

lemma delivered_up_to_first_gap_witness:
  "runs_to (bnd (AllocateHashTable 256) (\<lambda>t. take_turns 3 send_buffer t [5])) demo_net
    (\<lambda>_ s'. files s' server_output = [])"
proof -
  have w: "on_the_wire [map Some [104, 105]] (\<lambda>_. 2) (\<lambda>_. [Some 7, Some 7, Some 7])
      [Piece 0 (0, map Some [104, 105])] [demo_data] [5] demo_net"
    using demo_on_the_wire by (auto simp: on_the_wire_def)
  have wf: "well_formed demo_net Map.empty" unfolding demo_net_def by (rule well_formed_mem0)
  have fs: "\<not> fopen_fails demo_net" "files demo_net server_output = []" by (simp_all add: demo_net_def mem0_def)
  from delivered_up_to_first_gap [OF wf w fs(1), of 3] obtain m where
    m: "\<forall>k < m. received [map Some [104, 105 :: 8 word]] (\<lambda>_. 2) [Piece 0 (0, map Some [104, 105])] k"
      "runs_to (bnd (AllocateHashTable 256) (\<lambda>t. take_turns 3 send_buffer t [5])) demo_net
        (\<lambda>_ s'. files s' server_output = [] @ concat (take m [map Some [104, 105]]))"
    unfolding fs(2) by auto
  from m(1) have "m = 0" by (cases m) (auto simp: received_def)
  with m(2) show ?thesis by simp
qed
end
