(* ===== verification/Bounce.thy ===== *)
theory Bounce
  imports ReaderSpec
begin

text \<open>
  The server's handler \<open>bounce_buffer\<close>: it keeps the contract of a handler on its own queues, so
  the server queues every buffer again, in order.
\<close>

section \<open>The contract of \<open>bounce_buffer\<close>\<close>

text \<open>
  What \<open>multiplex_write_queues\<close> leaves of the queues: those that it does not write to are the
  same, and what it adds was allocated later.
\<close>

definition grown :: "addr list \<Rightarrow> nat \<Rightarrow> queued \<Rightarrow> queued \<Rightarrow> bool" where
  "grown qs n F F' \<longleftrightarrow> (\<forall>q. q \<notin> set qs \<longrightarrow> F' q = F q) \<and>
     (\<forall>q xs' y. F' q = Some xs' \<longrightarrow> y \<in> set xs' \<longrightarrow> n < fst y \<or> (\<exists>xs. F q = Some xs \<and> y \<in> set xs))"

lemma grown_keeps: "keeps (grown qs n F) n (set qs)"
  unfolding keeps_def grown_def by (auto split: if_splits)

lemma grown_unqueued: "grown qs n F F' \<Longrightarrow> a \<le> n \<Longrightarrow> unqueued F a \<Longrightarrow> unqueued F' a"
  unfolding grown_def unqueued_def by (metis (no_types, lifting) image_iff linorder_not_le)

text \<open>
  \<open>block_size_of\<close> is the size of the blocks that a buffer is cut into; \<open>bounced\<close> are the blocks
  of the buffers \<open>D\<close>, each with its queue: every buffer starts from tag 0 again.
\<close>

definition block_size_of :: "addr list \<Rightarrow> 8 word option list \<Rightarrow> nat" where
  "block_size_of qs bs = nat (the (choose_unif_size (int (length bs)) (int (length qs))))"

definition bounced :: "addr list \<Rightarrow> 8 word option list list \<Rightarrow> (addr \<times> 8 word option list) list" where
  "bounced qs D = concat (map (\<lambda>bs. plan qs (block_size_of qs bs) 0 (-1) bs) D)"

definition fits :: "addr list \<Rightarrow> 8 word option list \<Rightarrow> bool" where
  "fits qs bs \<longleftrightarrow> length qs \<le> length bs \<and> length bs + 16384 < 2 ^ 31"

definition echoed :: "addr \<Rightarrow> addr list \<Rightarrow> (addr \<rightharpoonup> 8 word option list list) \<Rightarrow>
    mem \<Rightarrow> queued \<Rightarrow> 8 word option list list \<Rightarrow> bool" where
  "echoed qarr qs W s F D \<longleftrightarrow> (\<exists>more. ptr_arrays s qarr = Some (qs @ more)) \<and> qs \<noteq> [] \<and> length qs < 2 ^ 24 \<and>
     set qs \<subseteq> dom F \<and> set qs \<subseteq> dom W \<and> (\<forall>q \<in> set qs. wire s F q = deliver (bounced qs D) W q)"

lemma deliver_local: "W q = W' q \<Longrightarrow> deliver ps W q = deliver ps W' q"
proof (induction ps arbitrary: W W')
  case (Cons p ps)
  show ?case unfolding deliver_simps by (rule Cons.IH) (use Cons.prems in auto)
qed simp

lemma bounce_law:
  assumes F: "sendable s F" and e: "echoed qarr qs W s F D" and fit: "fits qs bs"
    and b: "chars s b = Some bs" "unqueued F b" "unat n = length bs"
  shows "runs_to (bounce_buffer qarr (int (length qs)) b n) s (\<lambda>_ s'.
    \<exists>F'. handled (\<lambda>q. q \<in> set qs) s F b s' F' \<and> echoed qarr qs W s' F' (D @ [bs]))"
proof -
  let ?K = "grown qs (next_addr s) F" let ?u = "block_size_of qs bs"
  have h: "holding_with ?K s (wire s F)" using F by (auto simp: holding_with_def grown_def)
  from e have E: "\<exists>more. ptr_arrays s qarr = Some (qs @ more)" "qs \<noteq> []" "length qs < 2 ^ 24"
    "set qs \<subseteq> dom F" "set qs \<subseteq> dom W" "\<forall>q \<in> set qs. wire s F q = deliver (bounced qs D) W q"
    by (simp_all add: echoed_def)
  then have dom: "set qs \<subseteq> dom (wire s F)" and r: "writer_ready s qarr qs b bs"
    using b(1) by (auto simp: wire_def writer_ready_def)
  have len: "length qs \<le> length bs" "length bs + 16384 < 2 ^ 31" using fit by (simp_all add: fits_def)
  obtain i where i: "choose_unif_size (int (length bs)) (int (length qs)) = Some i" "0 < i" "i \<le> BLOCK_SIZE"
    using choose_unif_size_law [of "int (length qs)" "int (length bs)"] E(2,3) len by auto
  then have u: "choose_unif_size (int (length bs)) (int (length qs)) = Some (int ?u)" "0 < ?u" "?u \<le> 16384"
    by (simp_all add: block_size_of_def BLOCK_SIZE_def)
  have n: "sint n = int (length bs)" using sint_small [of n] b(3) len(2) by simp
  have ba: "b \<le> next_addr s" and cb: "below (chars s) (next_addr s)"
    using F b(1) below_bound [of "chars s" "next_addr s" b] by (auto simp: sendable_def)
  have wr: "runs_to (multiplex_write_queues qarr (int (length qs)) b (sint n) (-1)) s (\<lambda>tag s'. wr_frame s s' \<and>
      holding_with ?K s' (deliver (plan qs ?u 0 (-1) bs) (wire s F)))"
    by (rule runs_to_mono [OF multiplex_write_queues_law [OF h dom r u(1) _ u(3) len(2) _ grown_keeps order_refl,
          of "-1", folded n]]) (use u(2) in \<open>auto simp: in_int_def\<close>)
  show ?thesis
    unfolding bounce_buffer_def runs_to_bnd
  proof (rule runs_to_mono [OF wr], elim conjE)
    fix x s1 assume f: "wr_frame s s1" and h1: "holding_with ?K s1 (deliver (plan qs ?u 0 (-1) bs) (wire s F))"
    from h1 obtain F1 where F1: "sendable s1 F1" "deliver (plan qs ?u 0 (-1) bs) (wire s F) = wire s1 F1" "?K F1"
      by (auto simp: holding_with_def)
    let ?s = "s1\<lparr>chars := (chars s1)(b := None)\<rparr>"
    have c: "chars s1 b = Some bs" using wr_frameD(4) [OF f b(1)] .
    have uq: "unqueued F1 a" if "a \<le> next_addr s" "unqueued F a" for a
      using grown_unqueued [OF F1(3) that] .
    have al: "ht_alike s s1" using f by (rule wr_frame_alike)
    have same: "infos s1 = infos s" "net_in s1 = net_in s" "next_addr s \<le> next_addr s1" "ptr_arrays s1 = ptr_arrays s"
      using f unfolding wr_frame_def by (cases s; cases s1; simp)+
    have old: "chars s1 a = chars s a" if "a \<le> next_addr s" "chars s a \<noteq> None" for a
      using wr_frameD(4) [OF f, of a] that by auto
    have w: "wire ?s F1 = wire s1 F1"
    proof (rule sendable_cong [THEN conjunct2, OF F1(1)])
      fix q xs x assume "F1 q = Some xs" "x \<in> set xs"
      then have "fst x \<noteq> b" using uq [OF ba b(2)] unfolding unqueued_def by (metis imageI)
      then show "chars ?s (fst x) = chars s1 (fst x)" by simp
    qed (use F1(1) in \<open>simp_all add: sendable_def\<close>)
    have F2: "sendable ?s F1" by (rule sendable_free_bytes [OF F1(1) uq [OF ba b(2)]])
    have eq: "wire s1 F1 q = deliver (bounced qs (D @ [bs])) W q" if "q \<in> set qs" for q
    proof -
      have "deliver (plan qs ?u 0 (-1) bs) (wire s F) q = deliver (plan qs ?u 0 (-1) bs) (deliver (bounced qs D) W) q"
        by (rule deliver_local) (use E(6) that in blast)
      then show ?thesis by (simp add: F1(2) bounced_def deliver_append)
    qed
    have "set qs \<subseteq> dom (wire s1 F1)" using deliver_dom dom unfolding F1(2) [symmetric] by blast
    then have "echoed qarr qs W ?s F1 (D @ [bs])"
      unfolding echoed_def using E(1,2,3,5) eq w by (auto simp: same wire_def)
    moreover have "handled (\<lambda>q. q \<in> set qs) s F b ?s F1"
      unfolding handled_def using F2 al same old uq F1(3) by (auto simp: ht_alike_def grown_def)
    ultimately show "runs_to (free_bytes b) s1 (\<lambda>_ s'. \<exists>F'. handled (\<lambda>q. q \<in> set qs) s F b s' F' \<and>
        echoed qarr qs W s' F' (D @ [bs]))"
      using c below_nonnull [OF cb] b(1) by (auto simp: free_bytes_def wp)
  qed
qed

interpretation bounce: net_handler "bounce_buffer qarr (int (length qs))" "\<lambda>q. q \<in> set qs"
  "echoed qarr qs W" "fits qs" for qarr qs W
proof (unfold_locales, goal_cases)
  case (1 s F D bs b n)
  then show ?case by (rule bounce_law)
next
  case (2 s F D F' s')
  then show ?case unfolding echoed_def by (auto simp: dom_def subset_iff)
next
  case (4 s F D N)
  then show ?case unfolding echoed_def by (simp add: wire_def)
qed (auto simp: echoed_def)

section \<open>Other arrays\<close>

text \<open>A store to an array of pointers that is not the array of the table's buckets.\<close>

lemma ht_ok_array:
  assumes ok: "ht_ok nb t s M" and other: "\<And>r. ht_recs s t = Some r \<Longrightarrow> buckets r \<noteq> a"
    and m: "a \<noteq> NULL" "a \<le> m" "next_addr s \<le> m"
  shows "ht_ok nb t (s\<lparr>next_addr := m, ptr_arrays := (ptr_arrays s)(a \<mapsto> xs)\<rparr>) M"
  using ok
proof (rule ht_okE)
  fix S r bs L
  assume *: "heap_ok s S" "table s S t r bs L" "idle r" "length L = nb" "contents L = M"
    "num_elements r = of_nat (card (dom M))" "\<And>n. \<not> oom s n"
  let ?s = "s\<lparr>next_addr := m, ptr_arrays := (ptr_arrays s)(a \<mapsto> xs)\<rparr>"
  have h: "heap_ok (s\<lparr>next_addr := m\<rparr>) S" by (rule heap_ok_next_addr [OF *(1) m(3)])
  then have "heap_ok ?s S" using m(1,2) ll_inv_cong [of ?s "s\<lparr>next_addr := m\<rparr>"] by (simp add: heap_ok_def)
  moreover have "table ?s S t r bs L" using *(2) other by (simp add: table_def chain_at_def)
  ultimately show ?thesis using * unfolding ht_ok_def by auto
qed

lemma ht_ok_buckets: "ht_ok nb t s M \<Longrightarrow> ht_recs s t = Some r \<Longrightarrow> buckets r \<le> next_addr s"
  by (erule ht_okE) (auto simp: heap_ok_def table_def dest: below_bound)

lemma reader_ready_array:
  assumes "reader_ready t s F" and "\<And>r. ht_recs s t = Some r \<Longrightarrow> buckets r \<noteq> a"
    and m: "a \<noteq> NULL" "a \<le> m" "next_addr s \<le> m"
  shows "reader_ready t (s\<lparr>next_addr := m, ptr_arrays := (ptr_arrays s)(a \<mapsto> xs)\<rparr>) F \<and>
    wire (s\<lparr>next_addr := m, ptr_arrays := (ptr_arrays s)(a \<mapsto> xs)\<rparr>) F = wire s F"
proof -
  let ?s = "s\<lparr>next_addr := m, ptr_arrays := (ptr_arrays s)(a \<mapsto> xs)\<rparr>"
  have R: "ht_ok 256 t s Map.empty" "sendable s F" "below (infos s) (next_addr s)"
    using assms(1) by (simp_all add: reader_ready_def)
  have "sendable ?s F \<and> wire ?s F = wire s F"
    by (rule sendable_cong [OF R(2)]) (use R(2) m in \<open>auto simp: sendable_def intro: below_mono\<close>)
  with ht_ok_array [OF R(1) assms(2) m] R(3) m show ?thesis
    by (auto simp: reader_ready_def intro: below_mono)
qed

section \<open>Properties\<close>

text \<open>C5. The server sends back what it gets: the blocks of a series of buffers arrive on any
  connections in any order, and when all have been handled, the queues of the connections hold the
  blocks of the same buffers again, in the same order, each buffer cut anew. But every buffer has
  tag 0 and no predecessor, since \<open>bounce_buffer\<close> starts counting from the beginning each time.\<close>

theorem server_bounces:
  assumes "reader_ready t s F" and "ptr_arrays s qarr = Some (qs @ rest)" and "qs \<noteq> []" and "length qs < 2 ^ 24"
    and "set qs \<subseteq> dom F" and "on_the_wire bufs u pad ids blks fds s" and "set ids = all_blocks bufs u"
    and "\<forall>bs \<in> set bufs. fits qs bs" and "length bufs + 2 \<le> f"
  shows "runs_to (take_turns f (bounce_buffer qarr (int (length qs))) t fds) s (\<lambda>_ s'. \<exists>F'. sendable s' F' \<and>
    (\<forall>q \<in> set qs. wire s' F' q = deliver (bounced qs bufs) (wire s F) q))"
proof -
  have "echoed qarr qs (wire s F) s F []"
    using assms(2-5) by (auto simp: echoed_def bounced_def wire_def)
  from bounce.turns_deliver [OF assms(6,1) this _ assms(9)] assms(8) obtain m where
    m: "m \<le> length bufs" "\<not> received bufs u ids m"
      "runs_to (take_turns f (bounce_buffer qarr (int (length qs))) t fds) s (\<lambda>_ s'. \<exists>F'. sendable s' F' \<and>
        echoed qarr qs (wire s F) s' F' (take m bufs))" by blast
  have "received bufs u ids k" if "k < length bufs" for k
    using that by (auto simp: received_def assms(7) all_blocks_def)
  with m(1,2) have "m = length bufs" by (metis le_neq_implies_less)
  with m(3) show ?thesis by (auto simp: echoed_def elim!: runs_to_mono)
qed

text \<open>The network of \<open>demo_net\<close>, and a server with one connection, whose queue is at address 1.\<close>

definition demo_server :: mem where
  "demo_server = demo_net\<lparr>next_addr := 1,
     queues := [1 \<mapsto> \<lparr>q_head = NULL, q_tail = NULL, q_mutex = False, q_wrt = 1\<rparr>]\<rparr>"

lemma demo_server_well_formed: "well_formed demo_server [1 \<mapsto> []]"
proof -
  have "q_inv demo_server [1 \<mapsto> []]"
    by (auto simp: demo_server_def demo_net_def mem0_def q_inv_def structs_def struct_at_def queue_rec_def
        disjoint_chains_def owned_def below_def split: if_splits)
  then have "q_fifo demo_server [1 \<mapsto> []]"
    unfolding q_fifo_def
    by (intro conjI exI [of _ "[1 \<mapsto> []]"]) (auto simp: demo_server_def demo_net_def mem0_def)
  moreover have "heap_ok demo_server Map.empty"
    by (simp add: heap_ok_def ll_inv_def demo_server_def demo_net_def mem0_def)
  ultimately show ?thesis
    by (auto simp: well_formed_def sendable_def separate_def locked_def demo_server_def demo_net_def mem0_def)
qed

lemma server_bounces_witness:
  "runs_to (bnd (AllocateHashTable 256) (\<lambda>t. bnd (malloc_obj ptr_arrays ptr_arrays_update [1])
     (\<lambda>qarr. take_turns 3 (bounce_buffer qarr 1) t [5, 6]))) demo_server
   (\<lambda>_ s'. \<exists>F'. sendable s' F' \<and> wire s' F' 1 = deliver (bounced [1] [map Some [104, 105]]) [1 \<mapsto> []] 1)"
  unfolding runs_to_bnd
proof (rule runs_to_mono [OF allocate_ready [OF demo_server_well_formed]], elim conjE)
  fix t s assume r: "reader_ready t s [1 \<mapsto> []]" and net: "net_in s = net_in demo_server"
  let ?a = "Suc (next_addr s)"
  let ?s = "s\<lparr>next_addr := ?a, ptr_arrays := (ptr_arrays s)(?a \<mapsto> [1])\<rparr>"
  have oom: "\<not> oom s ?a" using r by (auto simp: reader_ready_def sendable_oom)
  have "buckets x \<le> next_addr s" if "ht_recs s t = Some x" for x
    using r that ht_ok_buckets by (auto simp: reader_ready_def)
  then have r': "reader_ready t ?s [1 \<mapsto> []]"
    using reader_ready_array [OF r, of ?a ?a "[1]"] by fastforce
  have "net_in ?s = net_in demo_net" using net by (simp add: demo_server_def)
  from demo_on_the_wire [folded on_the_wire_net [OF this]] have w:
    "on_the_wire [map Some [104, 105]] (\<lambda>_. 2) (\<lambda>_. [Some 7, Some 7, Some 7])
       [Piece 0 (0, map Some [104, 105]), Init 0] [demo_data, demo_init] [5, 6] ?s" .
  have all: "set [Piece 0 (0, map Some [104, 105]), Init 0] = all_blocks [map Some [104, 105 :: 8 word]] (\<lambda>_. 2)"
    by (auto simp: all_blocks_def pieces_of_def chunks.simps)
  have "wire ?s [1 \<mapsto> []] = [1 \<mapsto> []]" by (simp add: wire_def fun_eq_iff)
  with server_bounces [OF r' _ _ _ _ w all, of ?a "[1]" "[]" 3]
  have "runs_to (take_turns 3 (bounce_buffer ?a 1) t [5, 6]) ?s (\<lambda>_ s'. \<exists>F'. sendable s' F' \<and>
      wire s' F' 1 = deliver (bounced [1] [map Some [104, 105]]) [1 \<mapsto> []] 1)"
    by (simp add: fits_def)
  with oom show "runs_to (malloc_obj ptr_arrays ptr_arrays_update [1]) s (\<lambda>qarr s'.
      runs_to (take_turns 3 (bounce_buffer qarr 1) t [5, 6]) s' (\<lambda>_ s'. \<exists>F'. sendable s' F' \<and>
        wire s' F' 1 = deliver (bounced [1] [map Some [104, 105]]) [1 \<mapsto> []] 1))"
    by (simp add: wp Let_def)
qed
end
