(* ===== verification/EndpointsSpec.thy ===== *)
theory EndpointsSpec
  imports Endpoints Bounce
begin

text \<open>
  What the two main functions promise: the handshake, the port, the connections that are set up,
  and what the client sends.
\<close>

section \<open>Byte order\<close>

lemma le32_of_le32:
  assumes "length bs = 4"
  shows "le32 (of_le32 bs) = bs"
proof -
  from assms obtain a b c d where bs: "bs = [a, b, c, d]"
    by (auto simp: length_Suc_conv numeral_eq_Suc)
  show ?thesis
    unfolding bs le32_def by (auto simp: bit_eq_iff bit_simps dest: bit_imp_le_length)
qed

lemma htonl_htonl [simp]: "htonl (htonl w) = w"
  by (simp add: htonl_def le32_of_le32)

lemma htons_htons [simp]: "htons (htons w) = w"
  unfolding htons_def by (rule bit_word_eqI) (auto simp: bit_simps)

lemma of_le16_le16 [simp]: "of_le16 (le16 w) = w"
  unfolding of_le16_def le16_def by (rule bit_word_eqI) (auto simp: bit_simps)

lemma length_le16 [simp]: "length (le16 w) = 2"
  by (simp add: le16_def)

section \<open>The random port\<close>

definition port_address :: "host \<Rightarrow> nat \<Rightarrow> sockaddr_in" where
  "port_address s k =
     \<lparr>sin_addr = 0, sin_port = htons (of_nat (rand_value s (rands s + k) mod 65268 + 256))\<rparr>"

lemma port_address_range:
  "256 \<le> unat (ntohs (sin_port (port_address s k)))" "unat (ntohs (sin_port (port_address s k))) \<le> 65523"
proof -
  let ?n = "rand_value s (rands s + k) mod 65268 + 256"
  have n: "256 \<le> ?n" "?n \<le> 65523" using mod_less_divisor [of 65268 "rand_value s (rands s + k)"] by simp_all
  then have "unat (of_nat ?n :: 16 word) = ?n" by (simp add: unsigned_of_nat take_bit_nat_eq_self del: of_nat_add)
  with n show "256 \<le> unat (ntohs (sin_port (port_address s k)))" "unat (ntohs (sin_port (port_address s k))) \<le> 65523"
    by (simp_all add: port_address_def ntohs_def del: of_nat_add)
qed

abbreviation bind_loop :: "sock_type \<Rightarrow> int \<Rightarrow> int \<times> sockaddr_in \<Rightarrow> (host, int \<times> sockaddr_in) prog" where
  "bind_loop type sockfd \<equiv> whileM (\<lambda>(r, servaddr). ret (r = -1))
     (\<lambda>_. bnd random_port (\<lambda>port.
        let servaddr = \<lparr>sin_addr = 0, sin_port = htons port\<rparr> in
        bnd (sys_bind type sockfd servaddr) (\<lambda>r. ret (r, servaddr))))"

lemma bind_step: "bind_loop type fd (-1, a0) s =
    (if in_use s type (port_address s 0) then bind_loop type fd (-1, port_address s 0) (s\<lparr>rands := Suc (rands s)\<rparr>)
     else Inr ((0, port_address s 0), s\<lparr>rands := Suc (rands s),
       in_use := (in_use s)(type := (in_use s type)(port_address s 0 := True)),
       bound := bound s @ [(fd, port_address s 0)]\<rparr>))"
  by (subst whileM_unfold)
    (simp add: prog_defs random_port_def sys_rand_def sys_bind_def Let_def port_address_def whileM_exit prod.case_eq_if)

lemma bind_loop_law:
  assumes "\<not> in_use s type (port_address s k)" and "\<forall>j < k. in_use s type (port_address s j)"
  shows "bind_loop type fd (-1, a0) s = Inr ((0, port_address s k), s\<lparr>rands := rands s + Suc k,
       in_use := (in_use s)(type := (in_use s type)(port_address s k := True)),
       bound := bound s @ [(fd, port_address s k)]\<rparr>)"
  using assms
proof (induction k arbitrary: s a0)
  case (Suc k)
  let ?s = "s\<lparr>rands := Suc (rands s)\<rparr>"
  have p: "port_address ?s j = port_address s (Suc j)" for j by (simp add: port_address_def)
  have "in_use s type (port_address s 0)" using Suc.prems(2) by blast
  then have "bind_loop type fd (-1, a0) s = bind_loop type fd (-1, port_address s 0) ?s" by (subst bind_step) simp
  also have "\<dots> = Inr ((0, port_address ?s k), ?s\<lparr>rands := rands ?s + Suc k,
       in_use := (in_use ?s)(type := (in_use ?s type)(port_address ?s k := True)),
       bound := bound ?s @ [(fd, port_address ?s k)]\<rparr>)"
    by (rule Suc.IH) (use Suc.prems in \<open>auto simp: p\<close>)
  finally show ?case by (simp add: p del: fun_upd_apply)
qed (subst bind_step, simp)

lemma bind_random_port_law:
  assumes "\<not> in_use s type (port_address s k)" and "\<forall>j < k. in_use s type (port_address s j)"
  shows "bind_random_port type s = Inr ((next_fd s, port_address s k), s\<lparr>next_fd := next_fd s + 1,
       rands := rands s + Suc k,
       in_use := (in_use s)(type := (in_use s type)(port_address s k := True)),
       bound := bound s @ [(next_fd s, port_address s k)]\<rparr>)"
proof -
  let ?s = "s\<lparr>next_fd := next_fd s + 1\<rparr>"
  have p: "port_address ?s j = port_address s j" for j by (simp add: port_address_def)
  have "bind_loop type (next_fd s) (-1, \<lparr>sin_addr = 0, sin_port = 0\<rparr>) ?s = Inr ((0, port_address ?s k),
      ?s\<lparr>rands := rands ?s + Suc k, in_use := (in_use ?s)(type := (in_use ?s type)(port_address ?s k := True)),
       bound := bound ?s @ [(next_fd s, port_address ?s k)]\<rparr>)"
    by (rule bind_loop_law) (use assms in \<open>simp_all add: p\<close>)
  then show ?thesis by (simp add: bind_random_port_def sys_socket_def prog_defs p)
qed

lemma bind_random_port_diverges:
  assumes "\<forall>k. in_use s type (port_address s k)"
  shows "bind_random_port type s = Inl Diverges"
proof -
  let ?I = "\<lambda>(v :: int \<times> sockaddr_in) (s' :: host). fst v = -1 \<and> in_use s' = in_use s \<and> rand_value s' = rand_value s \<and> (\<exists>j. rands s' = rands s + j)"
  have "bind_loop type (next_fd s) (-1, \<lparr>sin_addr = 0, sin_port = 0\<rparr>) (s\<lparr>next_fd := next_fd s + 1\<rparr>) = Inl Diverges"
  proof (rule whileM_diverges [where I = ?I])
    show "?I (-1, \<lparr>sin_addr = 0, sin_port = 0\<rparr>) (s\<lparr>next_fd := next_fd s + 1\<rparr>)" by (simp add: exI [of _ 0])
  next
    fix v s' assume I: "?I v s'"
    then obtain j where j: "rands s' = rands s + j" by blast
    have "in_use s type (port_address s j)" using assms by blast
    with I j show "runs_to ((\<lambda>(r, servaddr). ret (r = -1)) v) s' (\<lambda>go s''. go \<and>
        runs_to (bnd random_port (\<lambda>port.
          let servaddr = \<lparr>sin_addr = 0, sin_port = htons port\<rparr> in
          bnd (sys_bind type (next_fd s) servaddr) (\<lambda>r. ret (r, servaddr)))) s'' ?I)"
      by (cases v) (auto simp: wp random_port_def sys_rand_def sys_bind_def Let_def port_address_def
        intro!: exI [of _ "Suc j"])
  qed
  then show ?thesis by (simp add: bind_random_port_def sys_socket_def prog_defs)
qed

lemma port_address_simps [simp]:
  "port_address (s\<lparr>image := i\<rparr>) = port_address s" "port_address (s\<lparr>client_infos := c\<rparr>) = port_address s"
  "port_address (s\<lparr>udp_in := u\<rparr>) = port_address s"
  by (simp_all add: port_address_def fun_eq_iff)

section \<open>The handshake\<close>

text \<open>The number that a datagram asks for, in a variable that held the bytes \<open>old\<close> before.\<close>

definition asked :: "8 word list \<Rightarrow> 8 word list \<Rightarrow> 32 word" where
  "asked old bs = ntohl (of_le32 (take 4 bs @ drop (length bs) old))"

definition acceptable :: "8 word list \<Rightarrow> bool" where
  "acceptable bs \<longleftrightarrow> 4 \<le> length bs \<and> 0 \<le> sint (asked [] bs) \<and> sint (asked [] bs) \<le> MAX_CONN"

lemma asked_enough: "4 \<le> length bs \<Longrightarrow> length old = 4 \<Longrightarrow> asked old bs = asked [] bs"
  by (simp add: asked_def)

lemma server_round_accepts:
  assumes u: "udp_in s fd = Packet client bs # rest" and a: "acceptable bs"
    and oom: "\<not> oom (image s) (Suc (next_addr (image s)))" and send: "\<not> sendto_fails s"
    and free: "\<not> in_use s SOCK_STREAM (port_address s k)" "\<forall>j < k. in_use s SOCK_STREAM (port_address s j)"
  shows "runs_to (server_round fd) s (\<lambda>_ s'. let arg = Suc (next_addr (image s)) in
    udp_in s' = (udp_in s)(fd := rest) \<and> threads s' = threads s @ [Serve_client arg] \<and>
    client_infos s' = (client_infos s)(arg \<mapsto> \<lparr>ci_num_conn = asked [] bs, ci_sock_fd = next_fd s,
      ci_sock_port = uint (ntohs (sin_port (port_address s k)))\<rparr>) \<and>
    bound s' = bound s @ [(next_fd s, port_address s k)] \<and>
    udp_out s' = udp_out s @ [(fd, client, le16 (sin_port (port_address s k)))])"
proof -
  let ?arg = "Suc (next_addr (image s))" let ?old = "map (junk s) [0..<4]"
  have len: "4 \<le> length bs" and n: "\<not> sint (asked [] bs) < 0" "\<not> sint (asked [] bs) > MAX_CONN"
    using a by (auto simp: acceptable_def)
  have old: "length ?old = 4" by simp
  note bind = runs_to_exact [of "bind_random_port SOCK_STREAM", OF bind_random_port_law [where k = k]]
  have num: "ntohl (of_le32 (take 4 bs)) = asked [] bs" by (simp add: asked_def)
  show ?thesis
    unfolding server_round_def
    apply (simp add: wp Let_def oom recieve_udp_def sys_recvfrom_def u num n bind free
      send_udp_def send start_thread_def min_absorb2 [OF len] fun_upd_same fun_upd_upd
      del: upt_Suc fun_upd_apply)
    done
qed

lemma server_round_rejects:
  assumes u: "udp_in s fd = p # rest" and oom: "\<not> oom (image s) (Suc (next_addr (image s)))"
    and bad: "\<forall>client bs. p = Packet client bs \<longrightarrow> \<not> acceptable bs"
  shows "runs_to (server_round fd) s (\<lambda>_ s'. \<exists>i. s' = s\<lparr>image := (image s)\<lparr>next_addr := Suc (next_addr (image s))\<rparr>,
    udp_in := (udp_in s)(fd := rest), client_infos := (client_infos s)(Suc (next_addr (image s)) \<mapsto> i)\<rparr>)"
proof (cases p)
  case Recv_error
  then show ?thesis
    by (simp add: server_round_def wp Let_def oom recieve_udp_def sys_recvfrom_def u fun_upd_same fun_upd_upd
        del: upt_Suc fun_upd_apply) blast
next
  case (Packet client bs)
  with bad have no: "\<not> acceptable bs" by blast
  show ?thesis
  proof (cases "4 \<le> length bs")
    case True
    then have "sint (asked [] bs) < 0 \<or> MAX_CONN < sint (asked [] bs)"
      using no by (auto simp: acceptable_def)
    moreover have "ntohl (of_le32 (take 4 bs)) = asked [] bs" using True by (simp add: asked_def)
    ultimately show ?thesis
      using True
      by (simp add: server_round_def wp Let_def oom recieve_udp_def sys_recvfrom_def u Packet fun_upd_same fun_upd_upd
          min_absorb2 [OF True] del: upt_Suc fun_upd_apply) blast
  next
    case False
    then have m: "min (length bs) 4 = length bs" "length bs < 4" by simp_all
    have "(of_nat (length bs) :: 64 word) \<noteq> 4"
    proof
      assume "(of_nat (length bs) :: 64 word) = 4"
      then have "unat (of_nat (length bs) :: 64 word) = unat (4 :: 64 word)" by (simp only:)
      with m(2) show False by (simp add: unsigned_of_nat take_bit_nat_eq_self)
    qed
    then show ?thesis
      by (cases "length bs = 0")
        (simp_all add: server_round_def wp Let_def oom recieve_udp_def sys_recvfrom_def u Packet fun_upd_same fun_upd_upd
          m(1) del: upt_Suc fun_upd_apply, blast+)
  qed
qed

text \<open>The datagram of \<open>udp_handshake\<close>, and what it makes of the reply.\<close>

definition request :: "int \<Rightarrow> 8 word list" where
  "request n = le32 (htonl (word_of_int n))"

lemma request_acceptable:
  assumes "0 \<le> n" and "n \<le> MAX_CONN"
  shows "acceptable (request n)" and "asked [] (request n) = word_of_int n"
proof -
  show a: "asked [] (request n) = word_of_int n" by (simp add: asked_def request_def ntohl_def)
  have "in_int n" using assms by (simp add: in_int_def MAX_CONN_def)
  with assms a show "acceptable (request n)" by (simp add: acceptable_def sint_of_int32) (simp add: request_def)
qed

lemma udp_handshake_law:
  assumes u: "udp_in c (next_fd c) = Packet server (le16 port) # rest" and send: "\<not> sendto_fails c"
  shows "runs_to (udp_handshake addr p n) c (\<lambda>q c'. q = ucast (ntohs port) \<and>
    (\<exists>servaddr. udp_out c' = udp_out c @ [(next_fd c, servaddr, request n)]))"
  using assms
  by (simp add: udp_handshake_def open_udp_def sys_socket_def wp send_udp_def recieve_udp_def sys_recvfrom_def
      Let_def request_def split: option.splits)

section \<open>The connections of a client\<close>

text \<open>
  \<open>serving s0 F0 ht qarr b n cs s\<close>: since the process was in state \<open>s0\<close>, with the queues \<open>F0\<close>, it
  has made the empty table \<open>ht\<close>, the array \<open>qarr\<close> and the argument \<open>b\<close> of the handler for \<open>n\<close>
  connections, and has set up the connections \<open>cs\<close>: each has an empty queue in the array, a
  thread that sends from it and a thread that reads into the table.
\<close>

definition with_queues :: "addr list \<Rightarrow> queued \<Rightarrow> queued" where
  "with_queues qs F = (\<lambda>q. if q \<in> set qs then Some [] else F q)"

definition connection_ok :: "host \<Rightarrow> host \<Rightarrow> addr \<Rightarrow> addr \<Rightarrow> nat \<Rightarrow> addr \<times> addr \<times> addr \<Rightarrow> bool" where
  "connection_ok s0 s ht b i c \<longleftrightarrow> (case c of (q, w, r) \<Rightarrow>
     w \<le> next_addr (image s) \<and> r \<le> next_addr (image s) \<and>
     writer_inits s w = Some \<lparr>wi_client_fd = accept_fd s0 (accepts s0 + i), wi_queue = q\<rparr> \<and>
     reader_inits s r = Some \<lparr>ri_client_fd = accept_fd s0 (accepts s0 + i), ri_ht = ht,
       ri_handler = Bounce_buffer, ri_handler_arg = b\<rparr>)"

definition serving :: "host \<Rightarrow> queued \<Rightarrow> addr \<Rightarrow> addr \<Rightarrow> addr \<Rightarrow> nat \<Rightarrow> (addr \<times> addr \<times> addr) list \<Rightarrow> host \<Rightarrow> bool" where
  "serving s0 F0 ht qarr b n cs s \<longleftrightarrow>
     reader_ready ht (image s) (with_queues (map fst cs) F0) \<and>
     (\<exists>rest. ptr_arrays (image s) qarr = Some (map fst cs @ rest) \<and> n \<le> length cs + length rest) \<and>
     distinct (map fst cs) \<and> qarr \<noteq> NULL \<and> qarr \<le> next_addr (image s) \<and>
     (\<forall>r. ht_recs (image s) ht = Some r \<longrightarrow> buckets r \<noteq> qarr) \<and>
     bounce_args s b = Some \<lparr>bb_queues = qarr, bb_n_queues = int n\<rparr> \<and>
     threads s = threads s0 @ concat (map (\<lambda>(q, w, r). [Writer_thread w, Reader_thread r]) cs) \<and>
     accept_fd s = accept_fd s0 \<and> accepts s = accepts s0 + length cs \<and>
     (\<forall>i < length cs. connection_ok s0 s ht b i (cs ! i))"

lemma reader_ready_cong:
  assumes "reader_ready t s F" and "ht_alike s s'" and "sendable s' F'" and "infos s' = infos s"
  shows "reader_ready t s' F'"
  using assms ht_ok_alike [of 256 t s Map.empty s']
  by (auto simp: reader_ready_def ht_alike_def intro: below_mono)

lemma reader_ready_next:
  assumes "reader_ready t s F" and "next_addr s \<le> m"
  shows "reader_ready t (s\<lparr>next_addr := m\<rparr>) F"
proof -
  have "sendable s F" using assms(1) by (simp add: reader_ready_def)
  from sendable_cong [OF this, of "s\<lparr>next_addr := m\<rparr>"] this assms(2) have "sendable (s\<lparr>next_addr := m\<rparr>) F"
    by (auto simp: sendable_def intro: below_mono)
  with assms show ?thesis by (intro reader_ready_cong [OF assms(1)]) (simp_all add: ht_alike_def)
qed

lemma with_queues_snoc: "with_queues (qs @ [q]) F = (with_queues qs F)(q \<mapsto> [])"
  by (auto simp: with_queues_def fun_eq_iff)

lemma serve_connection_law:
  assumes S: "serving s0 F0 ht qarr b n cs s" and i: "length cs < n"
  shows "runs_to (serve_connection ht qarr b (length cs)) s (\<lambda>_ s'. listening s' = listening s \<and>
    (\<exists>c. serving s0 F0 ht qarr b n (cs @ [c]) s'))"
proof -
  let ?F = "with_queues (map fst cs) F0" let ?t = "image s" let ?q = "Suc (next_addr ?t)"
  let ?fd = "accept_fd s0 (accepts s0 + length cs)"
  from S obtain rest where R: "reader_ready ht ?t ?F" and arr: "ptr_arrays ?t qarr = Some (map fst cs @ rest)"
    "n \<le> length cs + length rest" and D: "distinct (map fst cs)" "qarr \<noteq> NULL" "qarr \<le> next_addr ?t"
    "\<And>r. ht_recs ?t ht = Some r \<Longrightarrow> buckets r \<noteq> qarr"
    and B: "bounce_args s b = Some \<lparr>bb_queues = qarr, bb_n_queues = int n\<rparr>"
    "threads s = threads s0 @ concat (map (\<lambda>(q, w, r). [Writer_thread w, Reader_thread r]) cs)"
    "accept_fd s = accept_fd s0" "accepts s = accepts s0 + length cs"
    and C: "\<And>i. i < length cs \<Longrightarrow> connection_ok s0 s ht b i (cs ! i)"
    unfolding serving_def by blast
  have F: "sendable ?t ?F" using R by (simp add: reader_ready_def)
  have oom: "\<not> oom ?t k" for k using sendable_oom [OF F] .
  from arr i obtain y ys where rest: "rest = y # ys" by (cases rest) auto
  show ?thesis
    unfolding serve_connection_def sys_accept_def runs_to_bnd runs_to_seq runs_to_gets runs_to_modifies runs_to_ret runs_to_lift
  proof (simp del: fun_upd_apply, rule runs_to_mono [OF sendable_allocate [OF F]], elim conjE, goal_cases)
    case (1 q t1)
    note t1 = 1(1-3)
    have fr: "next_addr ?t \<le> next_addr t1" "ptr_arrays t1 = ptr_arrays ?t" "ht_recs t1 = ht_recs ?t" "infos t1 = infos ?t"
      "oom t1 = oom ?t"
      using q_frame_alike [OF t1(2)] q_frameD(3) [OF t1(2)] by (simp_all add: ht_alike_def)
    let ?w = "Suc (next_addr t1)"
    let ?i = "t1\<lparr>ptr_arrays := (ptr_arrays ?t)(qarr \<mapsto> map fst cs @ q # ys), next_addr := Suc ?w\<rparr>"
    let ?s = "s\<lparr>accepts := Suc (accepts s0 + length cs),
      writer_inits := (writer_inits s)(?w \<mapsto> \<lparr>wi_client_fd = ?fd, wi_queue = q\<rparr>), image := ?i,
      reader_inits := (reader_inits s)(Suc ?w \<mapsto> \<lparr>ri_client_fd = ?fd, ri_ht = ht,
        ri_handler = Bounce_buffer, ri_handler_arg = b\<rparr>),
      threads := threads s @ [Writer_thread ?w, Reader_thread (Suc ?w)]\<rparr>"
    have new: "q \<notin> set (map fst cs)"
      using sendable_next [OF F] t1(1) by (auto simp: with_queues_def split: if_splits)
    have R1: "reader_ready ht t1 (?F(q \<mapsto> []))" by (rule reader_ready_cong [OF R q_frame_alike [OF t1(2)] t1(3) fr(4)])
    have i: "t1\<lparr>next_addr := Suc ?w, ptr_arrays := (ptr_arrays t1)(qarr \<mapsto> map fst cs @ q # ys)\<rparr> = ?i"
      by (simp add: fr)
    have "buckets r \<noteq> qarr" if "ht_recs t1 ht = Some r" for r using D(4) that fr(3) by simp
    from reader_ready_array [OF R1 this D(2), of "Suc ?w" "map fst cs @ q # ys", unfolded i] D(3) fr(1)
    have R2: "reader_ready ht ?i (with_queues (map fst (cs @ [(q, ?w, Suc ?w)])) F0)"
      by (simp add: with_queues_snoc del: fun_upd_apply)
    have conn: "connection_ok s0 ?s ht b j ((cs @ [(q, ?w, Suc ?w)]) ! j)" if j: "j < Suc (length cs)" for j
    proof (cases "j < length cs")
      case True
      then show ?thesis using C [OF True] fr(1) by (auto simp: connection_ok_def nth_append)
    next
      case False
      with j have "j = length cs" by simp
      then show ?thesis by (simp add: connection_ok_def)
    qed
    have fin: "serving s0 F0 ht qarr b n (cs @ [(q, ?w, Suc ?w)]) ?s"
      unfolding serving_def
    proof (intro conjI)
      show "\<exists>rest. ptr_arrays (image ?s) qarr = Some (map fst (cs @ [(q, ?w, Suc ?w)]) @ rest) \<and>
          n \<le> length (cs @ [(q, ?w, Suc ?w)]) + length rest"
        using arr rest by (intro exI [of _ ys]) simp
    qed (use R2 D fr new B conn in simp_all)
    have upd: "(map fst cs @ y # ys)[length cs := q] = map fst cs @ q # ys" by (simp add: list_update_append)
    show ?case
      using arr B(3,4) oom
      by (simp add: wp Let_def start_thread_def fr rest upd fun_upd_same fun_upd_upd del: fun_upd_apply)
        (intro exI, rule fin)
  qed
qed

lemma serve_connections_law:
  assumes S: "serving s0 F0 ht qarr b n [] s"
  shows "runs_to (whileM (\<lambda>i. ret (int i < int n)) (\<lambda>i. seq (serve_connection ht qarr b i) (ret (Suc i))) 0) s
    (\<lambda>_ s'. listening s' = listening s \<and> (\<exists>cs. length cs = n \<and> serving s0 F0 ht qarr b n cs s'))"
proof (rule runs_to_whileM [where I = "\<lambda>i s'. i \<le> n \<and> listening s' = listening s \<and>
    (\<exists>cs. length cs = i \<and> serving s0 F0 ht qarr b n cs s')" and m = "\<lambda>i s'. n - i"])
  fix i s' assume "i \<le> n \<and> listening s' = listening s \<and> (\<exists>cs. length cs = i \<and> serving s0 F0 ht qarr b n cs s')"
  then obtain cs where I: "i \<le> n" "listening s' = listening s" "length cs = i" "serving s0 F0 ht qarr b n cs s'" by blast
  show "runs_to (ret (int i < int n)) s' (\<lambda>go t. if go then
      runs_to (seq (serve_connection ht qarr b i) (ret (Suc i))) t (\<lambda>i' t'. (i' \<le> n \<and> listening t' = listening s \<and>
        (\<exists>cs. length cs = i' \<and> serving s0 F0 ht qarr b n cs t')) \<and> n - i' < n - i)
      else listening t = listening s \<and> (\<exists>cs. length cs = n \<and> serving s0 F0 ht qarr b n cs t))"
  proof (cases "i < n")
    case True
    have "runs_to (serve_connection ht qarr b i) s' (\<lambda>_ t'. (Suc i \<le> n \<and> listening t' = listening s \<and>
        (\<exists>cs. length cs = Suc i \<and> serving s0 F0 ht qarr b n cs t')) \<and> n - Suc i < n - i)"
    proof (rule runs_to_mono [OF serve_connection_law [OF I(4), unfolded I(3), OF True]])
      fix x t' assume "listening t' = listening s' \<and> (\<exists>c. serving s0 F0 ht qarr b n (cs @ [c]) t')"
      then obtain c where "listening t' = listening s'" "serving s0 F0 ht qarr b n (cs @ [c]) t'" by blast
      moreover have "length (cs @ [c]) = Suc i" using I(3) by simp
      ultimately show "(Suc i \<le> n \<and> listening t' = listening s \<and>
          (\<exists>cs. length cs = Suc i \<and> serving s0 F0 ht qarr b n cs t')) \<and> n - Suc i < n - i"
        using True I(2) by (intro conjI) (simp, simp, blast, simp)
    qed
    with True show ?thesis by (simp add: wp)
  qed (use I in \<open>auto simp: wp\<close>)
qed (use S in auto)

lemma serve_client_law:
  assumes wf: "well_formed (image s) F" and ci: "client_infos s arg = Some ci" "sint (ci_num_conn ci) = int n"
  shows "runs_to (serve_client arg) s (\<lambda>_ s'. listening s' = listening s @ [(ci_sock_fd ci, ci_sock_port ci)] \<and>
    (\<exists>ht qarr b cs. length cs = n \<and> serving s F ht qarr b n cs s'))"
  unfolding serve_client_def runs_to_bnd runs_to_load ci option.case runs_to_lift Let_def
proof (rule runs_to_mono [OF allocate_ready [OF wf]], elim conjE, goal_cases)
  case (1 ht t)
  let ?a = "Suc (next_addr t)" let ?xs = "replicate (n * sizeof_queue div 8) NULL"
  have F: "sendable t F" using 1(1) by (simp add: reader_ready_def)
  have oom: "\<not> oom t k" for k using sendable_oom [OF F] .
  have le: "buckets r \<le> next_addr t" if "ht_recs t ht = Some r" for r
    using ht_ok_buckets that 1(1) by (auto simp: reader_ready_def)
  then have ne: "buckets r \<noteq> ?a" if "ht_recs t ht = Some r" for r using that by fastforce
  have m: "?a \<noteq> NULL" "?a \<le> Suc ?a" "next_addr t \<le> Suc ?a" by simp_all
  have R: "reader_ready ht (t\<lparr>next_addr := Suc ?a, ptr_arrays := (ptr_arrays t)(?a \<mapsto> ?xs)\<rparr>) F"
    using reader_ready_array [OF 1(1) ne m] by blast
  have eq: "t\<lparr>next_addr := Suc ?a, ptr_arrays := (ptr_arrays t)(?a \<mapsto> ?xs)\<rparr> =
      t\<lparr>ptr_arrays := (ptr_arrays t)(?a \<mapsto> ?xs), next_addr := Suc ?a\<rparr>" by simp
  have start: "serving s F ht ?a (Suc ?a) n [] s1"
    if "image s1 = t\<lparr>ptr_arrays := (ptr_arrays t)(?a \<mapsto> ?xs), next_addr := Suc ?a\<rparr>"
      "bounce_args s1 (Suc ?a) = Some \<lparr>bb_queues = ?a, bb_n_queues = int n\<rparr>"
      "threads s1 = threads s" "accept_fd s1 = accept_fd s" "accepts s1 = accepts s" for s1
    unfolding serving_def using R [unfolded eq] that ne
    by (auto simp: with_queues_def sizeof_queue_def)
  show ?case
    by (simp add: wp Let_def oom fun_upd_same fun_upd_upd del: fun_upd_apply)
      (rule runs_to_mono [OF serve_connections_law [unfolded of_nat_less_iff, OF start]], auto)
qed

section \<open>What the client sends\<close>

lemma test_writing_law:
  assumes F: "sendable (image s) F" and arr: "ptr_arrays (image s) qarr = Some (qs @ rest)"
    and qs: "qs \<noteq> []" "length qs < 2 ^ 24" "set qs \<subseteq> dom F" and o: "\<not> fopen_fails (image s)"
    and bs: "bs = take 210000 (files (image s) client_input)" "length qs \<le> length bs"
  shows "runs_to (test_writing qarr (int (length qs))) s (\<lambda>_ s'.
    holding (image s') (deliver (plan qs (block_size_of qs bs) 0 (-1) bs) (wire (image s) F)) \<and>
    start_time s' = clock s (clock_reads s))"
proof -
  let ?t = "image s" let ?b = "Suc (next_addr ?t)" let ?u = "block_size_of qs bs"
  let ?bs = "bs @ replicate (210000 - length bs) None"
  let ?t1 = "with_bytes ?bs ?t" let ?K = "grown qs ?b F"
  note new = with_bytes_new(1,2) [OF F, where bs = ?bs] with_bytes_new(4) [OF F]
  have len: "length bs \<le> 210000" using bs(1) by simp
  have sp: "splice 0 bs (replicate 210000 None) = ?bs" using len by (simp add: splice_def)
  have h: "holding_with ?K ?t1 (wire ?t F)" using new(1,2) by (auto simp: holding_with_def grown_def)
  have dom: "set qs \<subseteq> dom (wire ?t F)" using qs(3) by (auto simp: wire_def)
  have r: "writer_ready ?t1 qarr qs ?b bs" using arr qs(1) by (simp add: writer_ready_def)
  obtain i where i: "choose_unif_size (int (length bs)) (int (length qs)) = Some i" "0 < i" "i \<le> BLOCK_SIZE"
    using choose_unif_size_law [of "int (length qs)" "int (length bs)"] qs bs(2) len by auto
  then have u: "choose_unif_size (int (length bs)) (int (length qs)) = Some (int ?u)" "0 < ?u" "?u \<le> 16384"
    by (simp_all add: block_size_of_def BLOCK_SIZE_def)
  have wr: "runs_to (multiplex_write_queues qarr (int (length qs)) ?b (int (length bs)) (-1)) ?t1 (\<lambda>tag t'.
      wr_frame ?t1 t' \<and> holding_with ?K t' (deliver (plan qs ?u 0 (-1) bs) (wire ?t F)))"
    by (rule runs_to_mono [OF multiplex_write_queues_law [OF h dom r u(1) _ u(3) _ _ grown_keeps, of "-1"]])
      (use u(2) len in \<open>auto simp: in_int_def\<close>)
  have fin: "runs_to (free_bytes ?b) t' (\<lambda>_ t''. holding t'' (deliver (plan qs ?u 0 (-1) bs) (wire ?t F)))"
    if "wr_frame ?t1 t'" "holding_with ?K t' (deliver (plan qs ?u 0 (-1) bs) (wire ?t F))" for t'
  proof -
    from that(2) obtain F' where F': "sendable t' F'" "deliver (plan qs ?u 0 (-1) bs) (wire ?t F) = wire t' F'" "?K F'"
      by (auto simp: holding_with_def)
    have "unqueued F ?b" using new(3) by (auto simp: unqueued_def)
    then have uq: "unqueued F' ?b" using grown_unqueued [OF F'(3)] by simp
    have c: "chars t' ?b = Some ?bs" using wr_frameD(4) [OF that(1)] by simp
    let ?t2 = "t'\<lparr>chars := (chars t')(?b := None)\<rparr>"
    have "wire ?t2 F' = wire t' F'"
    proof (rule sendable_cong [THEN conjunct2, OF F'(1)])
      fix q xs x assume "F' q = Some xs" "x \<in> set xs"
      then have "fst x \<noteq> ?b" using uq unfolding unqueued_def by (metis imageI)
      then show "chars ?t2 (fst x) = chars t' (fst x)" by simp
    qed (use F'(1) in \<open>simp_all add: sendable_def\<close>)
    then have "holding ?t2 (deliver (plan qs ?u 0 (-1) bs) (wire ?t F))"
      unfolding F'(2) using sendable_free_bytes [OF F'(1) uq] by (auto simp: holding_with_def)
    then show ?thesis using c by (simp add: free_bytes_def wp)
  qed
  have lb: "min (length (files ?t client_input)) 210000 = length bs" by (simp add: bs(1))
  show ?thesis
    using o len
    by (simp add: test_writing_def wp Let_def bs(1) [symmetric] lb sp set_time_def gettimeofday_def fun_upd_same fun_upd_upd
        del: fun_upd_apply)
      (rule runs_to_mono [OF wr], blast intro: fin)
qed

section \<open>Connecting\<close>

abbreviation connect_loop :: "int \<Rightarrow> sockaddr_in \<Rightarrow> int \<Rightarrow> (host, int) prog" where
  "connect_loop sockfd servaddr \<equiv> whileM (\<lambda>r. ret (r = -1)) (\<lambda>_. sys_connect sockfd servaddr)"

lemma connect_step: "connect_loop fd a (-1) s =
    (if refused s (connects s) then connect_loop fd a (-1) (s\<lparr>connects := Suc (connects s)\<rparr>)
     else Inr (0, s\<lparr>connects := Suc (connects s), connected := connected s @ [(fd, a)]\<rparr>))"
  by (subst whileM_unfold) (simp add: prog_defs sys_connect_def whileM_exit)

lemma connect_loop_law:
  assumes "\<not> refused s (connects s + k)" and "\<forall>j < k. refused s (connects s + j)"
  shows "connect_loop fd a (-1) s = Inr (0, s\<lparr>connects := connects s + Suc k, connected := connected s @ [(fd, a)]\<rparr>)"
  using assms
proof (induction k arbitrary: s)
  case (Suc k)
  have "refused s (connects s)" using Suc.prems(2) by force
  then have "connect_loop fd a (-1) s = connect_loop fd a (-1) (s\<lparr>connects := Suc (connects s)\<rparr>)"
    by (subst connect_step) simp
  also have "\<dots> = Inr (0, s\<lparr>connects := connects s + Suc (Suc k), connected := connected s @ [(fd, a)]\<rparr>)"
    using Suc.IH [of "s\<lparr>connects := Suc (connects s)\<rparr>"] Suc.prems by fastforce
  finally show ?case .
qed (subst connect_step, simp)

lemma connect_loop_diverges:
  assumes "\<forall>k. refused s (connects s + k)"
  shows "connect_loop fd a (-1) s = Inl Diverges"
proof (rule whileM_diverges [where I = "\<lambda>(r :: int) (s' :: host). r = -1 \<and> refused s' = refused s \<and>
    (\<exists>j. connects s' = connects s + j)"])
  fix r :: int and s' :: host
  assume I: "r = -1 \<and> refused s' = refused s \<and> (\<exists>j. connects s' = connects s + j)"
  then obtain j where j: "connects s' = connects s + j" by blast
  have "refused s (connects s + j)" using assms by blast
  with I j show "runs_to (ret (r = -1)) s' (\<lambda>go s''. go \<and> runs_to (sys_connect fd a) s'' (\<lambda>r s'. r = -1 \<and>
      refused s' = refused s \<and> (\<exists>j. connects s' = connects s + j)))"
    by (auto simp: wp sys_connect_def intro!: exI [of _ "Suc j"])
qed (auto intro: exI [of _ 0])

section \<open>Properties\<close>

text \<open>A process in which nothing has happened; every system call succeeds, \<open>rand\<close> counts up.\<close>

definition demo_host :: host where
  "demo_host = \<lparr>image = mem0, client_infos = Map.empty, writer_inits = Map.empty, reader_inits = Map.empty,
     bounce_args = Map.empty, threads = [], next_fd = 3, udp_in = (\<lambda>_. []), udp_timeout = (\<lambda>_. False),
     udp_out = [], sendto_fails = False, in_use = (\<lambda>_ _. False), bound = [], listening = [],
     refused = (\<lambda>_. False), connects = 0, connected = [], accept_fd = (\<lambda>n. int n + 10), accepts = 0,
     rand_value = (\<lambda>n. n), rands = 0, clock = (\<lambda>_. (0, 0)), clock_reads = 0, start_time = (0, 0),
     junk = (\<lambda>_. 0), host_address = (\<lambda>_. Some 1)\<rparr>"

text \<open>C28. \<open>bind_random_port\<close> tries random ports until one is free: it binds the socket to the first
  free one, which is between 256 and 65523, and it never returns when the random numbers never hit
  a free port.\<close>

theorem bind_random_port_terminates:
  "if \<exists>k. \<not> in_use s type (port_address s k)
   then runs_to (bind_random_port type) s (\<lambda>(fd, a) s'. (\<exists>k. a = port_address s k) \<and>
     \<not> in_use s type a \<and> in_use s' type a \<and> bound s' = bound s @ [(fd, a)] \<and>
     256 \<le> unat (ntohs (sin_port a)) \<and> unat (ntohs (sin_port a)) \<le> 65523)
   else bind_random_port type s = Inl Diverges"
proof (cases "\<exists>k. \<not> in_use s type (port_address s k)")
  case True
  then obtain k where k: "\<not> in_use s type (port_address s k)" "\<forall>j < k. in_use s type (port_address s j)"
    using exists_least_iff [of "\<lambda>k. \<not> in_use s type (port_address s k)"] by auto
  from bind_random_port_law [OF this] k(1) port_address_range [of s k] True show ?thesis
    by (auto simp: runs_to_def)
next
  case False
  with bind_random_port_diverges [of s type] show ?thesis by auto
qed

lemma bind_random_port_terminates_witness:
  "runs_to (bind_random_port SOCK_STREAM) demo_host (\<lambda>(fd, a) s'. bound s' = [(fd, a)])"
proof -
  have "\<not> in_use demo_host SOCK_STREAM (port_address demo_host 0)" "bound demo_host = []" by (simp_all add: demo_host_def)
  with bind_random_port_terminates [of demo_host SOCK_STREAM] show ?thesis
    by (auto elim!: runs_to_mono split: if_splits)
qed

text \<open>C26. The handshake: the datagram that the client sends for \<open>n\<close> connections makes the server
  bind a new socket, start a thread that serves \<open>n\<close> connections on it, and reply; from that reply
  the client gets the port of the socket.\<close>

theorem handshake:
  assumes "0 \<le> n" and "n \<le> MAX_CONN"
    and "udp_in s fd = Packet client (request n) # rest" and "\<not> oom (image s) (Suc (next_addr (image s)))"
    and "\<not> sendto_fails s" and "\<not> in_use s SOCK_STREAM (port_address s k)"
    and "\<not> sendto_fails c"
  shows "\<exists>port reply. 256 \<le> unat port \<and>
    runs_to (server_round fd) s (\<lambda>_ s'. udp_out s' = udp_out s @ [(fd, client, reply)] \<and>
      bound s' = bound s @ [(next_fd s, \<lparr>sin_addr = 0, sin_port = htons port\<rparr>)] \<and>
      (\<exists>arg. threads s' = threads s @ [Serve_client arg] \<and> client_infos s' arg =
        Some \<lparr>ci_num_conn = word_of_int n, ci_sock_fd = next_fd s, ci_sock_port = uint port\<rparr>)) \<and>
    runs_to (udp_handshake addr p n) (c\<lparr>udp_in := (udp_in c)(next_fd c := [Packet server reply])\<rparr>)
      (\<lambda>q c'. q = ucast port \<and> (\<exists>servaddr. udp_out c' = udp_out c @ [(next_fd c, servaddr, request n)]))"
proof -
  obtain j where j: "\<not> in_use s SOCK_STREAM (port_address s j)" "\<forall>i < j. in_use s SOCK_STREAM (port_address s i)"
    using assms(6) exists_least_iff [of "\<lambda>k. \<not> in_use s SOCK_STREAM (port_address s k)"] by auto
  let ?port = "ntohs (sin_port (port_address s j))" let ?reply = "le16 (sin_port (port_address s j))"
  let ?c = "c\<lparr>udp_in := (udp_in c)(next_fd c := [Packet server ?reply])\<rparr>"
  have a: "port_address s j = \<lparr>sin_addr = 0, sin_port = htons ?port\<rparr>" by (simp add: port_address_def ntohs_def)
  note S = server_round_accepts [OF assms(3) request_acceptable(1) [OF assms(1,2)] assms(4,5) j,
      unfolded request_acceptable(2) [OF assms(1,2)]]
  have "udp_in ?c (next_fd ?c) = Packet server ?reply # []" "\<not> sendto_fails ?c" using assms(7) by simp_all
  note C = udp_handshake_law [OF this, of addr p n]
  have "runs_to (server_round fd) s (\<lambda>_ s'. udp_out s' = udp_out s @ [(fd, client, ?reply)] \<and>
      bound s' = bound s @ [(next_fd s, \<lparr>sin_addr = 0, sin_port = htons ?port\<rparr>)] \<and>
      (\<exists>arg. threads s' = threads s @ [Serve_client arg] \<and> client_infos s' arg =
        Some \<lparr>ci_num_conn = word_of_int n, ci_sock_fd = next_fd s, ci_sock_port = uint ?port\<rparr>))"
    by (rule runs_to_mono [OF S]) (use a in \<open>auto simp: Let_def\<close>)
  moreover have "runs_to (udp_handshake addr p n) ?c (\<lambda>q c'. q = ucast ?port \<and>
      (\<exists>servaddr. udp_out c' = udp_out c @ [(next_fd c, servaddr, request n)]))"
    using C by simp
  ultimately show ?thesis using port_address_range(1) [of s j] by blast
qed

lemma handshake_witness:
  "\<exists>reply. runs_to (server_round 3) (demo_host\<lparr>udp_in := (\<lambda>_. [Packet \<lparr>sin_addr = 1, sin_port = 2\<rparr> (request 2)])\<rparr>)
     (\<lambda>_ s'. udp_out s' = [(3, \<lparr>sin_addr = 1, sin_port = 2\<rparr>, reply)]) \<and>
   runs_to (udp_handshake ''server'' 4000 2) (demo_host\<lparr>udp_in := (\<lambda>_. [])(3 := [Packet \<lparr>sin_addr = 1, sin_port = 3\<rparr> reply])\<rparr>)
     (\<lambda>q c'. True)"
proof -
  let ?s = "demo_host\<lparr>udp_in := (\<lambda>_. [Packet \<lparr>sin_addr = 1, sin_port = 2\<rparr> (request 2)])\<rparr>"
  have "udp_in ?s 3 = Packet \<lparr>sin_addr = 1, sin_port = 2\<rparr> (request 2) # []" by simp
  from handshake [OF _ _ this, of 0 demo_host "''server''" 4000 "\<lparr>sin_addr = 1, sin_port = 3\<rparr>"]
  show ?thesis by (fastforce simp: demo_host_def mem0_def MAX_CONN_def elim: runs_to_mono)
qed

text \<open>C29. A datagram that does not ask for a number of connections between 0 and 5, or that is too short,
  or an error: the server sends no reply, binds no socket and starts no thread, and goes on with the
  next datagram. The record that it had allocated for the client is never freed.\<close>

theorem malformed_request_ignored:
  assumes "udp_in s fd = p # rest" and "\<not> oom (image s) (Suc (next_addr (image s)))"
    and "p = Recv_error \<or> (\<exists>client bs. p = Packet client bs \<and> \<not> acceptable bs)"
  shows "runs_to (server_round fd) s (\<lambda>_ s'. udp_in s' = (udp_in s)(fd := rest) \<and> udp_out s' = udp_out s \<and>
    bound s' = bound s \<and> threads s' = threads s \<and> client_infos s' (Suc (next_addr (image s))) \<noteq> None)"
  by (rule runs_to_mono [OF server_round_rejects [OF assms(1,2)]]) (use assms(3) in auto)

lemma malformed_request_ignored_witness:
  "runs_to (server_round 3) (demo_host\<lparr>udp_in := (\<lambda>_. [Packet \<lparr>sin_addr = 1, sin_port = 2\<rparr> [0, 0]])\<rparr>)
    (\<lambda>_ s'. threads s' = [])"
proof -
  let ?s = "demo_host\<lparr>udp_in := (\<lambda>_. [Packet \<lparr>sin_addr = 1, sin_port = 2\<rparr> [0, 0]])\<rparr>"
  have "udp_in ?s 3 = Packet \<lparr>sin_addr = 1, sin_port = 2\<rparr> [0, 0] # []" by simp
  from malformed_request_ignored [OF this] show ?thesis
    by (auto simp: demo_host_def mem0_def acceptable_def elim!: runs_to_mono)
qed

text \<open>C27. \<open>serve_client\<close> on a request for \<open>n\<close> connections: it makes an empty table of 256 buckets, and for
  each connection that it accepts an empty queue, a thread that sends from this queue, and a thread
  that reads into the table and hands finished buffers to \<open>bounce_buffer\<close> with the array of all
  queues; the queues are distinct, and the array holds them in the order of the connections.\<close>

theorem connections_set_up:
  assumes "well_formed (image s) F" and "client_infos s arg = Some ci" and "sint (ci_num_conn ci) = int n"
  shows "runs_to (serve_client arg) s (\<lambda>_ s'. listening s' = listening s @ [(ci_sock_fd ci, ci_sock_port ci)] \<and>
    (\<exists>ht qarr b cs. length cs = n \<and> serving s F ht qarr b n cs s'))"
  by (rule serve_client_law [OF assms])

lemma well_formed_mem0_host: "well_formed (image (demo_host\<lparr>client_infos := c\<rparr>)) Map.empty"
  using well_formed_mem0 [of "net_in mem0"] by (simp add: demo_host_def)

lemma connections_set_up_witness:
  "runs_to (serve_client 7) (demo_host\<lparr>client_infos := [7 \<mapsto> \<lparr>ci_num_conn = 2, ci_sock_fd = 4, ci_sock_port = 300\<rparr>]\<rparr>)
    (\<lambda>_ s'. listening s' = [(4, 300)] \<and> length (threads s') = 4)"
proof -
  let ?s = "demo_host\<lparr>client_infos := [7 \<mapsto> \<lparr>ci_num_conn = 2, ci_sock_fd = 4, ci_sock_port = 300\<rparr>]\<rparr>"
  have ci: "client_infos ?s 7 = Some \<lparr>ci_num_conn = 2, ci_sock_fd = 4, ci_sock_port = 300\<rparr>"
    "sint (ci_num_conn \<lparr>ci_num_conn = 2, ci_sock_fd = 4, ci_sock_port = 300\<rparr>) = int 2" by simp_all
  show ?thesis
    by (rule runs_to_mono [OF connections_set_up [OF well_formed_mem0_host ci]])
      (auto simp: serving_def demo_host_def length_Suc_conv numeral_2_eq_2)
qed

text \<open>C30. \<open>test_writing\<close> queues the first 210000 bytes of the input file, one buffer with tag 0, and nothing
  of what follows; the time of the start is taken.\<close>

theorem client_sends_file_prefix:
  assumes "sendable (image s) F" and "ptr_arrays (image s) qarr = Some (qs @ rest)"
    and "qs \<noteq> []" and "length qs < 2 ^ 24" and "set qs \<subseteq> dom F" and "\<not> fopen_fails (image s)"
    and "bs = take 210000 (files (image s) client_input)" and "length qs \<le> length bs"
  shows "runs_to (test_writing qarr (int (length qs))) s (\<lambda>_ s'.
    holding (image s') (deliver (plan qs (block_size_of qs bs) 0 (-1) bs) (wire (image s) F)) \<and>
    start_time s' = clock s (clock_reads s))"
  by (rule test_writing_law [OF assms])

lemma client_sends_file_prefix_witness:
  "runs_to (test_writing 3 2) (demo_host\<lparr>image := demo_writer\<lparr>files := (\<lambda>_. map Some [104, 105, 33])\<rparr>\<rparr>) (\<lambda>_ s'.
    holding (image s') (deliver (plan [1, 2] (block_size_of [1, 2] (map Some [104, 105, 33])) 0 (-1)
      (map Some [104, 105, 33])) [1 \<mapsto> [], 2 \<mapsto> []]))"
proof -
  let ?t = "demo_writer\<lparr>files := (\<lambda>_. map Some [104, 105, 33])\<rparr>"
  obtain F where F: "sendable demo_writer F" "[1 \<mapsto> [], 2 \<mapsto> []] = wire demo_writer F"
    using demo_writer_holding by (auto simp: holding_def)
  have "dom (wire demo_writer F) = dom F" by (auto simp: wire_def)
  then have d: "set [1, 2] \<subseteq> dom F" unfolding F(2) [symmetric] by auto
  let ?s = "demo_host\<lparr>image := ?t\<rparr>"
  have s: "sendable (image ?s) F" "ptr_arrays (image ?s) 3 = Some ([1, 2] @ [])" "\<not> fopen_fails (image ?s)"
    "map Some [104, 105, 33] = take 210000 (files (image ?s) client_input)" "wire (image ?s) F = [1 \<mapsto> [], 2 \<mapsto> []]"
    using F by (simp_all add: sendable_files) (simp_all add: demo_writer_def mem0_def)
  have "runs_to (test_writing 3 (int (length [1 :: addr, 2]))) ?s (\<lambda>_ s'.
    holding (image s') (deliver (plan [1, 2] (block_size_of [1, 2] (map Some [104, 105, 33])) 0 (-1)
      (map Some [104, 105, 33])) (wire (image ?s) F)) \<and> start_time s' = clock ?s (clock_reads ?s))"
    by (rule client_sends_file_prefix [OF s(1,2) _ _ d s(3,4)]) simp_all
  then show ?thesis unfolding s(5) by (auto elim: runs_to_mono)
qed

text \<open>\<open>get_time\<close> adds seconds and milliseconds: half a second after the start it gives 500, one second after
  the start it gives 1.\<close>

theorem elapsed_time_mixes_units:
  assumes "start_time s = (t, u)" and "clock s (clock_reads s) = (t + int sec, u + 1000 * int msec)"
    and "sec < 2 ^ 52" and "1000 * msec < 2 ^ 52"
  shows "runs_to get_time s (\<lambda>r s'. r = of_nat sec + of_nat msec)"
  by (rule get_time_law [OF assms])

lemma elapsed_time_mixes_units_witness:
  "runs_to get_time (demo_host\<lparr>clock := (\<lambda>_. (0, 500000))\<rparr>) (\<lambda>r s'. r = 500) \<and>
   runs_to get_time (demo_host\<lparr>clock := (\<lambda>_. (1, 0))\<rparr>) (\<lambda>r s'. r = 1)"
  using elapsed_time_mixes_units [of "demo_host\<lparr>clock := (\<lambda>_. (0, 500000))\<rparr>" 0 0 0 500]
    elapsed_time_mixes_units [of "demo_host\<lparr>clock := (\<lambda>_. (1, 0))\<rparr>" 0 0 1 0]
  by (simp add: demo_host_def)

text \<open>The address that \<open>open_tcp\<close> connects to, and what it does with the address of a network card.\<close>

definition server_address :: "host \<Rightarrow> string \<Rightarrow> 32 word \<Rightarrow> sockaddr_in" where
  "server_address s addr port =
     \<lparr>sin_addr = (case host_address s addr of None \<Rightarrow> -1 | Some w \<Rightarrow> w), sin_port = htons (ucast port)\<rparr>"

definition card_bound :: "int \<Rightarrow> string option \<Rightarrow> host \<Rightarrow> host" where
  "card_bound fd nic_addr s =
     (case nic_addr of None \<Rightarrow> s
      | Some nic \<Rightarrow>
          let a = \<lparr>sin_addr = the (host_address s nic), sin_port = htons 5000\<rparr> in
          if in_use s SOCK_STREAM a then s
          else s\<lparr>in_use := (in_use s)(SOCK_STREAM := (in_use s SOCK_STREAM)(a := True)), bound := bound s @ [(fd, a)]\<rparr>)"

lemma card_bound_simps:
  "refused (card_bound fd nic s) = refused s" "connects (card_bound fd nic s) = connects s"
  "connected (card_bound fd nic s) = connected s"
  by (simp_all add: card_bound_def Let_def split: option.splits)

lemma card_bound_connected:
  "(card_bound fd nic s)\<lparr>connects := n, connected := c\<rparr> = card_bound fd nic (s\<lparr>connects := n, connected := c\<rparr>)"
  by (simp add: card_bound_def Let_def split: option.splits)

lemma open_tcp_connects:
  assumes "\<not> (\<exists>nic. nic_addr = Some nic \<and> host_address s nic = None)"
  shows "open_tcp addr port nic_addr s = (case connect_loop (next_fd s) (server_address s addr port) (-1)
    (card_bound (next_fd s) nic_addr (s\<lparr>next_fd := next_fd s + 1\<rparr>)) of
      Inl e \<Rightarrow> Inl e | Inr (r, s') \<Rightarrow> Inr ((r, next_fd s), s'))"
  using assms
  by (cases nic_addr) (auto simp: open_tcp_def sys_socket_def sys_bind_def prog_defs Let_def server_address_def card_bound_def
      split: option.splits sum.splits prod.splits)

text \<open>C31. \<open>open_tcp\<close> for the address of a network card, as the client calls it, or without one. It makes one
  socket. When the address of the card is none, it returns -1 and does nothing else. Otherwise it binds
  the socket to the card at port 5000, if that is free, and connects it to the given server and port:
  it tries again as often as the attempts are refused and no more, and for ever when all of them are.\<close>

theorem open_tcp_retries:
  "if \<exists>nic. nic_addr = Some nic \<and> host_address s nic = None
   then open_tcp addr port nic_addr s = Inr ((-1, next_fd s), s\<lparr>next_fd := next_fd s + 1\<rparr>)
   else if \<forall>k. refused s (connects s + k) then open_tcp addr port nic_addr s = Inl Diverges
   else runs_to (open_tcp addr port nic_addr) s (\<lambda>(r, fd) s'. r = 0 \<and> fd = next_fd s \<and>
     (\<exists>k. \<not> refused s (connects s + k) \<and> (\<forall>j < k. refused s (connects s + j)) \<and>
       s' = card_bound fd nic_addr (s\<lparr>next_fd := fd + 1, connects := connects s + Suc k,
         connected := connected s @ [(fd, server_address s addr port)]\<rparr>)))"
proof (cases "\<exists>nic. nic_addr = Some nic \<and> host_address s nic = None")
  case True
  then show ?thesis by (auto simp: open_tcp_def sys_socket_def prog_defs Let_def)
next
  case False
  let ?s = "card_bound (next_fd s) nic_addr (s\<lparr>next_fd := next_fd s + 1\<rparr>)"
  note run = open_tcp_connects [OF False, of addr port]
  show ?thesis
  proof (cases "\<forall>k. refused s (connects s + k)")
    case all: True
    then have "connect_loop (next_fd s) (server_address s addr port) (-1) ?s = Inl Diverges"
      by (intro connect_loop_diverges) (simp add: card_bound_simps)
    then show ?thesis using False all run by simp
  next
    case some: False
    then obtain k where k: "\<not> refused s (connects s + k)" "\<forall>j < k. refused s (connects s + j)"
      using exists_least_iff [of "\<lambda>k. \<not> refused s (connects s + k)"] by auto
    have "connect_loop (next_fd s) (server_address s addr port) (-1) ?s = Inr (0, ?s\<lparr>connects := connects ?s + Suc k,
        connected := connected ?s @ [(next_fd s, server_address s addr port)]\<rparr>)"
      by (rule connect_loop_law) (use k in \<open>simp_all add: card_bound_simps\<close>)
    then have "open_tcp addr port nic_addr s = Inr ((0, next_fd s), card_bound (next_fd s) nic_addr
        (s\<lparr>next_fd := next_fd s + 1, connects := connects s + Suc k,
          connected := connected s @ [(next_fd s, server_address s addr port)]\<rparr>))"
      using run by (simp add: card_bound_simps card_bound_connected)
    then show ?thesis using False some k by (auto simp: runs_to_def)
  qed
qed

text \<open>Five refused attempts and a card with an address; a card without one.\<close>

lemma open_tcp_retries_witness:
  "runs_to (open_tcp ''server'' 4000 (Some ''nic'')) (demo_host\<lparr>refused := (\<lambda>n. n < 5)\<rparr>) (\<lambda>(r, fd) s'. r = 0 \<and> fd = 3 \<and>
     connects s' = 6 \<and> map fst (connected s') = [3] \<and> map fst (bound s') = [3]) \<and>
   open_tcp ''server'' 4000 (Some ''nic'') (demo_host\<lparr>host_address := (\<lambda>_. None)\<rparr>) =
     Inr ((-1, 3), demo_host\<lparr>host_address := (\<lambda>_. None), next_fd := 4\<rparr>)"
proof
  let ?s = "demo_host\<lparr>refused := (\<lambda>n. n < 5)\<rparr>"
  have some: "\<not> (\<exists>nic. Some ''nic'' = Some nic \<and> host_address ?s nic = None)" "\<not> (\<forall>k. refused ?s (connects ?s + k))"
    by (simp_all add: demo_host_def) (meson less_irrefl)
  show "runs_to (open_tcp ''server'' 4000 (Some ''nic'')) ?s (\<lambda>(r, fd) s'. r = 0 \<and> fd = 3 \<and>
     connects s' = 6 \<and> map fst (connected s') = [3] \<and> map fst (bound s') = [3])"
  proof (rule runs_to_mono [OF open_tcp_retries [of "Some ''nic''" ?s "''server''" 4000, unfolded if_not_P [OF some(1)] if_not_P [OF some(2)]]],
      clarify)
    fix r fd s' k
    assume k: "\<not> refused ?s (connects ?s + k)" "\<forall>j < k. refused ?s (connects ?s + j)"
    have "\<not> k < 5" "\<forall>j < k. j < 5" using k by (simp_all add: demo_host_def)
    then have "k = 5" by (metis linorder_neqE_nat less_irrefl)
    then show "0 = (0 :: int) \<and> next_fd ?s = 3 \<and> connects (card_bound (next_fd ?s) (Some ''nic'') (?s\<lparr>next_fd := next_fd ?s + 1,
        connects := connects ?s + Suc k, connected := connected ?s @ [(next_fd ?s, server_address ?s ''server'' 4000)]\<rparr>)) = 6 \<and>
      map fst (connected (card_bound (next_fd ?s) (Some ''nic'') (?s\<lparr>next_fd := next_fd ?s + 1,
        connects := connects ?s + Suc k, connected := connected ?s @ [(next_fd ?s, server_address ?s ''server'' 4000)]\<rparr>))) = [3] \<and>
      map fst (bound (card_bound (next_fd ?s) (Some ''nic'') (?s\<lparr>next_fd := next_fd ?s + 1,
        connects := connects ?s + Suc k, connected := connected ?s @ [(next_fd ?s, server_address ?s ''server'' 4000)]\<rparr>))) = [3]"
      by (simp add: card_bound_def Let_def demo_host_def)
  qed
  show "open_tcp ''server'' 4000 (Some ''nic'') (demo_host\<lparr>host_address := (\<lambda>_. None)\<rparr>) =
     Inr ((-1, 3), demo_host\<lparr>host_address := (\<lambda>_. None), next_fd := 4\<rparr>)"
    using open_tcp_retries [of "Some ''nic''" "demo_host\<lparr>host_address := (\<lambda>_. None)\<rparr>"] by (simp add: demo_host_def)
qed

text \<open>The client ends with exit code 1 when it is called with too few arguments, and when the server
  does not answer its datagram within three seconds.\<close>

theorem client_exits_without_server:
  assumes "length argv < 4 \<or> udp_in s (next_fd s) = [] \<and> atoi (argv ! 2) = ret port"
  shows "client_main argv s = Inl (Exit 1)"
  using assms
proof (elim disjE conjE)
  assume u: "udp_in s (next_fd s) = []" and port: "atoi (argv ! 2) = ret port"
  have "udp_handshake addr p n (s\<lparr>image := t\<rparr>) = Inl (Exit 1)" for addr p n t
    using u by (simp add: udp_handshake_def open_udp_def sys_socket_def send_udp_def recieve_udp_def
        sys_recvfrom_def prog_defs Let_def)
  then show ?thesis
    by (simp add: client_main_def port bnd_ret Let_def) (simp add: halt_def seq_def bnd_def lift_def modifies_def)
qed (simp add: client_main_def halt_def)

lemma client_exits_without_server_witness:
  "client_main [''client''] demo_host = Inl (Exit 1) \<and>
   client_main [''client'', ''server'', ''4000'', ''nic''] demo_host = Inl (Exit 1)"
proof
  show "client_main [''client''] demo_host = Inl (Exit 1)"
    by (rule client_exits_without_server [where port = 0]) simp
  have "atoi ''4000'' = (ret 4000 :: (host, int) prog)" by (simp add: atoi_def in_int_def Let_def)
  then show "client_main [''client'', ''server'', ''4000'', ''nic''] demo_host = Inl (Exit 1)"
    by (intro client_exits_without_server [where port = 4000]) (simp add: demo_host_def)
qed

end
