(* ===== verification/EndToEnd.thy ===== *)
theory EndToEnd
  imports ReaderSpec Sender
begin

text \<open>
  Both ends together: a series of buffers is cut into blocks, the blocks are queued, sent on
  several connections at once, and put together again by the process at the other end.
\<close>

section \<open>The sending side\<close>

text \<open>
  A sender of several buffers calls \<open>multiplex_write_queues\<close> for each, with the same \<open>next_tag\<close>.
  In \<open>sender_turns\<close> the list says which connection's thread does a round of \<open>listen_for_blocks\<close>.
\<close>

fun write_buffers :: "addr \<Rightarrow> int \<Rightarrow> (addr \<times> int) list \<Rightarrow> int \<Rightarrow> (mem, unit) prog" where
  "write_buffers qarr n [] next_tag = ret ()"
| "write_buffers qarr n ((buffer, len) # bs) next_tag =
     bnd (multiplex_write_queues qarr n buffer len next_tag) (write_buffers qarr n bs)"

fun sender_turns :: "addr list \<Rightarrow> int list \<Rightarrow> nat list \<Rightarrow> (mem, unit) prog" where
  "sender_turns qs fds [] = ret ()"
| "sender_turns qs fds (k # ks) = seq (listen_round (qs ! k) (fds ! k)) (sender_turns qs fds ks)"

text \<open>Each buffer has the tag that counts it, and the tag before as its predecessor.\<close>

definition cut_size :: "addr list \<Rightarrow> 8 word option list \<Rightarrow> nat" where
  "cut_size qs bs = nat (the (choose_unif_size (int (length bs)) (int (length qs))))"

fun plans :: "addr list \<Rightarrow> nat \<Rightarrow> 8 word option list list \<Rightarrow> (addr \<times> 8 word option list) list" where
  "plans qs k [] = []"
| "plans qs k (bs # bss) = plan qs (cut_size qs bs) (int k) (int k - 1) bs @ plans qs (Suc k) bss"

definition sendable_buffer :: "addr list \<Rightarrow> 8 word option list \<Rightarrow> bool" where
  "sendable_buffer qs bs \<longleftrightarrow> length qs \<le> length bs \<and> length bs + 16384 < 2 ^ 31"

lemma cut_size_law:
  assumes "sendable_buffer qs bs" and "qs \<noteq> []" and "length qs < 2 ^ 24"
  shows "choose_unif_size (int (length bs)) (int (length qs)) = Some (int (cut_size qs bs)) \<and> 0 < cut_size qs bs \<and> cut_size qs bs \<le> 16384"
proof -
  obtain i where "choose_unif_size (int (length bs)) (int (length qs)) = Some i" "0 < i" "i \<le> BLOCK_SIZE"
    using choose_unif_size_law [of "int (length qs)" "int (length bs)"] assms by (auto simp: sendable_buffer_def)
  then show ?thesis by (simp add: cut_size_def BLOCK_SIZE_def)
qed

lemma write_buffers_law:
  assumes "holding c W" and "set qs \<subseteq> dom W" and "length qs < 2 ^ 24"
    and "list_all2 (\<lambda>(p, n) bs. writer_ready c qarr qs p bs \<and> n = int (length bs) \<and> sendable_buffer qs bs) ptrs bufs"
    and "k + length bufs < 2 ^ 31"
  shows "runs_to (write_buffers qarr (int (length qs)) ptrs (int k - 1)) c (\<lambda>_ c'.
    holding c' (deliver (plans qs k bufs) W) \<and> wr_frame c c')"
  using assms
proof (induction bufs arbitrary: ptrs c W k)
  case Nil
  then show ?case by (simp add: wp)
next
  case (Cons bs bufs)
  from Cons.prems(4) obtain p n ptrs' where ptrs: "ptrs = (p, n) # ptrs'" and r: "writer_ready c qarr qs p bs"
    "n = int (length bs)" "sendable_buffer qs bs"
    and rs: "list_all2 (\<lambda>(p, n) bs. writer_ready c qarr qs p bs \<and> n = int (length bs) \<and> sendable_buffer qs bs) ptrs' bufs"
    by (auto simp: list_all2_Cons2)
  then have qs: "qs \<noteq> []" by (simp add: writer_ready_def)
  note u = cut_size_law [OF r(3) qs assms(3)]
  have len: "length bs + 16384 < 2 ^ 31" using r(3) by (simp add: sendable_buffer_def)
  have t: "in_int (int k - 1 + 1)" using Cons.prems(5) by (simp add: in_int_def)
  have u': "choose_unif_size (int (length bs)) (int (length qs)) = Some (int (cut_size qs bs))"
    "bs \<noteq> [] \<longrightarrow> 0 < cut_size qs bs" "cut_size qs bs \<le> 16384" using u by simp_all
  show ?case
    unfolding ptrs write_buffers.simps runs_to_bnd r(2)
  proof (rule runs_to_mono [OF multiplex_write_queues_law [OF Cons.prems(1,2) r(1) u'(1) u'(2,3) len t keeps_True le0]],
      elim conjE)
    fix tag c1
    assume c1: "tag = int k - 1 + 1" "wr_frame c c1"
      "holding c1 (deliver (plan qs (cut_size qs bs) (int k - 1 + 1) (int k - 1) bs) W)"
    have "list_all2 (\<lambda>(p, n) bs. writer_ready c1 qarr qs p bs \<and> n = int (length bs) \<and> sendable_buffer qs bs) ptrs' bufs"
      by (rule list_all2_mono [OF rs]) (use writer_ready_frame [OF _ c1(2)] in auto)
    moreover have "set qs \<subseteq> dom (deliver (plan qs (cut_size qs bs) (int k - 1 + 1) (int k - 1) bs) W)"
      using Cons.prems(2) deliver_dom by blast
    ultimately
    have "runs_to (write_buffers qarr (int (length qs)) ptrs' tag) c1 (\<lambda>_ c'.
        holding c' (deliver (plans qs (Suc k) bufs) (deliver (plan qs (cut_size qs bs) (int k) (int k - 1) bs) W)) \<and>
        wr_frame c1 c')"
      using Cons.IH [OF c1(3) _ assms(3), of ptrs' "Suc k"] Cons.prems(5) c1(1) by simp
    then show "runs_to (write_buffers qarr (int (length qs)) ptrs' tag) c1 (\<lambda>_ c'.
        holding c' (deliver (plans qs k (bs # bufs)) W) \<and> wr_frame c c')"
      by (rule runs_to_mono) (use wr_frame_trans [OF c1(2)] in \<open>simp add: deliver_append\<close>)
  qed
qed

text \<open>The sending threads in any order of turns, until the queues are empty.\<close>

lemma sender_turns_law:
  assumes "holding s W" and "length fds = length qs" and "distinct qs" and "distinct fds"
    and "\<forall>k \<in> set ks. k < length qs"
    and "\<forall>i < length qs. W (qs ! i) = Some (B i) \<and> count_list ks i = length (B i) \<and> (\<forall>b \<in> set (B i). length b < 2 ^ 31)"
    and "\<forall>k. 2 ^ 31 \<le> send_limits s k"
  shows "runs_to (sender_turns qs fds ks) s (\<lambda>_ s'. \<forall>i < length qs.
    net_out s' (fds ! i) = net_out s (fds ! i) @ concat (B i))"
  using assms
proof (induction ks arbitrary: s W B)
  case Nil
  then show ?case by (simp add: wp)
next
  case (Cons k ks)
  have k: "k < length qs" using Cons.prems(5) by simp
  with Cons.prems(6) have Wk: "W (qs ! k) = Some (B k)" "Suc (count_list ks k) = length (B k)" by auto
  then obtain b bs where B: "B k = b # bs" by (cases "B k") auto
  have b: "length b < 2 ^ 31" using Cons.prems(6) k B by fastforce
  have lim: "2 ^ 31 \<le> send_limits s (sends s)" using Cons.prems(7) by blast
  then have "int (length b) \<le> send_limits s (sends s)" using b by simp
  then have all: "accepted s b = b" unfolding accepted_def by (intro take_all) linarith
  show ?case
    unfolding sender_turns.simps runs_to_seq
  proof (rule runs_to_mono [OF listen_round_law [OF Cons.prems(1) Wk(1)[unfolded B] b]], elim conjE)
    fix x s1
    assume s1: "holding s1 (W(qs ! k \<mapsto> bs))" "send_limits s1 = send_limits s"
      "net_out s1 = (net_out s)(fds ! k := net_out s (fds ! k) @ accepted s b)"
    have ne: "qs ! i \<noteq> qs ! k" "fds ! i \<noteq> fds ! k" if "i < length qs" "i \<noteq> k" for i
      using that k Cons.prems(2-4) by (simp_all add: nth_eq_iff_index_eq)
    have "\<forall>i < length qs. (W(qs ! k \<mapsto> bs)) (qs ! i) = Some ((B(k := bs)) i) \<and>
        count_list ks i = length ((B(k := bs)) i) \<and> (\<forall>b \<in> set ((B(k := bs)) i). length b < 2 ^ 31)"
      using Cons.prems(6) Wk(2) B ne by (auto split: if_splits)
    from Cons.IH [OF s1(1) Cons.prems(2-4) _ this] Cons.prems(5,7) s1(2)
    have "runs_to (sender_turns qs fds ks) s1 (\<lambda>_ s'. \<forall>i < length qs.
        net_out s' (fds ! i) = net_out s1 (fds ! i) @ concat ((B(k := bs)) i))" by simp
    then show "runs_to (sender_turns qs fds ks) s1 (\<lambda>_ s'. \<forall>i < length qs.
        net_out s' (fds ! i) = net_out s (fds ! i) @ concat (B i))"
      by (rule runs_to_mono) (use s1(3) B ne all in auto)
  qed
qed


section \<open>The turns of the receiving side\<close>

text \<open>\<open>merge_turns fds L\<close>: the elements of the lists \<open>L\<close> in the order in which the turns \<open>fds\<close> take
  them.\<close>

fun merge_turns :: "int list \<Rightarrow> (int \<Rightarrow> 'a list) \<Rightarrow> 'a list" where
  "merge_turns [] L = []"
| "merge_turns (fd # fds) L = hd (L fd) # merge_turns fds (L(fd := tl (L fd)))"

lemma turns_step:
  assumes "\<forall>k. count_list (fd # fds) k = length (L k)"
  shows "L fd = hd (L fd) # tl (L fd)" and "\<forall>k. count_list fds k = length ((L(fd := tl (L fd))) k)"
proof -
  have "Suc (count_list fds fd) = length (L fd)" using assms by (metis count_list.simps(2) add.commute plus_1_eq_Suc)
  then show "L fd = hd (L fd) # tl (L fd)" by (cases "L fd") auto
  show "\<forall>k. count_list fds k = length ((L(fd := tl (L fd))) k)"
  proof
    fix k show "count_list fds k = length ((L(fd := tl (L fd))) k)"
      using assms [rule_format, of k] by (auto split: if_splits)
  qed
qed

lemma length_merge_turns [simp]: "length (merge_turns fds L) = length fds"
  by (induction fds arbitrary: L) auto

lemma merge_turns_map:
  "\<forall>k. count_list fds k = length (L k) \<Longrightarrow> map g (merge_turns fds L) = merge_turns fds (\<lambda>k. map g (L k))"
proof (induction fds arbitrary: L)
  case (Cons fd fds)
  note st = turns_step [OF Cons.prems]
  have "(\<lambda>k. map g ((L(fd := tl (L fd))) k)) = (\<lambda>k. map g (L k))(fd := tl (map g (L fd)))"
    by (simp add: fun_eq_iff map_tl)
  moreover have "hd (map g (L fd)) = g (hd (L fd))" using st(1) by (metis list.map_sel(1) list.discI)
  ultimately show ?case using Cons.IH [OF st(2)] by (simp del: fun_upd_apply)
qed simp

lemma carried_merge_turns:
  "\<forall>k. count_list fds k = length (L k) \<Longrightarrow> carried fd fds (merge_turns fds L) = concat (L fd)"
proof (induction fds arbitrary: L)
  case Nil
  then show ?case by simp
next
  case (Cons k fds)
  note st = turns_step [OF Cons.prems]
  show ?case
  proof (cases "k = fd")
    case True
    then have "carried fd (k # fds) (merge_turns (k # fds) L) = hd (L fd) @ concat (tl (L fd))"
      using Cons.IH [OF st(2)] by (simp del: fun_upd_apply) (simp add: fun_upd_same)
    also have "\<dots> = concat (L fd)" using st(1) True by (metis concat.simps(2))
    finally show ?thesis .
  next
    case False
    then show ?thesis using Cons.IH [OF st(2)] by (simp del: fun_upd_apply) simp
  qed
qed

lemma set_merge_turns:
  "\<forall>k. count_list fds k = length (L k) \<Longrightarrow> set (merge_turns fds L) = (\<Union>k. set (L k))"
proof (induction fds arbitrary: L)
  case (Cons fd fds)
  note st = turns_step [OF Cons.prems]
  have "(\<Union>k. set (L k)) = insert (hd (L fd)) (\<Union>k. set ((L(fd := tl (L fd))) k))"
  proof -
    have "set (L fd) = insert (hd (L fd)) (set (tl (L fd)))" using st(1) by (metis list.simps(15))
    then have "set (L k) \<subseteq> insert (hd (L fd)) (set ((L(fd := tl (L fd))) k))"
      "set ((L(fd := tl (L fd))) k) \<subseteq> set (L k)" "hd (L fd) \<in> set (L fd)" for k by auto
    then show ?thesis by blast
  qed
  with Cons.IH [OF st(2)] show ?case by (simp del: fun_upd_apply)
qed simp

lemma distinct_merge_turns:
  "\<forall>k. count_list fds k = length (L k) \<Longrightarrow> \<forall>k. distinct (L k) \<Longrightarrow>
    \<forall>j k. j \<noteq> k \<longrightarrow> set (L j) \<inter> set (L k) = {} \<Longrightarrow> distinct (merge_turns fds L)"
proof (induction fds arbitrary: L)
  case (Cons fd fds)
  note st = turns_step [OF Cons.prems(1)]
  let ?L = "L(fd := tl (L fd))"
  have sub: "set (?L k) \<subseteq> set (L k)" for k using st(1) by (metis fun_upd_apply set_subset_Cons subset_refl)
  have "\<forall>k. distinct (?L k)" using Cons.prems(2) by (simp add: distinct_tl)
  moreover have "\<forall>j k. j \<noteq> k \<longrightarrow> set (?L j) \<inter> set (?L k) = {}" using Cons.prems(3) sub by blast
  moreover have "hd (L fd) \<notin> set (?L k)" for k
  proof (cases "k = fd")
    case True
    have "distinct (hd (L fd) # tl (L fd))" using Cons.prems(2) st(1) by metis
    with True show ?thesis by simp
  next
    case False
    have "hd (L fd) \<in> set (L fd)" using st(1) by (metis list.set_intros(1))
    with False Cons.prems(3) show ?thesis by auto
  qed
  ultimately show ?case using Cons.IH [OF st(2)] set_merge_turns [OF st(2)] by (simp del: fun_upd_apply)
qed simp

section \<open>What a connection carries\<close>

text \<open>A byte that the sender did not initialise arrives as any byte.\<close>

definition agrees :: "8 word option \<Rightarrow> 8 word \<Rightarrow> bool" where
  "agrees x w \<longleftrightarrow> x = None \<or> x = Some w"

lemma agrees_Some: "list_all2 agrees (map Some xs) ws \<longleftrightarrow> ws = xs"
proof
  assume "list_all2 agrees (map Some xs) ws"
  then show "ws = xs" by (auto simp: list_all2_conv_all_nth agrees_def intro: nth_equalityI)
qed (simp add: list_all2_conv_all_nth agrees_def)

lemma agrees_concat:
  "list_all2 agrees (concat xss) ws \<Longrightarrow> \<exists>wss. ws = concat wss \<and> list_all2 (list_all2 agrees) xss wss"
proof (induction xss arbitrary: ws)
  case (Cons xs xss)
  then obtain us vs where "ws = us @ vs" "list_all2 agrees xs us" "list_all2 agrees (concat xss) vs"
    by (auto simp: list_all2_append1)
  with Cons.IH [OF this(3)] show ?case by (metis concat.simps(2) list_all2_Cons)
qed simp

text \<open>\<open>linked\<close>: what was sent on the connections \<open>cfds\<close> of the one process is what will arrive on the
  connections \<open>sfds\<close> of the other, in any segments.\<close>

definition linked :: "mem \<Rightarrow> int list \<Rightarrow> mem \<Rightarrow> int list \<Rightarrow> bool" where
  "linked c cfds s sfds \<longleftrightarrow> (\<forall>i < length cfds. clean s (sfds ! i) \<and>
     list_all2 agrees (net_out c (cfds ! i)) (pending s (sfds ! i)))"

section \<open>The blocks by name\<close>

fun sent :: "(nat \<Rightarrow> nat) \<Rightarrow> block_id \<Rightarrow> 8 word option list" where
  "sent len (Init k) = init_bytes (int k) (int k - 1) (len k)"
| "sent len (Piece k p) = data_bytes (int k) p"

fun plan_ids :: "addr list \<Rightarrow> nat \<Rightarrow> 8 word option list list \<Rightarrow> (addr \<times> block_id) list" where
  "plan_ids qs k [] = []"
| "plan_ids qs k (bs # bss) = (last qs, Init k) #
     map (\<lambda>p. (qs ! (fst p mod length qs), Piece k p)) (chunks (cut_size qs bs) 0 bs) @ plan_ids qs (Suc k) bss"

definition ids_on :: "addr list \<Rightarrow> 8 word option list list \<Rightarrow> addr \<Rightarrow> block_id list" where
  "ids_on qs bufs q = map snd (filter (\<lambda>x. fst x = q) (plan_ids qs 0 bufs))"

lemma plans_ids:
  "plans qs k (drop k bufs) = map (\<lambda>(q, b). (q, sent (\<lambda>j. length (bufs ! j)) b)) (plan_ids qs k (drop k bufs))"
proof (induction "length bufs - k" arbitrary: k)
  case (Suc n)
  then have d: "drop k bufs = bufs ! k # drop (Suc k) bufs" by (simp add: Cons_nth_drop_Suc)
  have "n = length bufs - Suc k" using Suc.hyps(2) by simp
  from Suc.hyps(1) [OF this] show ?case by (simp add: d plan_def data_plan_def)
qed simp

lemma plan_ids_all:
  assumes "u = (\<lambda>j. cut_size qs (bufs ! j))"
  shows "snd ` set (plan_ids qs k (drop k bufs)) =
      (\<Union>j \<in> {k..<length bufs}. {Init j} \<union> Piece j ` set (pieces_of bufs u j)) \<and>
    distinct (map snd (plan_ids qs k (drop k bufs)))"
proof (induction "length bufs - k" arbitrary: k)
  case (Suc n)
  then have d: "drop k bufs = bufs ! k # drop (Suc k) bufs" by (simp add: Cons_nth_drop_Suc)
  have iv: "{k..<length bufs} = insert k {Suc k..<length bufs}" using Suc.hyps(2) by auto
  have "n = length bufs - Suc k" using Suc.hyps(2) by simp
  note IH = Suc.hyps(1) [OF this]
  have c: "chunks (cut_size qs (bufs ! k)) 0 (bufs ! k) = pieces_of bufs u k" by (simp add: pieces_of_def assms)
  have "distinct (map (\<lambda>p. Piece k p) (pieces_of bufs u k))"
    using distinct_pieces_of [of bufs u k] by (simp add: distinct_map inj_on_def)
  then show ?case using IH by (auto simp: d c iv image_Un image_image comp_def)
qed simp

lemma deliver_filter:
  "W q = Some xs \<Longrightarrow> deliver ps W q = Some (xs @ map snd (filter (\<lambda>p. fst p = q) ps))"
proof (induction ps arbitrary: W xs)
  case (Cons p ps)
  let ?W = "W(fst p \<mapsto> the (W (fst p)) @ [snd p])"
  have "?W q = Some (if fst p = q then xs @ [snd p] else xs)" using Cons.prems by auto
  from Cons.IH [of ?W, OF this] show ?case by (auto simp del: fun_upd_apply)
qed simp

lemma queue_blocks:
  assumes "W q = Some []"
  shows "deliver (plans qs 0 bufs) W q = Some (map (sent (\<lambda>j. length (bufs ! j))) (ids_on qs bufs q))"
  using deliver_filter [of W, OF assms, of "plans qs 0 bufs"] plans_ids [of qs 0 bufs]
  by (simp add: ids_on_def filter_map comp_def split_def)

lemma plan_ids_queues: "qs \<noteq> [] \<Longrightarrow> x \<in> set (plan_ids qs k bss) \<Longrightarrow> fst x \<in> set qs"
  by (induction qs k bss rule: plan_ids.induct) auto

lemma chunks_Some:
  assumes "p \<in> set (chunks u 0 (map Some xs))" and "0 < u"
  shows "\<exists>ys. snd p = map Some ys"
proof -
  have "set (snd p) \<subseteq> set (concat (map snd (chunks u 0 (map Some xs))))" using assms(1) by auto
  then have "set (snd p) \<subseteq> range Some" using concat_chunks [OF assms(2), of 0 "map Some xs"] by auto
  then have "snd p \<in> lists (range Some)" by auto
  then show ?thesis by (simp add: lists_image image_iff)
qed

lemma ids_on_all:
  assumes "qs \<noteq> []" and "distinct qs" and "u = (\<lambda>j. cut_size qs (bufs ! j))"
  shows "(\<Union>q \<in> set qs. set (ids_on qs bufs q)) = all_blocks bufs u"
    and "distinct (ids_on qs bufs q)"
    and "q \<noteq> q' \<Longrightarrow> set (ids_on qs bufs q) \<inter> set (ids_on qs bufs q') = {}"
proof -
  note P = plan_ids_all [OF assms(3), of 0, simplified]
  have "(\<Union>q \<in> set qs. set (ids_on qs bufs q)) = snd ` set (plan_ids qs 0 bufs)"
  proof
    show "snd ` set (plan_ids qs 0 bufs) \<subseteq> (\<Union>q \<in> set qs. set (ids_on qs bufs q))"
    proof
      fix b assume "b \<in> snd ` set (plan_ids qs 0 bufs)"
      then obtain x where x: "x \<in> set (plan_ids qs 0 bufs)" "b = snd x" by blast
      then have "b \<in> set (ids_on qs bufs (fst x))" by (simp add: ids_on_def)
      with plan_ids_queues [OF assms(1) x(1)] show "b \<in> (\<Union>q \<in> set qs. set (ids_on qs bufs q))" by blast
    qed
  qed (auto simp: ids_on_def)
  with P show "(\<Union>q \<in> set qs. set (ids_on qs bufs q)) = all_blocks bufs u"
    by (simp add: all_blocks_def lessThan_atLeast0)
  have d: "distinct (map snd (plan_ids qs 0 bufs))" using P by blast
  then show "distinct (ids_on qs bufs q)" unfolding ids_on_def by (rule distinct_map_filter)
  have "inj_on snd (set (plan_ids qs 0 bufs))" using d by (simp add: distinct_map)
  then show "q \<noteq> q' \<Longrightarrow> set (ids_on qs bufs q) \<inter> set (ids_on qs bufs q') = {}"
    by (auto simp: ids_on_def dest: inj_onD)
qed

text \<open>The bytes that arrive for a block, with some padding.\<close>

lemma sent_arrives:
  assumes ws: "list_all2 agrees (sent (\<lambda>j. length (bufs ! j)) b) ws"
    and b: "b \<in> all_blocks bufs u" and bufs: "bufs = map (map Some) data" and u: "\<forall>k < length bufs. 0 < u k"
    and pad: "\<And>k. b = Init k \<Longrightarrow> pad k = drop 21 (map Some ws)"
  shows "map Some ws = block_of bufs pad b"
proof (cases b)
  case (Init k)
  let ?h = "init_block_bytes \<lparr>ib_block_size = 24, ib_flag = -1, ib_buffer_size = of_nat (length (bufs ! k)),
      ib_tag = of_nat k, ib_prev_tag = prev_word k, ib_last_block = False\<rparr>"
  obtain h where h: "?h = map Some h" unfolding init_block_bytes_def by blast
  from ws have "list_all2 agrees (?h @ replicate 3 None) ws"
    by (simp add: Init init_bytes_def prev_word_def)
  then obtain vs where vs: "ws = h @ vs" "length vs = 3"
    unfolding h list_all2_append1 agrees_Some by (auto dest: list_all2_lengthD)
  have "length h = 21" using h by (metis length_init_block_bytes length_map)
  then have "pad k = map Some vs" "length ws = 24" using pad [OF Init] vs by simp_all
  then show ?thesis by (simp add: Init h vs)
next
  case (Piece k p)
  with b have k: "k < length bufs" and p: "p \<in> set (pieces_of bufs u k)" by (auto simp: all_blocks_def)
  then obtain ys where ys: "snd p = map Some ys"
    using chunks_Some [of p "u k" "data ! k"] u by (auto simp: pieces_of_def bufs)
  obtain h where "data_block_bytes \<lparr>db_block_size = of_nat (12 + length (snd p)), db_seq_number = of_nat (fst p),
      db_tag = word_of_int (int k)\<rparr> = map Some h" unfolding data_block_bytes_def by blast
  then have xs: "data_bytes (int k) p = map Some (h @ ys)" by (simp add: data_bytes_def ys)
  from ws have "ws = h @ ys" unfolding Piece sent.simps xs agrees_Some .
  then show ?thesis by (simp add: Piece xs)
qed

text \<open>What is on the wire when the queues have been sent and the turns take every block.\<close>

lemma linked_on_the_wire:
  assumes bufs: "bufs = map (map Some) data" "length bufs \<le> 768" "\<forall>bs \<in> set bufs. sendable_buffer qs bs"
    and qs: "qs \<noteq> []" "length qs < 2 ^ 24" "distinct qs"
    and fd: "length cfds = length qs" "length sfds = length qs" "distinct sfds"
    and out: "\<forall>i < length qs. net_out c (cfds ! i) = concat (map (sent (\<lambda>j. length (bufs ! j))) (ids_on qs bufs (qs ! i)))"
    and link: "linked c cfds s sfds"
    and turns: "set fds \<subseteq> set sfds" "\<forall>i < length qs. count_list fds (sfds ! i) = length (ids_on qs bufs (qs ! i))"
  defines "u \<equiv> \<lambda>j. cut_size qs (bufs ! j)"
  shows "\<exists>pad ids blks. on_the_wire bufs u pad ids blks fds s \<and> set ids = all_blocks bufs u"
proof -
  let ?n = "length qs" let ?sent = "sent (\<lambda>j. length (bufs ! j))" let ?ids = "\<lambda>i. ids_on qs bufs (qs ! i)"
  have ok: "\<forall>k < length bufs. 0 < u k \<and> u k \<le> 16384"
    using cut_size_law [OF _ qs(1,2)] bufs(3) by (simp add: u_def)
  have st: "stream_ok bufs u"
    using ok bufs(2,3) qs(1) by (fastforce simp: stream_ok_def sendable_buffer_def dest: nth_mem)
  have "u = (\<lambda>j. cut_size qs (bufs ! j))" by (simp add: u_def)
  note ids = ids_on_all [OF qs(1,3) this]
  have "\<exists>wss. pending s (sfds ! i) = concat wss \<and> list_all2 (list_all2 agrees) (map ?sent (?ids i)) wss" if "i < ?n" for i
    using link that out agrees_concat by (simp add: linked_def fd)
  then obtain W where W: "\<And>i. i < ?n \<Longrightarrow> pending s (sfds ! i) = concat (W i)"
    "\<And>i. i < ?n \<Longrightarrow> list_all2 (list_all2 agrees) (map ?sent (?ids i)) (W i)" by metis
  define L where "L = (\<lambda>fd. case map_of (zip sfds [0..<?n]) fd of None \<Rightarrow> [] | Some i \<Rightarrow> zip (?ids i) (W i))"
  have L: "L (sfds ! i) = zip (?ids i) (W i)" if "i < ?n" for i
    using map_of_zip_nth [of sfds "[0..<?n]" i] that fd by (simp add: L_def)
  have L0: "L fd = []" if "fd \<notin> set sfds" for fd
  proof -
    have "map_of (zip sfds [0..<?n]) fd = None" using that by (auto simp: map_of_eq_None_iff dest: set_zip_leftD)
    then show ?thesis by (simp add: L_def)
  qed
  have Lcase: "(\<exists>i < ?n. fd = sfds ! i) \<or> L fd = []" for fd
    using L0 [of fd] fd(2) by (metis in_set_conv_nth)
  have len: "length (W i) = length (?ids i)" if "i < ?n" for i
    using list_all2_lengthD [OF W(2) [OF that]] by simp
  have H: "\<forall>k. count_list fds k = length (L k)"
  proof
    fix k show "count_list fds k = length (L k)"
    proof (cases "k \<in> set sfds")
      case True
      then obtain i where "i < ?n" "k = sfds ! i" using fd(2) by (metis in_set_conv_nth)
      then show ?thesis using turns(2) L len by simp
    next
      case False
      then have "k \<notin> set fds" using turns(1) by blast
      then show ?thesis using L0 [OF False] by (simp add: count_notin)
    qed
  qed
  define M where "M = merge_turns fds L"
  have fst_L: "map fst (L (sfds ! i)) = ?ids i" "map snd (L (sfds ! i)) = W i" if "i < ?n" for i
    using L [OF that] len [OF that] by simp_all
  have M1: "map fst M = merge_turns fds (\<lambda>k. map fst (L k))" "map snd M = merge_turns fds (\<lambda>k. map snd (L k))"
    unfolding M_def by (rule merge_turns_map [OF H])+
  have Hg: "\<forall>k. count_list fds k = length (map g (L k))" for g using H by simp
  have ds: "distinct (map fst M)"
    unfolding M1(1)
  proof (rule distinct_merge_turns [OF Hg], goal_cases)
    case 1
    then show ?case using Lcase fst_L(1) ids(2) by (metis distinct.simps(1) list.simps(8))
  next
    case 2
    have "set (map fst (L j)) \<inter> set (map fst (L k)) = {}" if "j \<noteq> k" for j k
    proof (cases "L j = [] \<or> L k = []")
      case False
      then obtain i i' where i: "i < ?n" "j = sfds ! i" "i' < ?n" "k = sfds ! i'" using Lcase by meson
      with that have "qs ! i \<noteq> qs ! i'" using qs(3) by (auto simp: nth_eq_iff_index_eq)
      then show ?thesis unfolding i(2,4) fst_L(1) [OF i(1)] fst_L(1) [OF i(3)] by (rule ids(3))
    qed auto
    then show ?case by blast
  qed
  have setM: "set M = (\<Union>k. set (L k))" unfolding M_def by (rule set_merge_turns [OF H])
  have all: "set (map fst M) = all_blocks bufs u"
  proof -
    have "set (map fst M) = (\<Union>k. set (map fst (L k)))" by (simp add: setM image_UN)
    also have "\<dots> = (\<Union>i < ?n. set (?ids i))"
    proof
      show "(\<Union>k. set (map fst (L k))) \<subseteq> (\<Union>i < ?n. set (?ids i))"
      proof
        fix b assume "b \<in> (\<Union>k. set (map fst (L k)))"
        then obtain k where k: "b \<in> set (map fst (L k))" by blast
        then have "L k \<noteq> []" by auto
        then obtain i where i: "i < ?n" "k = sfds ! i" using Lcase by blast
        have "b \<in> set (?ids i)" using k unfolding i(2) fst_L(1) [OF i(1)] .
        with i(1) show "b \<in> (\<Union>i < ?n. set (?ids i))" by blast
      qed
      show "(\<Union>i < ?n. set (?ids i)) \<subseteq> (\<Union>k. set (map fst (L k)))"
      proof
        fix b assume "b \<in> (\<Union>i < ?n. set (?ids i))"
        then obtain i where i: "i < ?n" "b \<in> set (?ids i)" by blast
        from i(2) have "b \<in> set (map fst (L (sfds ! i)))" unfolding fst_L(1) [OF i(1)] .
        then show "b \<in> (\<Union>k. set (map fst (L k)))" by blast
      qed
    qed
    also have "\<dots> = (\<Union>q \<in> set qs. set (ids_on qs bufs q))" by (auto simp: set_conv_nth)
    finally show ?thesis using ids(1) by simp
  qed
  define pad where "pad = (\<lambda>k. case map_of M (Init k) of None \<Rightarrow> replicate 3 None | Some ws \<Rightarrow> drop 21 (map Some ws))"
  have ag: "list_all2 agrees (?sent b) ws" if bw: "(b, ws) \<in> set M" for b ws
  proof -
    from bw obtain k where k: "(b, ws) \<in> set (L k)" using setM by blast
    then have "L k \<noteq> []" by auto
    then obtain i where i: "i < ?n" "k = sfds ! i" using Lcase by blast
    from k i L obtain j where j: "j < length (?ids i)" "b = ?ids i ! j" "ws = W i ! j"
      by (auto simp: set_zip)
    then show ?thesis using W(2) [OF i(1)] by (auto simp: list_all2_conv_all_nth)
  qed
  have arr: "map Some ws = block_of bufs pad b" if bw: "(b, ws) \<in> set M" for b ws
  proof -
    have "b \<in> all_blocks bufs u" using bw all by (metis fst_conv image_eqI set_map)
    moreover have "map_of M b = Some ws" using bw ds by (simp add: map_of_is_SomeI)
    then have "pad k = drop 21 (map Some ws)" if "b = Init k" for k using that by (simp add: pad_def)
    ultimately show ?thesis using ok by (intro sent_arrives [OF ag [OF bw] _ bufs(1)]) auto
  qed
  have lenpad: "length (pad k) = 3" for k
  proof (cases "map_of M (Init k)")
    case (Some ws)
    from list_all2_lengthD [OF ag [OF map_of_SomeD [OF Some]]] have "length ws = 24" by (simp add: init_bytes_def)
    with Some show ?thesis by (simp add: pad_def)
  qed (simp add: pad_def)
  have "on_the_wire bufs u pad (map fst M) (map snd M) fds s"
    unfolding on_the_wire_def
  proof (intro conjI ballI)
    show "map (map Some) (map snd M) = map (block_of bufs pad) (map fst M)"
      using arr by (auto simp: comp_def)
    fix fd assume "fd \<in> set fds"
    then obtain i where i: "i < ?n" "fd = sfds ! i" using turns(1) fd(2) by (metis in_set_conv_nth subsetD)
    then show "clean s fd" using link fd by (simp add: linked_def)
    show "pending s fd = carried fd fds (map snd M)"
      unfolding M1(2) using carried_merge_turns [OF Hg [of snd], of fd] i fst_L(2) W(1) by simp
  qed (use st ok lenpad ds all in \<open>simp_all add: M_def\<close>)
  with all show ?thesis by blast
qed

lemma sent_length:
  assumes "\<forall>bs \<in> set bufs. sendable_buffer qs bs" and "qs \<noteq> []" and "length qs < 2 ^ 24"
    and "b \<in> all_blocks bufs (\<lambda>j. cut_size qs (bufs ! j))"
  shows "length (sent (\<lambda>j. length (bufs ! j)) b) < 2 ^ 31"
proof (cases b)
  case (Piece k p)
  with assms(4) have k: "k < length bufs" and p: "p \<in> set (pieces_of bufs (\<lambda>j. cut_size qs (bufs ! j)) k)"
    by (auto simp: all_blocks_def)
  from p have "length (snd p) \<le> cut_size qs (bufs ! k)"
    using chunks_pieces [of p "cut_size qs (bufs ! k)" 0 "bufs ! k"] by (simp add: pieces_of_def)
  moreover have "cut_size qs (bufs ! k) \<le> 16384" using cut_size_law [OF _ assms(2,3)] assms(1) k by simp
  ultimately show ?thesis by (simp add: Piece data_bytes_def)
qed (simp add: init_bytes_def)

section \<open>The whole way\<close>

text \<open>
  \<open>client_holds\<close>: the array \<open>qarr\<close> has the empty queues \<open>qs\<close>, the buffers \<open>bufs\<close> of initialised bytes lie at \<open>ptrs\<close>, and
  the connections \<open>cfds\<close> have sent nothing and take every byte.
\<close>

definition client_holds :: "mem \<Rightarrow> addr \<Rightarrow> addr list \<Rightarrow> int list \<Rightarrow> (addr \<times> int) list \<Rightarrow> 8 word option list list \<Rightarrow> bool" where
  "client_holds c qarr qs cfds ptrs bufs \<longleftrightarrow>
     (\<exists>W. holding c W \<and> (\<forall>q \<in> set qs. W q = Some [])) \<and> qs \<noteq> [] \<and> distinct qs \<and> length qs < 2 ^ 24 \<and>
     list_all2 (\<lambda>(p, n) bs. writer_ready c qarr qs p bs \<and> n = int (length bs) \<and> sendable_buffer qs bs) ptrs bufs \<and>
     length bufs \<le> 768 \<and> (\<exists>data. bufs = map (map Some) data) \<and>
     length cfds = length qs \<and> distinct cfds \<and> (\<forall>fd \<in> set cfds. net_out c fd = []) \<and>
     (\<forall>k. 2 ^ 31 \<le> send_limits c k)"

text \<open>\<open>all_sent\<close>: each sending thread gets as many turns as its queue has blocks; \<open>all_read\<close>: so
  do the reading threads.\<close>

definition all_sent :: "addr list \<Rightarrow> 8 word option list list \<Rightarrow> nat list \<Rightarrow> bool" where
  "all_sent qs bufs ks \<longleftrightarrow> (\<forall>k \<in> set ks. k < length qs) \<and>
     (\<forall>i < length qs. count_list ks i = length (ids_on qs bufs (qs ! i)))"

definition all_read :: "addr list \<Rightarrow> 8 word option list list \<Rightarrow> int list \<Rightarrow> int list \<Rightarrow> bool" where
  "all_read qs bufs sfds fds \<longleftrightarrow> set fds \<subseteq> set sfds \<and>
     (\<forall>i < length qs. count_list fds (sfds ! i) = length (ids_on qs bufs (qs ! i)))"

lemma client_sends:
  assumes c: "client_holds c qarr qs cfds ptrs bufs" and ks: "all_sent qs bufs ks"
  shows "runs_to (seq (write_buffers qarr (int (length qs)) ptrs (-1)) (sender_turns qs cfds ks)) c (\<lambda>_ c'.
    \<forall>i < length qs. net_out c' (cfds ! i) =
      concat (map (sent (\<lambda>j. length (bufs ! j))) (ids_on qs bufs (qs ! i))))"
proof -
  from c obtain W where W: "holding c W" "\<forall>q \<in> set qs. W q = Some []" and qs: "qs \<noteq> []" "distinct qs" "length qs < 2 ^ 24"
    and p: "list_all2 (\<lambda>(p, n) bs. writer_ready c qarr qs p bs \<and> n = int (length bs) \<and> sendable_buffer qs bs) ptrs bufs"
    and n: "length bufs \<le> 768" and fd: "length cfds = length qs" "distinct cfds" "\<forall>fd \<in> set cfds. net_out c fd = []"
    and lim: "\<forall>k. 2 ^ 31 \<le> send_limits c k"
    unfolding client_holds_def by blast
  let ?B = "\<lambda>i. map (sent (\<lambda>j. length (bufs ! j))) (ids_on qs bufs (qs ! i))"
  have dom: "set qs \<subseteq> dom W" using W(2) by auto
  have sb: "\<forall>bs \<in> set bufs. sendable_buffer qs bs" using p by (auto simp: list_all2_conv_all_nth in_set_conv_nth)
  have B: "length b < 2 ^ 31" if "i < length qs" "b \<in> set (?B i)" for i b
  proof -
    from that obtain x where x: "x \<in> set (ids_on qs bufs (qs ! i))" "b = sent (\<lambda>j. length (bufs ! j)) x" by auto
    have "x \<in> all_blocks bufs (\<lambda>j. cut_size qs (bufs ! j))"
      using ids_on_all(1) [OF qs(1,2) refl, of bufs] x(1) that(1) nth_mem by blast
    from sent_length [OF sb qs(1,3) this] show ?thesis by (simp add: x(2))
  qed
  show ?thesis
    unfolding runs_to_seq
  proof (rule runs_to_mono [OF write_buffers_law [OF W(1) dom qs(3) p, of 0, simplified]])
    show "length bufs < 2147483648" using n by simp
    fix x c1 assume c1: "holding c1 (deliver (plans qs 0 bufs) W) \<and> wr_frame c c1"
    have fr: "net_out c1 = net_out c" "send_limits c1 = send_limits c"
      using c1 unfolding wr_frame_def by (cases c; cases c1; simp)+
    have ready: "\<forall>i < length qs. deliver (plans qs 0 bufs) W (qs ! i) = Some (?B i) \<and> count_list ks i = length (?B i) \<and>
        (\<forall>b \<in> set (?B i). length b < 2 ^ 31)"
      using queue_blocks [of W _ qs bufs] W(2) ks B by (simp add: all_sent_def)
    have "runs_to (sender_turns qs cfds ks) c1 (\<lambda>_ c'. \<forall>i < length qs. net_out c' (cfds ! i) = net_out c1 (cfds ! i) @ concat (?B i))"
      by (rule sender_turns_law [OF _ fd(1) qs(2) fd(2) _ ready]) (use c1 ks lim fr in \<open>simp_all add: all_sent_def\<close>)
    then show "runs_to (sender_turns qs cfds ks) c1 (\<lambda>_ c'. \<forall>i < length qs. net_out c' (cfds ! i) = concat (?B i))"
      by (rule runs_to_mono) (use fd fr in simp)
  qed
qed

section \<open>Properties\<close>

text \<open>C1. From one process to the other: a series of buffers is written with \<open>multiplex_write_queues\<close>, the
  threads of the queues send the blocks in any order of turns, the connections deliver the bytes in
  any segments, and the reading threads at the other end take their turns in any order. When every
  block has been sent and read, the file at the other end has got exactly the bytes of the buffers,
  in order; nothing on the way stops, blocks or touches memory that it does not own.\<close>

theorem end_to_end:
  assumes "client_holds c qarr qs cfds ptrs bufs" and "all_sent qs bufs ks"
    and "well_formed s F" and "\<not> fopen_fails s" and "length sfds = length qs" and "distinct sfds"
    and "all_read qs bufs sfds fds" and "length bufs + 2 \<le> f"
  shows "runs_to (seq (write_buffers qarr (int (length qs)) ptrs (-1)) (sender_turns qs cfds ks)) c (\<lambda>_ c'.
    linked c' cfds s sfds \<longrightarrow>
    runs_to (bnd (AllocateHashTable 256) (\<lambda>t. take_turns f send_buffer t fds)) s
      (\<lambda>_ s'. files s' server_output = files s server_output @ concat bufs))"
proof (rule runs_to_mono [OF client_sends [OF assms(1,2)]], rule impI)
  fix x c' assume out: "\<forall>i < length qs. net_out c' (cfds ! i) =
      concat (map (sent (\<lambda>j. length (bufs ! j))) (ids_on qs bufs (qs ! i)))" and link: "linked c' cfds s sfds"
  have "sendable_buffer qs bs" if "bs \<in> set bufs" for bs
    using assms(1) that unfolding client_holds_def list_all2_conv_all_nth in_set_conv_nth by fastforce
  with assms(1) obtain data where c: "bufs = map (map Some) data" "length bufs \<le> 768" "qs \<noteq> []" "length qs < 2 ^ 24"
    "distinct qs" "length cfds = length qs" "\<forall>bs \<in> set bufs. sendable_buffer qs bs"
    unfolding client_holds_def by blast
  from linked_on_the_wire [OF c(1,2,7,3-6) assms(5,6) out link] assms(7)
  obtain pad ids blks where "on_the_wire bufs (\<lambda>j. cut_size qs (bufs ! j)) pad ids blks fds s"
    "set ids = all_blocks bufs (\<lambda>j. cut_size qs (bufs ! j))" unfolding all_read_def by blast
  then show "runs_to (bnd (AllocateHashTable 256) (\<lambda>t. take_turns f send_buffer t fds)) s
      (\<lambda>_ s'. files s' server_output = files s server_output @ concat bufs)"
    using send_turns_all [OF assms(3) _ assms(4,8)] by blast
qed

text \<open>
  A client with two connections, 10 and 11, and a buffer of four bytes, which becomes two blocks on the first
  connection and the \<open>init_block\<close> on the second; and the process that gets what it has sent, on 5 and 6.
\<close>

definition demo_client :: mem where
  "demo_client = mem0\<lparr>next_addr := 4,
     queues := [1 \<mapsto> \<lparr>q_head = NULL, q_tail = NULL, q_mutex = False, q_wrt = 1\<rparr>,
                2 \<mapsto> \<lparr>q_head = NULL, q_tail = NULL, q_mutex = False, q_wrt = 1\<rparr>],
     ptr_arrays := [3 \<mapsto> [1, 2]], chars := [4 \<mapsto> map Some [104, 105, 33, 10]]\<rparr>"

definition demo_peer :: "mem \<Rightarrow> mem" where
  "demo_peer c = mem0\<lparr>net_in := (\<lambda>_. [])
     (5 := map (\<lambda>x. Segment [case x of None \<Rightarrow> 0 | Some b \<Rightarrow> b]) (net_out c 10),
      6 := map (\<lambda>x. Segment [case x of None \<Rightarrow> 0 | Some b \<Rightarrow> b]) (net_out c 11))\<rparr>"

lemma demo_peer_linked: "linked c [10, 11] (demo_peer c) [5, 6]"
proof -
  have "list_all2 agrees xs (concat (map segment_bytes (map (\<lambda>x. Segment [case x of None \<Rightarrow> 0 | Some b \<Rightarrow> b]) xs)))" for xs
    by (induction xs) (auto simp: agrees_def split: option.splits)
  then show ?thesis
    by (auto simp: linked_def demo_peer_def pending_def clean_def less_Suc_eq)
qed

lemma demo_cut: "cut_size [1, 2] (map Some [104, 105, 33, 10]) = 2"
proof -
  have "block_quotient 4 2 (of_int 1) = of_int 2" by (rule block_quotient_exact) simp_all
  then have q: "block_quotient 4 2 1 = 2" by simp
  then have "while_option (\<lambda>d. of_int BLOCK_SIZE < block_quotient 4 2 d) (\<lambda>d. fl (d + 1)) 1 = Some 1"
    by (intro while_option_steps(2)) (simp add: BLOCK_SIZE_def)
  then show ?thesis by (simp add: cut_size_def choose_unif_size_def q truncate_int_def)
qed

lemma demo_client_holds:
  "client_holds demo_client 3 [1, 2] [10, 11] [(4, 4)] [map Some [104, 105, 33, 10]]"
proof -
  have "q_inv demo_client [1 \<mapsto> [], 2 \<mapsto> []]"
    by (auto simp: demo_client_def mem0_def q_inv_def structs_def struct_at_def queue_rec_def
        disjoint_chains_def owned_def below_def split: if_splits)
  then have "q_fifo demo_client [1 \<mapsto> [], 2 \<mapsto> []]"
    unfolding q_fifo_def
    by (intro conjI exI [of _ "[1 \<mapsto> [], 2 \<mapsto> []]"]) (auto simp: demo_client_def mem0_def)
  then have "holding demo_client [1 \<mapsto> [], 2 \<mapsto> []]"
    unfolding holding_def
    by (intro exI [of _ "[1 \<mapsto> [], 2 \<mapsto> []]"])
      (auto simp: sendable_def separate_def wire_def locked_def below_def demo_client_def fun_eq_iff)
  then have "\<exists>W. holding demo_client W \<and> (\<forall>q \<in> set [1, 2]. W q = Some [])"
    by (intro exI [of _ "[1 \<mapsto> [], 2 \<mapsto> []]"]) simp
  moreover have "\<exists>data. [map Some [104, 105, 33, 10 :: 8 word]] = map (map Some) data"
    by (intro exI [of _ "[[104, 105, 33, 10]]"]) simp
  ultimately show ?thesis
    unfolding client_holds_def
    by (auto simp: writer_ready_def sendable_buffer_def demo_client_def mem0_def)
qed

lemma end_to_end_witness:
  "runs_to (seq (write_buffers 3 2 [(4, 4)] (-1)) (sender_turns [1, 2] [10, 11] [0, 1, 0])) demo_client (\<lambda>_ c'.
    runs_to (bnd (AllocateHashTable 256) (\<lambda>t. take_turns 3 send_buffer t [5, 6, 5])) (demo_peer c')
      (\<lambda>_ s'. files s' server_output = map Some [104, 105, 33, 10]))"
proof -
  let ?bs = "map Some [104, 105, 33, 10 :: 8 word]"
  have "chunks 2 0 ?bs = [(0, [Some 104, Some 105]), (2, [Some 33, Some 10])]" by (simp add: chunks.simps)
  then have ids: "plan_ids [1, 2] 0 [?bs] = [(2, Init 0), (1, Piece 0 (0, [Some 104, Some 105])), (1, Piece 0 (2, [Some 33, Some 10]))]"
    using demo_cut by (simp add: numeral_2_eq_2 [symmetric] del: One_nat_def)
  then have turns: "all_sent [1, 2] [?bs] [0, 1, 0]" "all_read [1, 2] [?bs] [5, 6] [5, 6, 5]"
    unfolding all_sent_def all_read_def ids_on_def by (auto simp: less_Suc_eq)
  have wf: "well_formed (demo_peer c) Map.empty" and o: "\<not> fopen_fails (demo_peer c)" "files (demo_peer c) server_output = []" for c
    unfolding demo_peer_def using well_formed_mem0 by (simp_all add: mem0_def)
  note E = end_to_end [OF demo_client_holds turns(1) wf o(1) _ _ turns(2), of 3]
  from client_sends [OF demo_client_holds turns(1)] obtain c' where
    run: "seq (write_buffers 3 (int (length [1 :: addr, 2])) [(4, 4)] (-1)) (sender_turns [1, 2] [10, 11] [0, 1, 0]) demo_client = Inr ((), c')"
    by (auto elim: runs_toE)
  from E [of c'] demo_peer_linked [of c'] run o(2) [of c'] show ?thesis
    by (simp add: runs_to_def)
qed
end
