(* ===== verification/Reassembly.thy ===== *)
theory Reassembly
  imports Delivery ReaderBlocks
begin

text \<open>
  Both ends of one buffer: the blocks that \<open>multiplex_write_queues\<close> makes of it, stored by the code of
  \<open>handle_block\<close> (\<open>store_data\<close>) in any order, fill the receiver's array with the sender's bytes, and the
  buffer is finished when the last of them comes and not before.
\<close>

section \<open>The blocks on the queues\<close>

text \<open>All blocks on the queues \<open>qs\<close>, when they hold \<open>W\<close>.\<close>

definition queued :: "addr list \<Rightarrow> (addr \<rightharpoonup> 'b list) \<Rightarrow> 'b list" where
  "queued qs W = concat (map (\<lambda>q. the (W q)) qs)"

lemma queued_upd:
  assumes "distinct qs" and "q \<in> set qs"
  shows "mset (queued qs (W(q \<mapsto> the (W q) @ [x]))) = add_mset x (mset (queued qs W))"
proof -
  obtain as bs where qs: "qs = as @ q # bs" using assms(2) by (meson split_list)
  then have q: "q \<notin> set as" "q \<notin> set bs" using assms(1) by auto
  have "map (\<lambda>q'. the ((W(q \<mapsto> y)) q')) cs = map (\<lambda>q. the (W q)) cs" if "q \<notin> set cs" for y cs
    using that by auto
  note other = this [OF q(1)] this [OF q(2)]
  show ?thesis unfolding queued_def qs map_append list.map other by simp
qed

lemma queued_deliver:
  assumes "distinct qs" and "fst ` set ps \<subseteq> set qs"
  shows "mset (queued qs (deliver ps W)) = mset (queued qs W) + mset (map snd ps)"
  using assms(2)
proof (induction ps arbitrary: W)
  case (Cons p ps)
  then show ?case using queued_upd [OF assms(1), of "fst p"] by simp
qed simp

lemma queued_plan:
  assumes "distinct qs" and "qs \<noteq> []"
  shows "mset (queued qs (deliver (plan qs u tag prev bs) W)) = mset (queued qs W) +
    {#init_bytes tag prev (length bs)#} + mset (map (data_bytes tag) (chunks u 0 bs))"
  by (subst queued_deliver [OF assms(1)])
    (use assms(2) in \<open>auto simp: plan_def data_plan_def comp_def\<close>)

section \<open>Storing blocks\<close>

text \<open>
  The calls of \<open>store_data\<close> for the blocks at the addresses \<open>addrs\<close>, one after the other, as the
  thread of a connection makes them when \<open>kv\<close> is the buffer's entry in the table.
\<close>

fun store_blocks :: "nat \<Rightarrow> (addr \<Rightarrow> 32 word \<Rightarrow> (mem, unit) prog) \<Rightarrow> addr \<Rightarrow> HTKeyValue \<Rightarrow> addr list \<Rightarrow>
    (mem, unit) prog" where
  "store_blocks fuel handler ht kv [] = ret ()"
| "store_blocks fuel handler ht kv (b # addrs) =
     seq (store_data fuel handler ht b (kv_value kv) (Some kv)) (store_blocks fuel handler ht kv addrs)"

text \<open>
  \<open>filled t p i d n c\<close>: the memory \<open>t\<close>, where the record \<open>i\<close> at \<open>p\<close> now counts \<open>n\<close> bytes and its
  array holds \<open>d\<close>.
\<close>

definition filled :: "mem \<Rightarrow> addr \<Rightarrow> buffer_info \<Rightarrow> 8 word option list \<Rightarrow> nat \<Rightarrow> bool \<Rightarrow> mem" where
  "filled t p i d n c = t\<lparr>chars := (chars t)(bi_buffer i \<mapsto> d),
     infos := (infos t)(p \<mapsto> i\<lparr>bi_n_written := of_nat n, bi_completed := c\<rparr>)\<rparr>"

text \<open>\<open>awaits t p i old w\<close>: \<open>i\<close> is the record at \<open>p\<close>, its array holds \<open>old\<close>, and \<open>w\<close> bytes have come.\<close>

definition awaits :: "mem \<Rightarrow> addr \<Rightarrow> buffer_info \<Rightarrow> 8 word option list \<Rightarrow> nat \<Rightarrow> bool" where
  "awaits t p i old w \<longleftrightarrow> infos t p = Some i \<and> \<not> bi_mutex i \<and> bi_buffer_size i = of_nat (length old) \<and>
     bi_n_written i = of_nat w \<and> chars t (bi_buffer i) = Some old"

lemma block_at_data:
  assumes "block_at t b (data_bytes tag (off, d))"
  obtains bs where "chars t b = Some bs" "word_at bs 0 = Some (of_nat (12 + length d))"
    "word_at bs 4 = Some (of_nat off)" "12 + length d \<le> length bs" "take (length d) (drop 12 bs) = d"
proof -
  obtain bs where bs: "chars t b = Some bs" "12 + length d \<le> length bs"
    "take (12 + length d) bs = data_bytes tag (off, d)"
    using assms by (auto simp: block_at_def data_bytes_def)
  have w: "word_at (data_bytes tag (off, d)) 0 = Some (of_nat (12 + length d))"
    "word_at (data_bytes tag (off, d)) 4 = Some (of_nat off)"
    unfolding data_bytes_def by (simp_all add: data_block_fields)
  have "take (length d) (drop 12 bs) = drop 12 (take (12 + length d) bs)" by (simp add: drop_take)
  then have "take (length d) (drop 12 bs) = d" by (simp add: bs(3) data_bytes_def)
  with that bs w show ?thesis using word_at_prefix [OF _ bs(2)] by (metis bs(3))
qed

lemma store_data_at:
  assumes a: "awaits t (kv_value kv) i old w" and b: "block_at t b (data_bytes tag (off, d))"
    and le: "off + length d \<le> length old" "length old + 16384 < 2 ^ 31" "w + length d \<le> length old"
  defines "t' \<equiv> \<lambda>c. filled t (kv_value kv) i (splice off d old) (w + length d) c"
  shows "store_data f h ht b (kv_value kv) (Some kv) t =
    (if w + length d = length old then handle_finished_buffer_prev f h ht (kv_value kv) (t' True)
     else Inr ((), t' (bi_completed i)))"
proof -
  obtain bs where bs: "chars t b = Some bs" "word_at bs 0 = Some (of_nat (12 + length d))"
    "word_at bs 4 = Some (of_nat off)" "12 + length d \<le> length bs" "take (length d) (drop 12 bs) = d"
    by (rule block_at_data [OF b])
  have n: "unat (of_nat (12 + length d) - 12 :: 32 word) = length d" "unat (of_nat off :: 32 word) = off"
    "(of_nat (12 + length d) - 12 :: 32 word) = of_nat (length d)"
    using le unat_of_nat32 [of "length d"] unat_of_nat32 [of off] by simp_all
  have eq: "(of_nat w + of_nat (length d) :: 32 word) = of_nat (length old) \<longleftrightarrow> w + length d = length old"
    using le unat_of_nat32 [of "w + length d"] unat_of_nat32 [of "length old"]
    unfolding of_nat_add [symmetric] word_unat_eq_iff by simp
  have rw: "read_word b 0 t = Inr (of_nat (12 + length d), t)" "read_word b 4 t = Inr (of_nat off, t)"
    using runs_to_read_word [of b 0 t "\<lambda>x s. x = of_nat (12 + length d) \<and> s = t"]
      runs_to_read_word [of b 4 t "\<lambda>x s. x = of_nat off \<and> s = t"] bs by (auto simp: runs_to_iff)
  have inf: "(bi_n_written_update (\<lambda>n. n + of_nat (length d)) i)\<lparr>bi_mutex := False, bi_completed := True\<rparr> =
      i\<lparr>bi_n_written := of_nat (w + length d), bi_completed := True\<rparr>"
    "(bi_n_written_update (\<lambda>n. n + of_nat (length d)) i)\<lparr>bi_mutex := False\<rparr> =
      i\<lparr>bi_n_written := of_nat (w + length d), bi_completed := bi_completed i\<rparr>"
    using a by (cases i; simp add: awaits_def)+
  have len: "unat (of_nat (length d) :: 32 word) = length d" using n(1,3) by simp
  show ?thesis
    using a bs le eq by (cases "w + length d = length old"; simp add: store_data_def awaits_def rw n len inf Let_def
        sizeof_data_block_def read_bytes_def write_bytes_def lock_info_def unlock_info_def prog_defs t'_def filled_def)
qed

lemma filled_filled:
  "filled (filled t p i d n c) p (i\<lparr>bi_n_written := m, bi_completed := e\<rparr>) d' n' c' = filled t p i d' n' c'"
  "filled (filled t p i d n c) p (i\<lparr>bi_n_written := m\<rparr>) d' n' c' = filled t p i d' n' c'"
  by (cases i; simp add: filled_def)+

lemma awaits_filled:
  assumes "awaits t p i old w" and "length d = length old"
  shows "awaits (filled t p i d n c) p (i\<lparr>bi_n_written := of_nat n, bi_completed := c\<rparr>) d n"
  using assms by (simp add: awaits_def filled_def)

lemma block_at_filled: "block_at t b blk \<Longrightarrow> b \<noteq> bi_buffer i \<Longrightarrow> block_at (filled t p i d n c) b blk"
  by (simp add: block_at_def filled_def)

lemma blocks_at_filled:
  assumes "list_all2 (block_at t) addrs blks" and "bi_buffer i \<notin> set addrs"
  shows "list_all2 (block_at (filled t p i d n c)) addrs blks"
  using assms by (auto simp: list_all2_conv_all_nth intro!: block_at_filled) (metis nth_mem)

text \<open>Pieces whose sizes add up to what is missing: each is spliced in, the last one finishes the buffer.\<close>

lemma store_blocks_fills:
  assumes "awaits t (kv_value kv) i old w" and "ps \<noteq> []" and "w + total ps = length old"
    and "\<forall>p \<in> set ps. piece bs p" and "length old = length bs" and "length bs + 16384 < 2 ^ 31"
    and "list_all2 (block_at t) addrs (map (data_bytes tag) ps)" and "bi_buffer i \<notin> set addrs"
  shows "store_blocks f h ht kv addrs t = handle_finished_buffer_prev f h ht (kv_value kv)
    (filled t (kv_value kv) i (assemble ps old) (length bs) True)"
  using assms(1-5,7,8)
proof (induction ps arbitrary: t i old w addrs)
  case (Cons p ps)
  obtain off d where p: "p = (off, d)" by (cases p)
  from Cons.prems(6) obtain b addrs' where a: "addrs = b # addrs'" "block_at t b (data_bytes tag (off, d))"
    "list_all2 (block_at t) addrs' (map (data_bytes tag) ps)" by (auto simp: p list_all2_Cons2)
  have le: "off + length d \<le> length old" "length old + 16384 < 2 ^ 31" "w + length d \<le> length old"
    using Cons.prems(3-5) assms(6) by (auto simp: p piece_def)
  note one = store_data_at [OF Cons.prems(1) a(2) le, of f h ht]
  show ?case
  proof (cases "ps = []")
    case True
    with a have "addrs = [b]" by simp
    moreover have "w + length d = length old" using Cons.prems(3) True by (simp add: p)
    ultimately show ?thesis using one Cons.prems(5) True by (simp add: p seq_def bnd_def ret_def split: sum.splits)
  next
    case False
    then have "total ps \<noteq> 0" using Cons.prems(4) by (cases ps) (auto simp: piece_def)
    then have ne: "w + length d \<noteq> length old" using Cons.prems(3) by (simp add: p)
    let ?t = "filled t (kv_value kv) i (splice off d old) (w + length d) (bi_completed i)"
    let ?i = "i\<lparr>bi_n_written := of_nat (w + length d), bi_completed := bi_completed i\<rparr>"
    have "store_blocks f h ht kv addrs' ?t = handle_finished_buffer_prev f h ht (kv_value kv)
        (filled ?t (kv_value kv) ?i (assemble ps (splice off d old)) (length bs) True)"
    proof (rule Cons.IH [OF awaits_filled [OF Cons.prems(1)] False])
      show "list_all2 (block_at ?t) addrs' (map (data_bytes tag) ps)"
        using a Cons.prems(7) by (intro blocks_at_filled) auto
    qed (use Cons.prems a le in \<open>simp_all add: p\<close>)
    then show ?thesis using one ne by (simp add: a(1) p seq_def bnd_def filled_filled del: of_nat_add)
  qed
qed simp

lemma mset_map_split:
  "mset ys = mset (map f xs) \<Longrightarrow> \<exists>zs. ys = map f zs \<and> mset zs = mset xs"
proof (induction ys arbitrary: xs)
  case (Cons y ys)
  then have "y \<in> set (map f xs)" by (metis list.set_intros(1) set_mset_mset)
  then obtain x where x: "x \<in> set xs" "y = f x" by auto
  then have "mset ys = mset (map f (remove1 x xs))" using Cons.prems
    by (simp add: image_mset_Diff) (metis add_mset_remove_trivial)
  then obtain zs where "ys = map f zs" "mset zs = mset (remove1 x xs)" using Cons.IH by blast
  then show ?case using x by (intro exI [of _ "x # zs"]) simp
qed simp

section \<open>Properties\<close>

text \<open>C7. The two ends of a buffer fit together. \<open>multiplex_write_queues\<close> adds to the queues an
  \<open>init_block\<close> and one data block for each piece of the buffer, and nothing else; and when the receiver,
  whose record for the tag has an array of the buffer's size and has counted no byte yet, runs the code of
  \<open>handle_block\<close> that stores data on these data blocks, in whatever order they come, then its array ends up
  with exactly the sender's bytes and all of them are counted: the buffer is marked complete, and handed to
  \<open>handle_finished_buffer_prev\<close>, by the last block and by no earlier one.\<close>

theorem blocks_reassemble:
  assumes "holding s W" and "set qs \<subseteq> dom W" and "distinct qs" and "writer_ready s qarr qs buffer bs"
    and "length qs \<le> length bs" and "length qs < 2 ^ 24" and "length bs + 16384 < 2 ^ 31" and "in_int (prev + 1)"
    and "awaits t (kv_value kv) i old 0" and "length old = length bs"
  shows "\<exists>u. choose_unif_size (int (length bs)) (int (length qs)) = Some (int u) \<and>
    runs_to (multiplex_write_queues qarr (int (length qs)) buffer (int (length bs)) prev) s (\<lambda>tag s'. tag = prev + 1 \<and>
      (\<exists>W'. holding s' W' \<and> mset (queued qs W') = mset (queued qs W) +
         {#init_bytes tag prev (length bs)#} + mset (map (data_bytes tag) (chunks u 0 bs))) \<and>
      (\<forall>addrs blks. mset blks = mset (map (data_bytes tag) (chunks u 0 bs)) \<and>
         list_all2 (block_at t) addrs blks \<and> bi_buffer i \<notin> set addrs \<longrightarrow>
         store_blocks f h ht kv addrs t = handle_finished_buffer_prev f h ht (kv_value kv)
           (filled t (kv_value kv) i bs (length bs) True)))"
proof -
  have qs: "qs \<noteq> []" using assms(4) by (simp add: writer_ready_def)
  then have bs: "bs \<noteq> []" using assms(5) by auto
  obtain v where "choose_unif_size (int (length bs)) (int (length qs)) = Some v" "0 < v" "v \<le> BLOCK_SIZE"
    using choose_unif_size_law [of "int (length qs)" "int (length bs)"] assms(5-7) qs by auto
  then obtain u where u: "choose_unif_size (int (length bs)) (int (length qs)) = Some (int u)" "0 < u" "u \<le> 16384"
    by (cases v rule: int_cases4) (simp_all add: BLOCK_SIZE_def)
  have fills: "store_blocks f h ht kv addrs t = handle_finished_buffer_prev f h ht (kv_value kv)
      (filled t (kv_value kv) i bs (length bs) True)"
    if b: "mset blks = mset (map (data_bytes tag) (chunks u 0 bs))" "list_all2 (block_at t) addrs blks"
      "bi_buffer i \<notin> set addrs" for addrs blks tag
  proof -
    obtain ps where ps: "blks = map (data_bytes tag) ps" "mset ps = mset (chunks u 0 bs)"
      using mset_map_split [OF b(1)] by blast
    then have set: "set ps = set (chunks u 0 bs)" by (metis mset_eq_setD)
    have "total ps = length bs"
      using chunks_total [OF u(2), of 0 bs] ps(2) unfolding total_def by (metis mset_map sum_mset_sum_list)
    moreover have "\<forall>p \<in> set ps. piece bs p" using chunks_pieces [of _ u 0 bs] set by auto
    moreover have "assemble ps old = bs" by (rule assemble_chunks [OF u(2) set assms(10)])
    moreover have "ps \<noteq> []" using set bs u(2) by (auto simp: chunks_step)
    ultimately show ?thesis
      using store_blocks_fills [OF assms(9), of ps bs addrs tag f h ht] b(2,3) assms(7,10) ps(1) by simp
  qed
  note run = multiplex_write_queues_law [OF assms(1,2,4) u(1) _ u(3) assms(7,8) keeps_True le0]
  show ?thesis
  proof (intro exI [of _ u] conjI u(1), rule runs_to_mono [OF run], goal_cases)
    case (2 tag s')
    then have h: "tag = prev + 1" "holding s' (deliver (plan qs u tag prev bs) W)" by auto
    show ?case
      by (intro conjI allI impI exI [of _ "deliver (plan qs u tag prev bs) W"] queued_plan [OF assms(3) qs] h)
        (elim conjE, rule fills)
  qed (rule impI, rule u(2))
qed

text \<open>A receiver with the three blocks of a buffer in its memory, and the record of the buffer.\<close>

definition demo_info :: buffer_info where
  "demo_info = \<lparr>bi_buffer = 10, bi_buffer_size = 3, bi_tag = 0, bi_completed = False, bi_sent = False,
     bi_n_written = 0, bi_prev_tag = -1, bi_last_block = False, bi_mutex = False, bi_valid = True,
     bi_next_tag = -1, bi_waiting_queue = NULL\<rparr>"

definition demo_receiver :: mem where
  "demo_receiver = mem0\<lparr>next_addr := 15, infos := [15 \<mapsto> demo_info],
     chars := [10 \<mapsto> [None, None, None], 11 \<mapsto> data_bytes 0 (0, [Some 104]),
       12 \<mapsto> data_bytes 0 (1, [Some 105]), 13 \<mapsto> data_bytes 0 (2, [Some 33])]\<rparr>"

lemma demo_block_size: "choose_unif_size 3 2 = Some 1"
proof -
  have q: "block_quotient 3 2 1 = 3 / 2" by code_simp
  show ?thesis by (simp add: choose_unif_size_def while_option_unfold BLOCK_SIZE_def truncate_int_def q floor_eq_iff)
qed

lemma demo_receiver_awaits: "awaits demo_receiver 15 demo_info [None, None, None] 0"
  by (simp add: awaits_def demo_receiver_def demo_info_def)

lemma blocks_reassemble_witness:
  "runs_to (multiplex_write_queues 3 2 4 3 (-1)) demo_writer (\<lambda>tag s'.
     (\<exists>W'. holding s' W' \<and> mset (queued [1, 2] W') = {#init_bytes 0 (-1) 3, data_bytes 0 (0, [Some 104]),
        data_bytes 0 (1, [Some 105]), data_bytes 0 (2, [Some 33])#}) \<and>
     store_blocks 1 (\<lambda>_ _. ret ()) 5 \<lparr>kv_key = 0, kv_value = 15\<rparr> [13, 11, 12] demo_receiver =
       handle_finished_buffer_prev 1 (\<lambda>_ _. ret ()) 5 15
         (filled demo_receiver 15 demo_info [Some 104, Some 105, Some 33] 3 True))"
proof -
  let ?bs = "map Some [104, 105, 33 :: 8 word]" let ?kv = "\<lparr>kv_key = 0, kv_value = 15\<rparr>"
  let ?fin = "store_blocks 1 (\<lambda>_ _. ret ()) 5 ?kv [13, 11, 12] demo_receiver =
       handle_finished_buffer_prev 1 (\<lambda>_ _. ret ()) 5 15
         (filled demo_receiver 15 demo_info [Some 104, Some 105, Some 33] 3 True)"
  have c: "chunks 1 0 ?bs = [(0, [Some 104]), (1, [Some 105]), (2, [Some 33])]" by (simp add: chunks_step)
  have aw: "awaits demo_receiver (kv_value ?kv) demo_info [None, None, None] 0" using demo_receiver_awaits by simp
  from blocks_reassemble [OF demo_writer_holding _ _ demo_writer_ready(1) _ _ _ _ aw, of "-1" 1 "\<lambda>_ _. ret ()" 5]
  obtain u where u: "choose_unif_size 3 2 = Some (int u)" and
    "runs_to (multiplex_write_queues 3 2 4 3 (-1)) demo_writer (\<lambda>tag s'. tag = -1 + 1 \<and>
      (\<exists>W'. holding s' W' \<and> mset (queued [1, 2] W') = mset (queued [1, 2] [1 \<mapsto> [], 2 \<mapsto> []]) +
         {#init_bytes tag (-1) (length ?bs)#} + mset (map (data_bytes tag) (chunks u 0 ?bs))) \<and>
      (\<forall>addrs blks. mset blks = mset (map (data_bytes tag) (chunks u 0 ?bs)) \<and>
         list_all2 (block_at demo_receiver) addrs blks \<and> bi_buffer demo_info \<notin> set addrs \<longrightarrow>
         store_blocks 1 (\<lambda>_ _. ret ()) 5 ?kv addrs demo_receiver = handle_finished_buffer_prev 1 (\<lambda>_ _. ret ()) 5 (kv_value ?kv)
           (filled demo_receiver (kv_value ?kv) demo_info ?bs (length ?bs) True)))"
    by (auto simp: in_int_def)
  then show ?thesis
  proof (elim runs_to_mono, goal_cases)
    case (1 tag s')
    have u: "u = 1" using u demo_block_size by simp
    from 1 have tag: "tag = 0" by simp
    let ?blks = "map (data_bytes 0) [(2, [Some 33]), (0, [Some 104]), (1, [Some (105 :: 8 word)])]"
    have at: "list_all2 (block_at demo_receiver) [13, 11, 12] ?blks" "bi_buffer demo_info \<notin> set [13, 11, 12]"
      by (simp_all add: block_at_def demo_receiver_def demo_info_def)
    have ms: "mset ?blks = mset (map (data_bytes tag) (chunks u 0 ?bs))" unfolding u tag of_nat_1 c by simp
    have fin: ?fin
      using 1(2) [THEN conjunct2, THEN conjunct2, THEN spec, THEN spec, THEN mp, OF conjI, OF ms conjI, OF at]
      by (simp add: numeral_3_eq_3 del: store_blocks.simps)
    from 1 obtain W' where "holding s' W'" "mset (queued [1, 2] W') = mset (queued [1, 2] [1 \<mapsto> [], 2 \<mapsto> []]) +
         {#init_bytes tag (-1) (length ?bs)#} + mset (map (data_bytes tag) (chunks u 0 ?bs))" by blast
    then show ?case using fin unfolding u tag of_nat_1 c
      by (intro conjI exI [of _ W']) (simp_all add: queued_def numeral_3_eq_3 del: store_blocks.simps)
  qed
qed
end
