(* ===== verification/ReaderRace.thy ===== *)
theory ReaderRace
  imports Handlers
begin

text \<open>
  A race in multiplex_reader.c: two threads finish two consecutive buffers at the same time.
  \<open>handle_finished_buffer_prev\<close> is cut after its test of \<open>prev_buffer->sent\<close>, and the run of
  another thread is put there. Run one after the other, in either order, the two calls hand on
  both buffers; interleaved, neither call hands on the second one.
\<close>

section \<open>The function in two parts\<close>

text \<open>From the entry to the test of \<open>sent\<close>, and from there to the end.\<close>

definition prev_until_test :: "nat \<Rightarrow> addr \<Rightarrow> addr \<Rightarrow> (mem, buffer_info \<times> addr \<times> bool) prog" where
  "prev_until_test fuel ht finished =
     bnd (rd_info finished) (\<lambda>i.
     bnd (LookupHashTable ht (scast (bi_prev_tag i))) (\<lambda>(res, prev_kv).
     bnd (if res = 0 then
            bnd (insert_dummy_buffer fuel ht (bi_prev_tag i) (bi_tag i) NULL) (\<lambda>(added, prev). ret prev)
          else (case prev_kv of None \<Rightarrow> halt Undefined | Some kv \<Rightarrow> ret (kv_value kv))) (\<lambda>prev.
     bnd (rd_info prev) (\<lambda>p. ret (i, prev, bi_sent p)))))"

definition prev_after_test :: "nat \<Rightarrow> (addr \<Rightarrow> 32 word \<Rightarrow> (mem, unit) prog) \<Rightarrow> addr \<Rightarrow> addr \<Rightarrow>
    buffer_info \<times> addr \<times> bool \<Rightarrow> (mem, unit) prog" where
  "prev_after_test fuel handler ht finished =
     (\<lambda>(i, prev, sent).
       if \<not> sent then wr_info prev (bi_next_tag_update (\<lambda>_. bi_tag i))
       else
         bnd (RemoveFromHashTable ht (scast (bi_prev_tag i))) (\<lambda>_.
         seq (dealloc infos infos_update prev)
             (handle_finished_buffer_next fuel handler ht finished)))"

lemma prev_in_two_parts:
  assumes "infos s finished = Some i" and "bi_prev_tag i \<noteq> no_tag"
  shows "handle_finished_buffer_prev fuel handler ht finished s =
    bnd (prev_until_test fuel ht finished) (prev_after_test fuel handler ht finished) s"
proof -
  have rd: "bnd (rd_info finished) F s = F i s" for F :: "buffer_info \<Rightarrow> (mem, unit) prog"
    by (simp add: bnd_def load_def assms(1))
  show ?thesis
    unfolding handle_finished_buffer_prev_def prev_until_test_def prev_after_test_def
    by (simp add: bnd_assoc rd bnd_ret case_prod_unfold assms(2) cong: if_cong)
qed

text \<open>One thread between the two parts of which another runs \<open>other\<close>.\<close>

definition interrupted :: "nat \<Rightarrow> (addr \<Rightarrow> 32 word \<Rightarrow> (mem, unit) prog) \<Rightarrow> addr \<Rightarrow> addr \<Rightarrow>
    (mem, unit) prog \<Rightarrow> (mem, unit) prog" where
  "interrupted fuel handler ht finished other =
     bnd (prev_until_test fuel ht finished) (\<lambda>r. seq other (prev_after_test fuel handler ht finished r))"

section \<open>What the calls change\<close>

text \<open>The table, the records, the bytes and the output file.\<close>

definition holds :: "nat \<Rightarrow> addr \<Rightarrow> (64 word \<rightharpoonup> addr) \<Rightarrow> (addr \<rightharpoonup> buffer_info) \<Rightarrow>
    (addr \<rightharpoonup> 8 word option list) \<Rightarrow> 8 word option list \<Rightarrow> mem \<Rightarrow> bool" where
  "holds nb t M I C ws s \<longleftrightarrow> ht_ok nb t s M \<and> infos s = I \<and> chars s = C \<and>
     files s server_output = ws \<and> \<not> fopen_fails s"

lemma holds_frame:
  assumes "holds nb t M I C ws s" and "ht_ok nb t s' M'" and "ht_frame s s'"
  shows "holds nb t M' I C ws s'"
  using assms ht_frameD [OF assms(3)] by (simp add: holds_def)

lemma holds_lookup:
  assumes "holds nb t M I C ws s" and "\<And>s'. holds nb t M I C ws s' \<Longrightarrow> Q (answer M k) s'"
  shows "runs_to (LookupHashTable t k) s Q"
proof -
  from assms(1) have "ht_ok nb t s M" by (simp add: holds_def)
  from ht_lookup [OF this, of k] show ?thesis
    by (rule runs_to_mono) (use assms in \<open>auto intro: holds_frame\<close>)
qed

lemma holds_remove:
  assumes "holds nb t M I C ws s" and "\<And>s'. holds nb t (M(k := None)) I C ws s' \<Longrightarrow> Q (answer M k) s'"
  shows "runs_to (RemoveFromHashTable t k) s Q"
proof -
  from assms(1) have "ht_ok nb t s M" by (simp add: holds_def)
  from ht_remove [OF this, of k] show ?thesis
    by (rule runs_to_mono) (use assms in \<open>auto intro: holds_frame\<close>)
qed

lemma holds_update:
  assumes "holds nb t M I C ws s" and "I p = Some i"
  shows "runs_to (wr_info p f) s Q \<longleftrightarrow> Q () (s\<lparr>infos := I(p \<mapsto> f i)\<rparr>)"
    and "holds nb t M (I(p := v)) C ws (s\<lparr>infos := I(p := v)\<rparr>)"
  using assms ht_ok_alike [of nb t s M "s\<lparr>infos := I(p := v)\<rparr>"] by (auto simp: holds_def wp ht_alike_def)

text \<open>A buffer that \<open>send_buffer\<close> can write.\<close>

definition sendable_at :: "(addr \<rightharpoonup> 8 word option list) \<Rightarrow> buffer_info \<Rightarrow> 8 word option list \<Rightarrow> bool" where
  "sendable_at C i bs \<longleftrightarrow> bi_buffer i \<noteq> NULL \<and> C (bi_buffer i) = Some bs \<and> unat (bi_buffer_size i) = length bs"

lemma holds_send:
  assumes "holds nb t M I C ws s" and "sendable_at C i bs"
    and "\<And>s'. holds nb t M I (C(bi_buffer i := None)) (ws @ bs) s' \<Longrightarrow> Q () s'"
  shows "runs_to (send_buffer (bi_buffer i) (bi_buffer_size i)) s Q"
proof -
  let ?s = "s\<lparr>files := (files s)(server_output := files s server_output @ bs),
    chars := (chars s)(bi_buffer i := None)\<rparr>"
  have "holds nb t M I (C(bi_buffer i := None)) (ws @ bs) ?s"
    using assms(1) ht_ok_alike [of nb t s M ?s] by (auto simp: holds_def ht_alike_def)
  from assms(3) [OF this] show ?thesis
    using assms(1,2)
    by (simp add: send_buffer_def append_file_def free_bytes_def wp holds_def sendable_at_def)
qed

section \<open>One call\<close>

text \<open>The end of \<open>handle_finished_buffer_next\<close>, from the result of the lookup on.\<close>

definition next_end :: "nat \<Rightarrow> addr \<Rightarrow> addr \<Rightarrow> int \<times> HTKeyValue option \<Rightarrow> (mem, unit) prog" where
  "next_end f t p =
     (\<lambda>(res, next_kv). seq (case next_kv of
        Some kv \<Rightarrow>
          if res = 1 then
            bnd (rd_info (kv_value kv)) (\<lambda>next_buf.
            if bi_completed next_buf then
              seq (handle_finished_buffer_next f send_buffer t (kv_value kv))
             (bnd (rd_info p) (\<lambda>i.
              bnd (RemoveFromHashTable t (scast (bi_tag i))) (\<lambda>_. ret ())))
            else ret ())
          else ret ()
      | None \<Rightarrow> ret ())
     (wr_info p (bi_sent_update (\<lambda>_. True))))"

lemma next_until_end:
  assumes "holds nb t M I C ws s" and "I p = Some i" and "\<not> bi_last_block i" and "sendable_at C i bs"
    and "\<And>s'. holds nb t M I (C(bi_buffer i := None)) (ws @ bs) s' \<Longrightarrow>
      runs_to (next_end f t p (answer M (scast (bi_next_tag i)))) s' Q"
  shows "runs_to (handle_finished_buffer_next (Suc f) send_buffer t p) s Q"
proof -
  have i: "infos s p = Some i" using assms(1,2) by (simp add: holds_def)
  show ?thesis
    unfolding handle_finished_buffer_next.simps runs_to_bnd runs_to_seq runs_to_load i option.case
      next_end_def [symmetric]
  proof (rule holds_send [OF assms(1,4)], goal_cases)
    case (1 s1)
    then have i1: "infos s1 p = Some i" using assms(2) by (simp add: holds_def)
    show ?case
      unfolding i1 option.case if_not_P [OF assms(3)] by (rule holds_lookup [OF 1], rule assms(5))
  qed
qed

text \<open>No buffer waits for this one.\<close>

lemma next_of_last:
  assumes "holds nb t M I C ws s" and p: "I p = Some i" and "\<not> bi_last_block i" and "sendable_at C i bs"
    and "M (scast (bi_next_tag i)) = None"
    and "\<And>s'. holds nb t M (I(p \<mapsto> i\<lparr>bi_sent := True\<rparr>)) (C(bi_buffer i := None)) (ws @ bs) s' \<Longrightarrow> Q () s'"
  shows "runs_to (handle_finished_buffer_next (Suc f) send_buffer t p) s Q"
proof (rule next_until_end [OF assms(1-4)])
  fix s'
  assume s': "holds nb t M I (C(bi_buffer i := None)) (ws @ bs) s'"
  show "runs_to (next_end f t p (answer M (scast (bi_next_tag i)))) s' Q"
    using assms(6) [OF holds_update(2) [OF s' p]]
    by (simp add: next_end_def answer_def assms(5) seq_ret holds_update(1) [OF s' p])
qed

text \<open>A finished buffer waits for this one, and none for that.\<close>

lemma next_of_two:
  assumes "holds nb t M I C ws s" and p: "I p = Some i" and "\<not> bi_last_block i" and "sendable_at C i bs"
    and q: "M (scast (bi_next_tag i)) = Some q" "I q = Some j" "p \<noteq> q" "bi_completed j" "\<not> bi_last_block j"
      "sendable_at C j bs'" "bi_buffer i \<noteq> bi_buffer j" "M (scast (bi_next_tag j)) = None"
    and Q: "\<And>I' M' C' s'. holds nb t M' I' C' (ws @ bs @ bs') s' \<Longrightarrow> Q () s'"
  shows "runs_to (handle_finished_buffer_next (Suc (Suc f)) send_buffer t p) s Q"
proof (rule next_until_end [OF assms(1-4)])
  fix s1
  let ?I = "I(q \<mapsto> j\<lparr>bi_sent := True\<rparr>)" and ?C = "C(bi_buffer i := None, bi_buffer j := None)"
  assume s1: "holds nb t M I (C(bi_buffer i := None)) (ws @ bs) s1"
  then have j1: "infos s1 q = Some j" using q(2) by (simp add: holds_def)
  have snd: "sendable_at (C(bi_buffer i := None)) j bs'" using q(6,7) by (auto simp: sendable_at_def)
  have "runs_to (handle_finished_buffer_next (Suc f) send_buffer t q) s1 (\<lambda>_ s2. runs_to
      (bnd (rd_info p) (\<lambda>i. bnd (RemoveFromHashTable t (scast (bi_tag i))) (\<lambda>_. ret ()))) s2
      (\<lambda>_ s3. runs_to (wr_info p (bi_sent_update (\<lambda>_. True))) s3 Q))"
  proof (rule next_of_last [OF s1 q(2,5) snd q(8)])
    fix s2
    assume s2: "holds nb t M ?I ?C ((ws @ bs) @ bs') s2"
    have Ip: "?I p = Some i" using p q(3) by simp
    then have i2: "infos s2 p = Some i" using s2 by (simp add: holds_def)
    show "runs_to (bnd (rd_info p) (\<lambda>i. bnd (RemoveFromHashTable t (scast (bi_tag i))) (\<lambda>_. ret ()))) s2
      (\<lambda>_ s3. runs_to (wr_info p (bi_sent_update (\<lambda>_. True))) s3 Q)"
      unfolding runs_to_bnd runs_to_load i2 option.case runs_to_ret
    proof (rule holds_remove [OF s2])
      fix s3
      assume s3: "holds nb t (M(scast (bi_tag i) := None)) ?I ?C ((ws @ bs) @ bs') s3"
      from Q [OF holds_update(2) [OF s3 Ip, of "Some (i\<lparr>bi_sent := True\<rparr>)", unfolded append_assoc]]
      show "runs_to (wr_info p (bi_sent_update (\<lambda>_. True))) s3 Q"
        by (simp add: holds_update(1) [OF s3 Ip])
    qed
  qed
  then show "runs_to (next_end (Suc f) t p (answer M (scast (bi_next_tag i)))) s1 Q"
    by (simp add: next_end_def answer_def q(1) runs_to_seq runs_to_bnd runs_to_load j1 q(4) del: handle_finished_buffer_next.simps)
qed

text \<open>The first part of \<open>handle_finished_buffer_prev\<close> finds the record of the previous buffer.\<close>

lemma prev_found:
  assumes "holds nb t M I C ws s" and "I p = Some i" and "M (scast (bi_prev_tag i)) = Some q" and "I q = Some j"
    and "\<And>s'. holds nb t M I C ws s' \<Longrightarrow> Q (i, q, bi_sent j) s'"
  shows "runs_to (prev_until_test f t p) s Q"
proof -
  have i: "infos s p = Some i" using assms(1,2) by (simp add: holds_def)
  show ?thesis
    unfolding prev_until_test_def runs_to_bnd runs_to_load i option.case
  proof (rule holds_lookup [OF assms(1)], goal_cases)
    case (1 s')
    then have "infos s' q = Some j" using assms(4) by (simp add: holds_def)
    then show ?case using assms(5) [OF 1] by (simp add: answer_def assms(3) runs_to_ret runs_to_bnd runs_to_load)
  qed
qed

section \<open>Two calls\<close>

text \<open>
  Buffers 0 and 1 are complete, none of them has been handed on, and no call has been made for
  either: \<open>p\<close> and \<open>q\<close> are their records.
\<close>

definition two_finished :: "(64 word \<rightharpoonup> addr) \<Rightarrow> (addr \<rightharpoonup> buffer_info) \<Rightarrow> (addr \<rightharpoonup> 8 word option list) \<Rightarrow>
    addr \<Rightarrow> addr \<Rightarrow> 8 word option list \<Rightarrow> 8 word option list \<Rightarrow> bool" where
  "two_finished M I C p q bs bs' \<longleftrightarrow> p \<noteq> NULL \<and> p \<noteq> q \<and> M 0 = Some p \<and> M 1 = Some q \<and> M (scast no_tag) = None \<and>
     (\<exists>i j. I p = Some i \<and> I q = Some j \<and> bi_tag i = 0 \<and> bi_tag j = 1 \<and>
        bi_prev_tag i = no_tag \<and> bi_prev_tag j = 0 \<and> bi_next_tag i = no_tag \<and> bi_next_tag j = no_tag \<and>
        bi_completed i \<and> bi_completed j \<and> \<not> bi_sent i \<and> \<not> bi_sent j \<and>
        \<not> bi_last_block i \<and> \<not> bi_last_block j \<and>
        sendable_at C i bs \<and> sendable_at C j bs' \<and> bi_buffer i \<noteq> bi_buffer j)"

lemma no_tag_nonzero: "no_tag \<noteq> 0" "(0 :: 32 word) \<noteq> no_tag"
  by (simp_all add: no_tag_def NO_TAG_def)

text \<open>The calls of the two threads, for the buffers 0 and 1.\<close>

abbreviation finish :: "nat \<Rightarrow> addr \<Rightarrow> addr \<Rightarrow> (mem, unit) prog" where
  "finish f t \<equiv> handle_finished_buffer_prev (Suc (Suc f)) send_buffer t"

lemma finish_first:
  assumes "holds nb t M I C ws s" and "I p = Some i" and "bi_prev_tag i = no_tag"
    and "runs_to (handle_finished_buffer_next (Suc (Suc f)) send_buffer t p) s Q"
  shows "runs_to (finish f t p) s Q"
proof -
  have "infos s p = Some i" using assms(1,2) by (simp add: holds_def)
  then show ?thesis
    using assms(3,4) by (simp add: handle_finished_buffer_prev_def runs_to_bnd runs_to_load del: handle_finished_buffer_next.simps)
qed

lemma finish_second:
  assumes H: "holds nb t M I C ws s" and q: "I q = Some j" "bi_prev_tag j = 0" and p: "M 0 = Some p" "I p = Some i"
    and "\<And>s'. holds nb t M I C ws s' \<Longrightarrow>
      runs_to (prev_after_test (Suc (Suc f)) send_buffer t q (j, p, bi_sent i)) s' Q"
  shows "runs_to (finish f t q) s Q"
proof -
  have j: "infos s q = Some j" using H q(1) by (simp add: holds_def)
  have pt: "bi_prev_tag j \<noteq> no_tag" using q(2) no_tag_nonzero by simp
  have "runs_to (bnd (prev_until_test (Suc (Suc f)) t q) (prev_after_test (Suc (Suc f)) send_buffer t q)) s Q"
    unfolding runs_to_bnd by (rule prev_found [OF H q(1) _ p(2)]) (simp_all add: q(2) p(1) assms(6))
  then show ?thesis
    unfolding runs_to_def prev_in_two_parts [OF j pt] .
qed

lemma two_finishedE:
  assumes "two_finished M I C p q bs bs'"
  obtains i j where "p \<noteq> NULL" "p \<noteq> q" and "M 0 = Some p" "M 1 = Some q"
    and "M (scast (bi_next_tag i)) = None" "M (scast (bi_next_tag j)) = None"
    and "I p = Some i" "I q = Some j"
    and "bi_tag i = 0" "bi_tag j = 1" "bi_prev_tag i = no_tag" "bi_prev_tag j = 0" "bi_next_tag j = no_tag"
    and "bi_completed i" "bi_completed j" "\<not> bi_sent i" "\<not> bi_sent j" "\<not> bi_last_block i" "\<not> bi_last_block j"
    and "sendable_at C i bs" "sendable_at C j bs'" "bi_buffer i \<noteq> bi_buffer j"
    and "sendable_at (C(bi_buffer i := None)) j bs'"
proof -
  from assms obtain i j where w: "p \<noteq> NULL" "p \<noteq> q" "M 0 = Some p" "M 1 = Some q" "M (scast no_tag) = None"
    "I p = Some i" "I q = Some j" "bi_tag i = 0" "bi_tag j = 1" "bi_prev_tag i = no_tag" "bi_prev_tag j = 0"
    "bi_next_tag i = no_tag" "bi_next_tag j = no_tag"
    "bi_completed i" "bi_completed j" "\<not> bi_sent i" "\<not> bi_sent j" "\<not> bi_last_block i" "\<not> bi_last_block j"
    "sendable_at C i bs" "sendable_at C j bs'" "bi_buffer i \<noteq> bi_buffer j"
    unfolding two_finished_def by blast
  show thesis by (rule that [of i j]) (use w in \<open>auto simp: sendable_at_def\<close>)
qed

lemma finish_in_order:
  assumes H: "holds nb t M I C ws s" and two: "two_finished M I C p q bs bs'"
  shows "runs_to (seq (finish f t p) (finish f t q)) s (\<lambda>_ s'. files s' server_output = ws @ bs @ bs')"
  using two
proof (rule two_finishedE)
  fix i j
  assume pq: "p \<noteq> NULL" "p \<noteq> q" and M: "M 0 = Some p" "M 1 = Some q"
    and none: "M (scast (bi_next_tag i)) = None" "M (scast (bi_next_tag j)) = None"
    and I: "I p = Some i" "I q = Some j" and tags: "bi_prev_tag i = no_tag" "bi_prev_tag j = 0"
    and flags: "\<not> bi_last_block i" "\<not> bi_last_block j"
    and bufs: "sendable_at C i bs" "sendable_at (C(bi_buffer i := None)) j bs'"
  let ?i = "i\<lparr>bi_sent := True\<rparr>" and ?C = "C(bi_buffer i := None)"
  let ?Q = "\<lambda>_ s'. files s' server_output = ws @ bs @ bs'"
  show "runs_to (seq (finish f t p) (finish f t q)) s ?Q"
    unfolding runs_to_seq
  proof (rule finish_first [OF H I(1) tags(1)], rule next_of_last [OF H I(1) flags(1) bufs(1) none(1)])
    fix s1
    assume s1: "holds nb t M (I(p \<mapsto> ?i)) ?C (ws @ bs) s1"
    have I1: "(I(p \<mapsto> ?i)) q = Some j" "(I(p \<mapsto> ?i)) p = Some ?i" using I pq by simp_all
    show "runs_to (finish f t q) s1 ?Q"
    proof (rule finish_second [OF s1 I1(1) tags(2) M(1) I1(2)])
      fix s2
      assume s2: "holds nb t M (I(p \<mapsto> ?i)) ?C (ws @ bs) s2"
      have "runs_to (RemoveFromHashTable t 0) s2 (\<lambda>_ s3. runs_to (dealloc infos infos_update p) s3
        (\<lambda>_ s4. runs_to (handle_finished_buffer_next (Suc (Suc f)) send_buffer t q) s4 ?Q))"
      proof (rule holds_remove [OF s2])
        fix s3
        assume s3: "holds nb t (M(0 := None)) (I(p \<mapsto> ?i)) ?C (ws @ bs) s3"
        note s4 = holds_update(2) [OF s3 I1(2), of None]
        have "runs_to (handle_finished_buffer_next (Suc (Suc f)) send_buffer t q)
            (s3\<lparr>infos := (I(p \<mapsto> ?i))(p := None)\<rparr>) ?Q"
          by (rule next_of_last [OF s4 _ flags(2) bufs(2)]) (use I pq none in \<open>auto simp: holds_def\<close>)
        moreover have "infos s3 = I(p \<mapsto> ?i)" using s3 by (simp add: holds_def)
        ultimately show "runs_to (dealloc infos infos_update p) s3
          (\<lambda>_ s4. runs_to (handle_finished_buffer_next (Suc (Suc f)) send_buffer t q) s4 ?Q)"
          by (simp add: runs_to_dealloc pq(1))
      qed
      then show "runs_to (prev_after_test (Suc (Suc f)) send_buffer t q (j, p, bi_sent ?i)) s2 ?Q"
        by (simp add: prev_after_test_def tags(2) runs_to_bnd runs_to_seq del: handle_finished_buffer_next.simps)
    qed
  qed
qed

lemma finish_swapped:
  assumes H: "holds nb t M I C ws s" and two: "two_finished M I C p q bs bs'"
  shows "runs_to (seq (finish f t q) (finish f t p)) s (\<lambda>_ s'. files s' server_output = ws @ bs @ bs')"
  using two
proof (rule two_finishedE)
  fix i j
  assume pq: "p \<noteq> NULL" "p \<noteq> q" and M: "M 0 = Some p" "M 1 = Some q"
    and none: "M (scast (bi_next_tag i)) = None" "M (scast (bi_next_tag j)) = None"
    and I: "I p = Some i" "I q = Some j" and tags: "bi_tag j = 1" "bi_prev_tag i = no_tag" "bi_prev_tag j = 0"
    and flags: "bi_completed j" "\<not> bi_sent i" "\<not> bi_sent j" "\<not> bi_last_block i" "\<not> bi_last_block j"
    and bufs: "sendable_at C i bs" "sendable_at C j bs'" "bi_buffer i \<noteq> bi_buffer j"
  show "runs_to (seq (finish f t q) (finish f t p)) s (\<lambda>_ s'. files s' server_output = ws @ bs @ bs')"
    unfolding runs_to_seq
  proof (rule finish_second [OF H I(2) tags(3) M(1) I(1)])
    fix s1
    assume s1: "holds nb t M I C ws s1"
    let ?k = "i\<lparr>bi_next_tag := bi_tag j\<rparr>"
    have "runs_to (finish f t p) (s1\<lparr>infos := I(p \<mapsto> ?k)\<rparr>) (\<lambda>_ s'. files s' server_output = ws @ bs @ bs')"
    proof (rule finish_first [OF holds_update(2) [OF s1 I(1)]], simp, simp add: tags,
        rule next_of_two [OF holds_update(2) [OF s1 I(1)], of "Some ?k" p ?k bs q j bs'])
    qed (use M I tags flags bufs none pq in \<open>auto simp: sendable_at_def holds_def\<close>)
    then show "runs_to (prev_after_test (Suc (Suc f)) send_buffer t q (j, p, bi_sent i)) s1
        (\<lambda>_ s'. runs_to (finish f t p) s' (\<lambda>_ s'. files s' server_output = ws @ bs @ bs'))"
      by (simp add: prev_after_test_def flags(2) holds_update(1) [OF s1 I(1)])
  qed
qed

text \<open>The interleaving: buffer 1 is complete and not sent, and buffer 0, which should have handed
  it on, has been sent.\<close>

definition stuck :: "8 word option list \<Rightarrow> addr \<Rightarrow> addr \<Rightarrow> mem \<Rightarrow> bool" where
  "stuck ws p q s \<longleftrightarrow> files s server_output = ws \<and>
     (\<exists>i j. infos s p = Some i \<and> bi_sent i \<and> bi_next_tag i = bi_tag j \<and>
        infos s q = Some j \<and> bi_completed j \<and> \<not> bi_sent j)"

lemma finish_raced:
  assumes H: "holds nb t M I C ws s" and two: "two_finished M I C p q bs bs'"
  shows "runs_to (interrupted (Suc (Suc f)) send_buffer t q (finish f t p)) s (\<lambda>_. stuck (ws @ bs) p q)"
  using two
proof (rule two_finishedE)
  fix i j
  assume pq: "p \<noteq> NULL" "p \<noteq> q" and M: "M 0 = Some p" "M 1 = Some q"
    and none: "M (scast (bi_next_tag i)) = None" "M (scast (bi_next_tag j)) = None"
    and I: "I p = Some i" "I q = Some j" and tags: "bi_tag j = 1" "bi_prev_tag i = no_tag" "bi_prev_tag j = 0"
    and flags: "bi_completed j" "\<not> bi_sent i" "\<not> bi_sent j" "\<not> bi_last_block i" "\<not> bi_last_block j"
    and bufs: "sendable_at C i bs" "sendable_at C j bs'" "bi_buffer i \<noteq> bi_buffer j"
  let ?i = "i\<lparr>bi_sent := True\<rparr>" and ?C = "C(bi_buffer i := None)"
  show "runs_to (interrupted (Suc (Suc f)) send_buffer t q (finish f t p)) s (\<lambda>_. stuck (ws @ bs) p q)"
    unfolding interrupted_def runs_to_bnd
  proof (rule prev_found [OF H I(2) _ I(1)], simp add: tags M, unfold runs_to_seq)
    fix s1
    assume s1: "holds nb t M I C ws s1"
    show "runs_to (finish f t p) s1 (\<lambda>_ s'. runs_to (prev_after_test (Suc (Suc f)) send_buffer t q (j, p, bi_sent i)) s'
      (\<lambda>_. stuck (ws @ bs) p q))"
    proof (rule finish_first [OF s1 I(1) tags(2)], rule next_of_last [OF s1 I(1) flags(4) bufs(1) none(1)])
      fix s2
      assume s2: "holds nb t M (I(p \<mapsto> ?i)) ?C (ws @ bs) s2"
      have Ip: "(I(p \<mapsto> ?i)) p = Some ?i" by simp
      show "runs_to (prev_after_test (Suc (Suc f)) send_buffer t q (j, p, bi_sent i)) s2
        (\<lambda>_. stuck (ws @ bs) p q)"
        using s2 I pq flags tags
        by (simp add: prev_after_test_def holds_update(1) [OF s2 Ip] holds_def stuck_def)
    qed
  qed
qed

text \<open>C4. Two reader threads finish two consecutive buffers. If one call of
  \<open>handle_finished_buffer_prev\<close> runs after the other, in either order, the handler gets both
  buffers in the order of their tags. If the call for the first buffer runs between the test of
  \<open>prev_buffer->sent\<close> and the store of \<open>prev_buffer->next_tag\<close> in the call for the second one,
  the handler gets the first buffer only: the second is complete but not sent, and the one that
  should hand it on is already done.\<close>

theorem finished_buffer_is_lost:
  assumes "holds nb t M I C ws s" and "two_finished M I C p q bs bs'"
  shows "runs_to (seq (finish f t p) (finish f t q)) s (\<lambda>_ s'. files s' server_output = ws @ bs @ bs') \<and>
    runs_to (seq (finish f t q) (finish f t p)) s (\<lambda>_ s'. files s' server_output = ws @ bs @ bs') \<and>
    runs_to (interrupted (Suc (Suc f)) send_buffer t q (finish f t p)) s (\<lambda>_. stuck (ws @ bs) p q)"
  using finish_in_order [OF assms] finish_swapped [OF assms] finish_raced [OF assms] by blast

text \<open>Buffers of one byte each, with records at 11 and 12.\<close>

definition demo_info :: "addr \<Rightarrow> 32 word \<Rightarrow> 32 word \<Rightarrow> buffer_info" where
  "demo_info b tag prev = \<lparr>bi_buffer = b, bi_buffer_size = 1, bi_tag = tag, bi_completed = True, bi_sent = False,
     bi_n_written = 1, bi_prev_tag = prev, bi_last_block = False, bi_mutex = False, bi_valid = True,
     bi_next_tag = no_tag, bi_waiting_queue = NULL\<rparr>"

definition demo_finished :: "mem \<Rightarrow> mem" where
  "demo_finished s = s\<lparr>infos := [11 \<mapsto> demo_info 21 0 no_tag, 12 \<mapsto> demo_info 22 1 0],
     chars := [21 \<mapsto> [Some 7], 22 \<mapsto> [Some 8]], files := (\<lambda>_. []), fopen_fails := False\<rparr>"

lemma demo_two_finished:
  "two_finished (Map.empty(0 \<mapsto> 11, 1 \<mapsto> 12)) [11 \<mapsto> demo_info 21 0 no_tag, 12 \<mapsto> demo_info 22 1 0]
     [21 \<mapsto> [Some 7], 22 \<mapsto> [Some 8]] 11 12 [Some 7] [Some 8]"
  by (simp add: two_finished_def demo_info_def sendable_at_def no_tag_def NO_TAG_def)

lemma finished_buffer_is_lost_witness:
  "runs_to (bnd (AllocateHashTable 4) (\<lambda>t.
     bnd (InsertHashTable 1 t \<lparr>kv_key = 0, kv_value = 11\<rparr>) (\<lambda>_.
     bnd (InsertHashTable 1 t \<lparr>kv_key = 1, kv_value = 12\<rparr>) (\<lambda>_.
     seq (modifies demo_finished) (interrupted 2 send_buffer t 12 (finish 0 t 11)))))) mem0
   (\<lambda>_. stuck [Some 7] 11 12)"
proof (rule new_table_runs)
  fix s assume ok: "ht_ok 4 1 s Map.empty"
  note ins = ht_put [of 4 1 _ _ 0, folded One_nat_def]
  show "runs_to (bnd (InsertHashTable 1 1 \<lparr>kv_key = 0, kv_value = 11\<rparr>) (\<lambda>_.
     bnd (InsertHashTable 1 1 \<lparr>kv_key = 1, kv_value = 12\<rparr>) (\<lambda>_.
     seq (modifies demo_finished) (interrupted 2 send_buffer 1 12 (finish 0 1 11))))) s
   (\<lambda>_. stuck [Some 7] 11 12)"
    unfolding wp
  proof (rule runs_to_mono [OF ins [OF ok]], simp, rule runs_to_mono [OF ins], assumption, simp)
    fix s'
    assume ok': "ht_ok 4 1 s' (Map.empty(0 \<mapsto> 11, 1 \<mapsto> 12))"
    have "holds 4 1 (Map.empty(0 \<mapsto> 11, 1 \<mapsto> 12)) [11 \<mapsto> demo_info 21 0 no_tag, 12 \<mapsto> demo_info 22 1 0]
       [21 \<mapsto> [Some 7], 22 \<mapsto> [Some 8]] [] (demo_finished s')"
      using ht_ok_alike [OF ok', of "demo_finished s'"] by (simp add: holds_def demo_finished_def ht_alike_def)
    from finished_buffer_is_lost [OF this demo_two_finished, of 0]
    show "runs_to (interrupted 2 send_buffer 1 12 (finish 0 1 11)) (demo_finished s') (\<lambda>_. stuck [Some 7] 11 12)"
      by (simp add: numeral_2_eq_2)
  qed
qed
end
