(* ===== verification/Sync.thy ===== *)
theory Sync
  imports HashTable
begin

text \<open>
  The lock of HashTable.c under concurrency: \<open>LookupHashTable\<close> is the reader and
  \<open>InsertHashTable\<close> and \<open>RemoveFromHashTable\<close> are the writers of the first readers-writers
  protocol, over the semaphores \<open>wrt\<close> and \<open>mutex\<close> and the counter \<open>readcount\<close> of the record.
  Here each thread has a program counter and takes one access to the shared record at a time,
  in any interleaving with the others; the theories of the functions themselves run one
  function at a time.
\<close>

section \<open>The threads\<close>

text \<open>
  Where a thread is: outside the three functions, in \<open>LookupHashTable\<close> (before the statement
  the name says; the two accesses of \<open>readcount++\<close> and \<open>readcount--\<close> are apart, and the value
  read is kept) or in one of the two writers.
\<close>

datatype pc =
    Outside
  | Lk_wait_mutex | Lk_load | Lk_store "32 word" | Lk_test | Lk_wait_wrt | Lk_post_mutex
  | Lk_find
  | Lk_wait_mutex2 | Lk_load2 | Lk_store2 "32 word" | Lk_test2 | Lk_post_wrt | Lk_post_mutex2
  | Up_wait_wrt | Up_body

text \<open>
  The statements of \<open>LookupHashTable\<close>. \<open>sem_wait\<close> has a step only when the value of the
  semaphore is positive.
\<close>

inductive lookup_step :: "HashTableRecord \<Rightarrow> pc \<Rightarrow> HashTableRecord \<Rightarrow> pc \<Rightarrow> bool" where
  lk_call: "lookup_step r Outside r Lk_wait_mutex"
| lk_wait_mutex: "0 < mutex r \<Longrightarrow> lookup_step r Lk_wait_mutex (r\<lparr>mutex := mutex r - 1\<rparr>) Lk_load"
| lk_load: "lookup_step r Lk_load r (Lk_store (readcount r))"
| lk_store: "lookup_step r (Lk_store v) (r\<lparr>readcount := v + 1\<rparr>) Lk_test"
| lk_first: "readcount r = 1 \<Longrightarrow> lookup_step r Lk_test r Lk_wait_wrt"
| lk_not_first: "readcount r \<noteq> 1 \<Longrightarrow> lookup_step r Lk_test r Lk_post_mutex"
| lk_wait_wrt: "0 < wrt r \<Longrightarrow> lookup_step r Lk_wait_wrt (r\<lparr>wrt := wrt r - 1\<rparr>) Lk_post_mutex"
| lk_post_mutex: "lookup_step r Lk_post_mutex (r\<lparr>mutex := mutex r + 1\<rparr>) Lk_find"
| lk_find: "lookup_step r Lk_find r Lk_wait_mutex2"
| lk_wait_mutex2: "0 < mutex r \<Longrightarrow> lookup_step r Lk_wait_mutex2 (r\<lparr>mutex := mutex r - 1\<rparr>) Lk_load2"
| lk_load2: "lookup_step r Lk_load2 r (Lk_store2 (readcount r))"
| lk_store2: "lookup_step r (Lk_store2 v) (r\<lparr>readcount := v - 1\<rparr>) Lk_test2"
| lk_last: "readcount r = 0 \<Longrightarrow> lookup_step r Lk_test2 r Lk_post_wrt"
| lk_not_last: "readcount r \<noteq> 0 \<Longrightarrow> lookup_step r Lk_test2 r Lk_post_mutex2"
| lk_post_wrt: "lookup_step r Lk_post_wrt (r\<lparr>wrt := wrt r + 1\<rparr>) Lk_post_mutex2"
| lk_post_mutex2: "lookup_step r Lk_post_mutex2 (r\<lparr>mutex := mutex r + 1\<rparr>) Outside"

text \<open>
  The statements of the two writers, \<open>InsertHashTable\<close> and \<open>RemoveFromHashTable\<close>, which take and post
  \<open>wrt\<close> alike. Their bodies are represented by what they may do to the record, a superset of what
  they do: any number of changes of \<open>num_elements\<close> to any value and, when the table is resized (in
  \<open>InsertHashTable\<close>), the swap of the whole record with the one that \<open>AllocateHashTable\<close> made,
  semaphores included: \<open>grows\<close> says whether that happens. An invariant of these steps is one of both.
\<close>

inductive update_step :: "bool \<Rightarrow> HashTableRecord \<Rightarrow> pc \<Rightarrow> HashTableRecord \<Rightarrow> pc \<Rightarrow> bool" where
  up_call: "update_step grows r Outside r Up_wait_wrt"
| up_wait_wrt: "0 < wrt r \<Longrightarrow> update_step grows r Up_wait_wrt (r\<lparr>wrt := wrt r - 1\<rparr>) Up_body"
| up_count: "update_step grows r Up_body (r\<lparr>num_elements := n\<rparr>) Up_body"
| up_swap: "grows \<Longrightarrow> wrt newht = 1 \<Longrightarrow> mutex newht = 1 \<Longrightarrow> readcount newht = 0 \<Longrightarrow>
    update_step grows r Up_body newht Up_body"
| up_post_wrt: "update_step grows r Up_body (r\<lparr>wrt := wrt r + 1\<rparr>) Outside"

code_pred (modes: i \<Rightarrow> i \<Rightarrow> o \<Rightarrow> o \<Rightarrow> bool) lookup_step .

inductive_cases lookup_stepE: "lookup_step r p r' p'"
inductive_cases update_stepE: "update_step grows r p r' p'"

text \<open>The threads are the numbers below \<open>n\<close>, and they share one record.\<close>

record threads =
  shared :: HashTableRecord
  pcs :: "nat \<Rightarrow> pc"

inductive thread_step :: "nat \<Rightarrow> bool \<Rightarrow> nat \<Rightarrow> threads \<Rightarrow> threads \<Rightarrow> bool" for n grows where
  looks_up: "t < n \<Longrightarrow> lookup_step (shared s) (pcs s t) r' p' \<Longrightarrow>
    thread_step n grows t s \<lparr>shared = r', pcs = (pcs s)(t := p')\<rparr>"
| updates: "t < n \<Longrightarrow> update_step grows (shared s) (pcs s t) r' p' \<Longrightarrow>
    thread_step n grows t s \<lparr>shared = r', pcs = (pcs s)(t := p')\<rparr>"

text \<open>The states that are reached from a new table.\<close>

inductive reached :: "nat \<Rightarrow> bool \<Rightarrow> threads \<Rightarrow> bool" for n grows where
  new: "wrt r = 1 \<Longrightarrow> mutex r = 1 \<Longrightarrow> readcount r = 0 \<Longrightarrow>
    reached n grows \<lparr>shared = r, pcs = (\<lambda>_. Outside)\<rparr>"
| step: "reached n grows s \<Longrightarrow> thread_step n grows t s s' \<Longrightarrow> reached n grows s'"

section \<open>The invariant\<close>

text \<open>Which threads are between \<open>sem_wait\<close> and \<open>sem_post\<close> of \<open>mutex\<close>, and which have been
  counted in \<open>readcount\<close>.\<close>

fun in_mutex :: "pc \<Rightarrow> bool" where
  "in_mutex Lk_load = True" | "in_mutex (Lk_store _) = True" | "in_mutex Lk_test = True"
| "in_mutex Lk_wait_wrt = True" | "in_mutex Lk_post_mutex = True" | "in_mutex Lk_load2 = True"
| "in_mutex (Lk_store2 _) = True" | "in_mutex Lk_test2 = True" | "in_mutex Lk_post_wrt = True"
| "in_mutex Lk_post_mutex2 = True" | "in_mutex _ = False"

fun counted :: "pc \<Rightarrow> bool" where
  "counted Lk_test = True" | "counted Lk_wait_wrt = True" | "counted Lk_post_mutex = True"
| "counted Lk_find = True" | "counted Lk_wait_mutex2 = True" | "counted Lk_load2 = True"
| "counted (Lk_store2 _) = True" | "counted _ = False"

text \<open>While one of them is at such a place, the readers together hold \<open>wrt\<close>.\<close>

fun holds_wrt :: "pc \<Rightarrow> bool" where
  "holds_wrt Lk_post_mutex = True" | "holds_wrt Lk_find = True" | "holds_wrt Lk_wait_mutex2 = True"
| "holds_wrt Lk_load2 = True" | "holds_wrt (Lk_store2 _) = True" | "holds_wrt Lk_test2 = True"
| "holds_wrt Lk_post_wrt = True" | "holds_wrt _ = False"

text \<open>The threads below \<open>n\<close> that are at a place.\<close>

definition at_place :: "nat \<Rightarrow> (pc \<Rightarrow> bool) \<Rightarrow> (nat \<Rightarrow> pc) \<Rightarrow> nat set" where
  "at_place n P f = {t. t < n \<and> P (f t)}"

lemma finite_at_place [simp]: "finite (at_place n P f)"
  by (simp add: at_place_def)

lemma at_place_step [simp]:
  "t < n \<Longrightarrow> at_place n P (f(t := p)) = (if P p then insert t (at_place n P f) else at_place n P f - {t})"
  by (auto simp: at_place_def)

lemma mem_at_place [simp]: "t \<in> at_place n P f \<longleftrightarrow> t < n \<and> P (f t)"
  by (simp add: at_place_def)

lemma card_at_place: "card (at_place n P f) \<le> n"
  using card_mono [of "{..<n}" "at_place n P f"] by (auto simp: at_place_def)

text \<open>
  What every reached state satisfies: a semaphore and the threads that hold it make one, the
  counter counts, and a thread that read the counter still knows it.
\<close>

definition sync_inv :: "nat \<Rightarrow> HashTableRecord \<Rightarrow> (nat \<Rightarrow> pc) \<Rightarrow> bool" where
  "sync_inv n r f \<longleftrightarrow>
     mutex r + card (at_place n in_mutex f) = 1 \<and>
     wrt r + card (at_place n ((=) Up_body) f) + of_bool (at_place n holds_wrt f \<noteq> {}) = 1 \<and>
     readcount r = of_nat (card (at_place n counted f)) \<and>
     (\<forall>t < n. \<forall>v. f t = Lk_store v \<or> f t = Lk_store2 v \<longrightarrow> v = readcount r) \<and>
     (\<forall>t < n. (f t = Lk_wait_wrt \<longrightarrow> readcount r = 1) \<and> (f t = Lk_post_wrt \<longrightarrow> readcount r = 0))"

lemma sync_invD:
  assumes "sync_inv n r f"
  shows "mutex r + card (at_place n in_mutex f) = 1"
    and "wrt r + card (at_place n ((=) Up_body) f) + of_bool (at_place n holds_wrt f \<noteq> {}) = 1"
    and "readcount r = of_nat (card (at_place n counted f))"
    and "t < n \<Longrightarrow> f t = Lk_store v \<Longrightarrow> v = readcount r"
    and "t < n \<Longrightarrow> f t = Lk_store2 v \<Longrightarrow> v = readcount r"
    and "t < n \<Longrightarrow> f t = Lk_wait_wrt \<Longrightarrow> readcount r = 1"
    and "t < n \<Longrightarrow> f t = Lk_post_wrt \<Longrightarrow> readcount r = 0"
  using assms unfolding sync_inv_def by blast+

text \<open>At most one thread is in the section of \<open>mutex\<close>, and then the semaphore is 0.\<close>

lemma one_in_mutex:
  assumes "sync_inv n r f" "t < n" "in_mutex (f t)"
  shows "mutex r = 0" "at_place n in_mutex f = {t}" "\<And>u. u < n \<Longrightarrow> u \<noteq> t \<Longrightarrow> \<not> in_mutex (f u)"
proof -
  have t: "t \<in> at_place n in_mutex f" using assms by simp
  then have "0 < card (at_place n in_mutex f)" by (metis card_gt_0_iff empty_iff finite_at_place)
  then have c: "mutex r = 0 \<and> card (at_place n in_mutex f) = 1" using sync_invD(1) [OF assms(1)] by linarith
  then show "mutex r = 0" by simp
  from c obtain u where "at_place n in_mutex f = {u}" by (metis card_1_singletonE)
  with t show e: "at_place n in_mutex f = {t}" by (metis singletonD)
  show "\<And>u. u < n \<Longrightarrow> u \<noteq> t \<Longrightarrow> \<not> in_mutex (f u)" using e mem_at_place [of _ n in_mutex f] by (metis singletonD)
qed

text \<open>The counter is exact: it has 32 bits and there are fewer than \<open>2\<^sup>3\<^sup>2\<close> threads.\<close>

lemma readcount_exact:
  assumes "sync_inv n r f" "n < 2 ^ 32"
  shows "readcount r = 0 \<longleftrightarrow> at_place n counted f = {}"
    and "readcount r = 1 \<longleftrightarrow> card (at_place n counted f) = 1"
proof -
  have b: "card (at_place n counted f) < 2 ^ 32"
    using card_at_place [of n counted f] assms(2) by linarith
  have u: "unat (readcount r) = card (at_place n counted f)"
    unfolding sync_invD(3) [OF assms(1)] using b by (simp add: unat_of_nat take_bit_nat_eq_self)
  have "readcount r = 0 \<longleftrightarrow> unat (readcount r) = 0" by (simp add: unat_eq_0)
  also have "\<dots> \<longleftrightarrow> at_place n counted f = {}" using u by simp
  finally show "readcount r = 0 \<longleftrightarrow> at_place n counted f = {}" .
  have "readcount r = 1 \<longleftrightarrow> unat (readcount r) = unat (1 :: 32 word)" by (simp only: word_unat_eq_iff)
  then show "readcount r = 1 \<longleftrightarrow> card (at_place n counted f) = 1" using u by simp
qed

text \<open>A reader outside the section of \<open>mutex\<close> that is counted holds \<open>wrt\<close>, and conversely.\<close>

lemma counted_outside_mutex: "\<not> in_mutex p \<Longrightarrow> counted p \<longleftrightarrow> holds_wrt p"
  by (cases p) simp_all

lemma holds_not_body: "holds_wrt p \<Longrightarrow> p \<noteq> Up_body" by auto

lemma others_hold:
  assumes inv: "sync_inv n r f" and t: "t < n" "in_mutex (f t)"
  shows "at_place n holds_wrt f - {t} = at_place n counted f - {t}"
  using one_in_mutex(3) [OF inv t] counted_outside_mutex by (auto simp: at_place_def)

section \<open>Every step keeps the invariant\<close>

text \<open>What is left to show for a step of one thread: the two sums and the counter, and what the
  thread itself knows about the counter.\<close>

lemma sync_inv_step:
  assumes inv: "sync_inv n r f" and t: "t < n"
    and sums: "mutex r' + card (at_place n in_mutex (f(t := p'))) = 1"
      "wrt r' + card (at_place n ((=) Up_body) (f(t := p'))) + of_bool (at_place n holds_wrt (f(t := p')) \<noteq> {}) = 1"
      "readcount r' = of_nat (card (at_place n counted (f(t := p'))))"
    and own: "\<And>v. p' = Lk_store v \<or> p' = Lk_store2 v \<Longrightarrow> v = readcount r'"
      "p' = Lk_wait_wrt \<Longrightarrow> readcount r' = 1" "p' = Lk_post_wrt \<Longrightarrow> readcount r' = 0"
    and frame: "readcount r' = readcount r \<or> in_mutex (f t)"
  shows "sync_inv n r' (f(t := p'))"
proof -
  have others: "(f u = Lk_store v \<or> f u = Lk_store2 v \<longrightarrow> v = readcount r') \<and>
      (f u = Lk_wait_wrt \<longrightarrow> readcount r' = 1) \<and> (f u = Lk_post_wrt \<longrightarrow> readcount r' = 0)"
    if u: "u < n" "u \<noteq> t" for u v
  proof (cases "in_mutex (f t)")
    case True
    then have "\<not> in_mutex (f u)" using one_in_mutex(3) [OF inv t] u by blast
    then show ?thesis by auto
  next
    case False
    then show ?thesis using frame sync_invD(4-7) [OF inv u(1)] by simp
  qed
  show ?thesis
    unfolding sync_inv_def using sums own others by (simp add: fun_upd_def del: at_place_step)
qed

text \<open>A thread that stays where it is keeps the counts.\<close>

lemma at_place_id:
  "t < n \<Longrightarrow> P (f t) \<Longrightarrow> insert t (at_place n P f) = at_place n P f"
  "\<not> P (f t) \<Longrightarrow> at_place n P f - {t} = at_place n P f"
  by (auto simp: at_place_def)

lemma lookup_step_inv:
  assumes inv: "sync_inv n r f" and t: "t < n" and n: "n < 2 ^ 32" and st: "lookup_step r (f t) r' p'"
  shows "sync_inv n r' (f(t := p'))"
proof -
  note D = sync_invD [OF inv] and one = one_in_mutex [OF inv t] and oth = others_hold [OF inv t]
  note rc = readcount_exact [OF inv n]
  have free: "at_place n in_mutex f = {}" if "0 < mutex r"
  proof -
    have "card (at_place n in_mutex f) = 0" using D(1) that by linarith
    then show ?thesis by simp
  qed
  have free_wrt: "at_place n ((=) Up_body) f = {} \<and> at_place n holds_wrt f = {}" if "0 < wrt r"
  proof -
    have "card (at_place n ((=) Up_body) f) = 0 \<and> of_bool (at_place n holds_wrt f \<noteq> {}) = (0 :: nat)"
      using D(2) that by linarith
    then show ?thesis by simp
  qed
  have last_reader: "of_bool (at_place n holds_wrt f \<noteq> {}) = (1 :: nat) \<and> wrt r = 0 \<and>
      at_place n ((=) Up_body) f = {}" if "at_place n holds_wrt f \<noteq> {}"
    using D(2) that by simp
  from st show ?thesis
  proof (cases rule: lookup_step.cases)
    case lk_call
    then show ?thesis using D(1-3) by (intro sync_inv_step [OF inv t]) (simp_all add: at_place_id t)
  next
    case lk_wait_mutex
    then show ?thesis using D(1-3) t free by (intro sync_inv_step [OF inv t]) (simp_all add: at_place_id)
  next
    case lk_load
    then show ?thesis using D(1-3) by (intro sync_inv_step [OF inv t]) (simp_all add: at_place_id t)
  next
    case (lk_store v)
    then show ?thesis using D(1-4) t by (intro sync_inv_step [OF inv t]) (simp_all add: card_insert_if at_place_id)
  next
    case lk_first
    then show ?thesis using D(1-3) by (intro sync_inv_step [OF inv t]) (simp_all add: at_place_id t)
  next
    case lk_not_first
    then have "at_place n counted f \<noteq> {t}" using rc(2) by auto
    moreover have "t \<in> at_place n counted f" using lk_not_first t by simp
    ultimately have "at_place n counted f - {t} \<noteq> {}" by blast
    then have "at_place n holds_wrt f \<noteq> {}" using oth lk_not_first by auto
    then show ?thesis using D(1-3) lk_not_first t by (intro sync_inv_step [OF inv t]) (simp_all add: at_place_id)
  next
    case lk_wait_wrt
    then show ?thesis using D(1-3) t free_wrt by (intro sync_inv_step [OF inv t]) (simp_all add: at_place_id)
  next
    case lk_post_mutex
    then show ?thesis using D(1-3) t one by (intro sync_inv_step [OF inv t]) (simp_all add: at_place_id)
  next
    case lk_find
    then show ?thesis using D(1-3) t by (intro sync_inv_step [OF inv t]) (simp_all add: at_place_id)
  next
    case lk_wait_mutex2
    then show ?thesis using D(1-3) t free by (intro sync_inv_step [OF inv t]) (simp_all add: at_place_id)
  next
    case lk_load2
    then show ?thesis using D(1-3) t by (intro sync_inv_step [OF inv t]) (simp_all add: at_place_id)
  next
    case (lk_store2 v)
    then have "t \<in> at_place n counted f" using t by simp
    then have "0 < card (at_place n counted f)" by (metis card_gt_0_iff empty_iff finite_at_place)
    then show ?thesis using D(1-3) D(5) [OF t] lk_store2 t
      by (intro sync_inv_step [OF inv t]) (simp_all add: at_place_id of_nat_diff)
  next
    case lk_last
    then show ?thesis using D(1-3) t by (intro sync_inv_step [OF inv t]) (simp_all add: at_place_id)
  next
    case lk_not_last
    then have "at_place n holds_wrt f - {t} \<noteq> {}" using rc(1) oth t by (auto simp: at_place_id)
    moreover from this have "at_place n holds_wrt f \<noteq> {}" by blast
    ultimately show ?thesis using D(1-3) last_reader lk_not_last t
      by (intro sync_inv_step [OF inv t]) (simp_all add: at_place_id)
  next
    case lk_post_wrt
    then have "at_place n holds_wrt f - {t} = {}" using D(7) [OF t] rc(1) oth by simp
    moreover have "wrt r = 0" "at_place n ((=) Up_body) f = {}"
      using lk_post_wrt t last_reader mem_at_place [of t n holds_wrt f] by fastforce+
    ultimately show ?thesis using D(1,3) lk_post_wrt t
      by (intro sync_inv_step [OF inv t]) (simp_all add: at_place_id)
  next
    case lk_post_mutex2
    then show ?thesis using D(1-3) t one by (intro sync_inv_step [OF inv t]) (simp_all add: at_place_id)
  qed
qed

lemma update_step_inv:
  assumes inv: "sync_inv n r f" and t: "t < n" and st: "update_step False r (f t) r' p'"
  shows "sync_inv n r' (f(t := p'))"
proof -
  note D = sync_invD [OF inv]
  from st show ?thesis
  proof (cases rule: update_step.cases)
    case up_call
    then show ?thesis using D(1-3) t by (intro sync_inv_step [OF inv t]) (simp_all add: at_place_id)
  next
    case up_wait_wrt
    then have "card (at_place n ((=) Up_body) f) = 0" "of_bool (at_place n holds_wrt f \<noteq> {}) = (0 :: nat)"
      using D(2) by linarith+
    then show ?thesis using D(1-3) up_wait_wrt t by (intro sync_inv_step [OF inv t]) (simp_all add: at_place_id)
  next
    case (up_count m)
    then show ?thesis using D(1-3) t by (intro sync_inv_step [OF inv t]) (simp_all add: at_place_id)
  next
    case up_post_wrt
    then have "t \<in> at_place n ((=) Up_body) f" using t by simp
    moreover from this have "0 < card (at_place n ((=) Up_body) f)"
      by (metis card_gt_0_iff empty_iff finite_at_place)
    moreover from this have "of_bool (at_place n holds_wrt f \<noteq> {}) = (0 :: nat)"
      using D(2) by linarith
    ultimately show ?thesis using D(1-3) up_post_wrt t
      by (intro sync_inv_step [OF inv t]) (simp_all add: at_place_id card_Diff_singleton)
  qed simp
qed

lemma reached_inv:
  assumes "reached n False s" "n < 2 ^ 32"
  shows "sync_inv n (shared s) (pcs s)"
  using assms(1)
proof (induction rule: reached.induct)
  case (new r)
  then show ?case by (simp add: sync_inv_def at_place_def)
next
  case (step s t s')
  from step.hyps(2) step.IH show ?case
    by (cases rule: thread_step.cases) (auto intro: lookup_step_inv update_step_inv assms(2) simp del: fun_upd_apply simp: fun_upd_def [symmetric])
qed
section \<open>Exclusion\<close>




text \<open>A new record, and threads on their way to a state.\<close>

definition new_record :: HashTableRecord where
  "new_record = \<lparr>num_buckets = 4, num_elements = 0, buckets = 8, wrt = 1, mutex = 1, readcount = 0\<rparr>"

lemma reached_new: "reached n grows \<lparr>shared = new_record, pcs = (\<lambda>_. Outside)\<rparr>"
  by (rule reached.new) (simp_all add: new_record_def)

lemma reached_looks_up:
  "reached n grows \<lparr>shared = r, pcs = f\<rparr> \<Longrightarrow> t < n \<Longrightarrow> lookup_step r (f t) r' p' \<Longrightarrow>
   reached n grows \<lparr>shared = r', pcs = f(t := p')\<rparr>"
  using looks_up [of t n "\<lparr>shared = r, pcs = f\<rparr>" r' p' grows] by (auto intro: reached.step)

lemma reached_updates:
  "reached n grows \<lparr>shared = r, pcs = f\<rparr> \<Longrightarrow> t < n \<Longrightarrow> update_step grows r (f t) r' p' \<Longrightarrow>
   reached n grows \<lparr>shared = r', pcs = f(t := p')\<rparr>"
  using updates [of t n grows "\<lparr>shared = r, pcs = f\<rparr>" r' p'] by (auto intro: reached.step)

text \<open>One thread in the body of a writer and another that waits for it.\<close>

lemma writer_inside:
  "reached n grows \<lparr>shared = new_record\<lparr>wrt := 0\<rparr>,
     pcs = (\<lambda>_. Outside)(0 := Up_body, 1 := Up_wait_wrt)\<rparr>" if n: "1 < n"
proof -
  have "reached n grows \<lparr>shared = new_record, pcs = (\<lambda>_. Outside)(0 := Up_wait_wrt)\<rparr>"
    by (rule reached_updates [OF reached_new]) (use n in \<open>simp_all add: up_call\<close>)
  from reached_updates [OF this, of 0 "new_record\<lparr>wrt := 0\<rparr>" Up_body]
  have "reached n grows \<lparr>shared = new_record\<lparr>wrt := 0\<rparr>, pcs = (\<lambda>_. Outside)(0 := Up_body)\<rparr>"
    using n up_wait_wrt [of new_record grows] by (simp add: new_record_def)
  from reached_updates [OF this, of 1] show ?thesis using n by (simp add: up_call)
qed


text \<open>
  With a table that grows the exclusion is lost: \<open>ResizeHashtable\<close> replaces the semaphore that
  the writer holds by one that is free, and the next writer goes in.
\<close>

theorem resize_breaks_exclusion:
  "\<exists>s. reached 2 True s \<and> pcs s 0 = Up_body \<and> pcs s 1 = Up_body"
proof -
  from reached_updates [OF writer_inside [of 2 True], of 0 new_record Up_body]
  have "reached 2 True \<lparr>shared = new_record,
      pcs = (\<lambda>_. Outside)(0 := Up_body, 1 := Up_wait_wrt, 0 := Up_body)\<rparr>"
    by (simp add: up_swap new_record_def)
  from reached_updates [OF this, of 1 "new_record\<lparr>wrt := 0\<rparr>" Up_body] show ?thesis
    using up_wait_wrt [of new_record True] by (intro exI conjI) (simp_all add: new_record_def, assumption?, simp_all?)
qed

section \<open>Progress\<close>

text \<open>A thread inside one of the functions goes on, unless it waits for a semaphore that is 0.\<close>

inductive_simps step_at:
  "lookup_step r Lk_wait_mutex r' p'" "lookup_step r Lk_load r' p'" "lookup_step r (Lk_store v) r' p'"
  "lookup_step r Lk_test r' p'" "lookup_step r Lk_wait_wrt r' p'" "lookup_step r Lk_post_mutex r' p'"
  "lookup_step r Lk_find r' p'" "lookup_step r Lk_wait_mutex2 r' p'" "lookup_step r Lk_load2 r' p'"
  "lookup_step r (Lk_store2 v) r' p'" "lookup_step r Lk_test2 r' p'" "lookup_step r Lk_post_wrt r' p'"
  "lookup_step r Lk_post_mutex2 r' p'" "update_step grows r Up_wait_wrt r' p'"

lemma thread_moves:
  assumes t: "t < n" "pcs s t \<noteq> Outside"
    and m: "pcs s t = Lk_wait_mutex \<or> pcs s t = Lk_wait_mutex2 \<Longrightarrow> 0 < mutex (shared s)"
    and w: "pcs s t = Lk_wait_wrt \<or> pcs s t = Up_wait_wrt \<Longrightarrow> 0 < wrt (shared s)"
  shows "\<exists>s'. thread_step n grows t s s' \<and> pcs s' t \<noteq> pcs s t"
proof -
  have "\<exists>r' p'. (lookup_step (shared s) (pcs s t) r' p' \<or> update_step grows (shared s) (pcs s t) r' p') \<and> p' \<noteq> pcs s t"
  proof (cases "pcs s t = Up_body")
    case True
    show ?thesis unfolding True using up_post_wrt [of grows "shared s"] by blast
  next
    case False
    then show ?thesis using t m w by (cases "pcs s t") (simp_all add: step_at, blast+)
  qed
  then obtain r' p' where st: "lookup_step (shared s) (pcs s t) r' p' \<or> update_step grows (shared s) (pcs s t) r' p'"
    and p: "p' \<noteq> pcs s t" by blast
  from st have "thread_step n grows t s \<lparr>shared = r', pcs = (pcs s)(t := p')\<rparr>"
    using looks_up updates t(1) by blast
  then show ?thesis using p by (intro exI conjI) (assumption, simp)
qed

lemma some_thread_moves:
  assumes inv: "sync_inv n (shared s) (pcs s)" and n: "n < 2 ^ 32" and t: "t < n" "pcs s t \<noteq> Outside"
  shows "\<exists>u s'. u < n \<and> pcs s u \<noteq> Outside \<and> thread_step n grows u s s' \<and> pcs s' u \<noteq> pcs s u"
proof -
  let ?I = "at_place n holds_wrt (pcs s)" and ?U = "at_place n ((=) Up_body) (pcs s)"
  have move: ?thesis if "u < n" "pcs s u \<noteq> Outside"
    "pcs s u = Lk_wait_mutex \<or> pcs s u = Lk_wait_mutex2 \<Longrightarrow> 0 < mutex (shared s)"
    "pcs s u = Lk_wait_wrt \<or> pcs s u = Up_wait_wrt \<Longrightarrow> 0 < wrt (shared s)" for u
    using thread_moves [OF that] that(1,2) by blast
  have writer: ?thesis if wr: "wrt (shared s) = 0" "?I = {}"
  proof -
    have "card ?U \<noteq> 0" using sync_invD(2) [OF inv] wr by simp
    then obtain u where "u < n" "pcs s u = Up_body" by fastforce
    then show ?thesis using move [of u] by simp
  qed
  show ?thesis
  proof (cases "\<exists>h < n. in_mutex (pcs s h)")
    case True
    then obtain h where h: "h < n" "in_mutex (pcs s h)" by blast
    show ?thesis
    proof (cases "pcs s h = Lk_wait_wrt \<and> wrt (shared s) = 0")
      case True
      then have "card (at_place n counted (pcs s)) = 1"
        using sync_invD(6) [OF inv h(1)] readcount_exact(2) [OF inv n] by simp
      then obtain x where x: "at_place n counted (pcs s) = {x}" by (metis card_1_singletonE)
      have "h \<in> at_place n counted (pcs s)" using True h by simp
      then have "x = h" unfolding x by simp
      then have "?I - {h} = {}" using others_hold [OF inv h] x by simp
      moreover have "h \<notin> ?I" using True by simp
      ultimately have "?I = {}" by (metis Diff_insert_absorb Diff_empty insert_Diff_if insert_Diff1 Diff_insert0)
      then show ?thesis using True writer by simp
    next
      case False
      then show ?thesis using h by (intro move [of h]) auto
    qed
  next
    case False
    then have "at_place n in_mutex (pcs s) = {}" by (auto simp: at_place_def)
    then have mu: "0 < mutex (shared s)" using sync_invD(1) [OF inv] by simp
    show ?thesis
    proof (cases "pcs s t = Up_wait_wrt \<and> wrt (shared s) = 0")
      case wait: True
      show ?thesis
      proof (cases "?I = {}")
        case True
        then show ?thesis using wait writer by simp
      next
        case False
        then obtain u where "u < n" "holds_wrt (pcs s u)" by auto
        then show ?thesis using mu by (intro move [of u]) auto
      qed
    next
      case free: False
      have "pcs s t \<noteq> Lk_wait_wrt" using False t(1) by auto
      then show ?thesis using free mu t by (intro move [of t]) auto
    qed
  qed
qed

text \<open>C36. No deadlock: in every reached state with a thread inside one of the functions, some
  thread inside a function has a step that takes it on. So the two semaphores are never both
  waited for in a circle, and a lookup that holds \<open>mutex\<close> while it waits for \<open>wrt\<close> is let in by
  the writer.
\<close>

theorem table_lock_progress:
  assumes "reached n False s" and "n < 2 ^ 32" and "t < n" and "pcs s t \<noteq> Outside"
  shows "\<exists>u s'. u < n \<and> pcs s u \<noteq> Outside \<and> thread_step n False u s s' \<and> pcs s' u \<noteq> pcs s u"
  using some_thread_moves [OF reached_inv [OF assms(1,2)] assms(2-4)] .

theorem table_lock_progress_witness:
  "\<exists>u s'. u < 2 \<and> thread_step 2 False u \<lparr>shared = new_record\<lparr>wrt := 0\<rparr>,
     pcs = (\<lambda>_. Outside)(0 := Up_body, 1 := Up_wait_wrt)\<rparr> s'"
  using table_lock_progress [OF writer_inside [of 2 False], of 1] by (simp, blast)
section \<open>The functions of HashTable.thy take the same steps\<close>

text \<open>
  Each access to the record that \<open>LookupHashTable\<close>, \<open>InsertHashTable\<close> and
  \<open>RemoveFromHashTable\<close> make in the sequential model is a step of the thread that makes it.
\<close>

definition put :: "addr \<Rightarrow> mem \<Rightarrow> HashTableRecord \<Rightarrow> mem" where
  "put a m r = m\<lparr>ht_recs := (ht_recs m)(a \<mapsto> r)\<rparr>"

lemmas run_defs = wait_wrt_def post_wrt_def wait_mutex_def post_mutex_def bnd_def load_def store_def
  halt_def put_def

lemma semaphores_agree:
  assumes r: "ht_recs m a = Some r"
  shows "wait_wrt a m = Inr ((), m') \<longleftrightarrow> (\<exists>r'. lookup_step r Lk_wait_wrt r' Lk_post_mutex \<and> m' = put a m r')"
    and "wait_wrt a m = Inr ((), m') \<longleftrightarrow> (\<exists>r'. update_step grows r Up_wait_wrt r' Up_body \<and> m' = put a m r')"
    and "wait_mutex a m = Inr ((), m') \<longleftrightarrow> (\<exists>r'. lookup_step r Lk_wait_mutex r' Lk_load \<and> m' = put a m r')"
    and "wait_mutex a m = Inr ((), m') \<longleftrightarrow> (\<exists>r'. lookup_step r Lk_wait_mutex2 r' Lk_load2 \<and> m' = put a m r')"
    and "post_mutex a m = Inr ((), m') \<longleftrightarrow> (\<exists>r'. lookup_step r Lk_post_mutex r' Lk_find \<and> m' = put a m r')"
    and "post_mutex a m = Inr ((), m') \<longleftrightarrow> (\<exists>r'. lookup_step r Lk_post_mutex2 r' Outside \<and> m' = put a m r')"
    and "post_wrt a m = Inr ((), m') \<longleftrightarrow> (\<exists>r'. lookup_step r Lk_post_wrt r' Lk_post_mutex2 \<and> m' = put a m r')"
  using r by (cases r; auto simp: step_at run_defs)+

lemma counter_agrees:
  assumes r: "ht_recs m a = Some r"
  shows "wr_ht a (readcount_update (\<lambda>n. n + 1)) m = Inr ((), m') \<longleftrightarrow>
      (\<exists>v r'. lookup_step r Lk_load r (Lk_store v) \<and> lookup_step r (Lk_store v) r' Lk_test \<and> m' = put a m r')"
    and "wr_ht a (readcount_update (\<lambda>n. n - 1)) m = Inr ((), m') \<longleftrightarrow>
      (\<exists>v r'. lookup_step r Lk_load2 r (Lk_store2 v) \<and> lookup_step r (Lk_store2 v) r' Lk_test2 \<and> m' = put a m r')"
  using r by (cases r; auto simp: step_at run_defs)+

text \<open>The swap of the records is the step \<open>up_swap\<close>, and it frees the semaphore.\<close>

lemma swap_agrees:
  assumes "ht_recs m ht = Some r" "ht_recs m newht = Some r'" "ht \<noteq> newht"
    and "wrt r' = 1" "mutex r' = 1" "readcount r' = 0"
  shows "\<exists>m'. swap_records ht newht m = Inr ((), m') \<and> ht_recs m' ht = Some r' \<and> update_step True r Up_body r' Up_body"
  using assms by (simp add: swap_records_def run_defs seq_def up_swap)
end
