(* ===== verification/Hashing.thy ===== *)
theory Hashing
  imports HashTable
begin

text \<open>
  The hash of HashTable.c, \<open>FNVHash64\<close> and \<open>FNVHashInt64\<close>, is the published FNV-1a function: a
  fold over the octets in arithmetic modulo \<open>2\<^sup>6\<^sup>4\<close> on natural numbers, here the reference.
\<close>

section \<open>The reference\<close>

definition fnv1a_step :: "nat \<Rightarrow> nat \<Rightarrow> nat" where
  "fnv1a_step h b = (h XOR b) * (2 ^ 40 + 2 ^ 8 + 0xb3) mod 2 ^ 64"

definition fnv1a :: "nat list \<Rightarrow> nat" where
  "fnv1a bs = foldl fnv1a_step 14695981039346656037 bs"

text \<open>The eight digits of a number to the base 256, the lowest first.\<close>

definition digits256 :: "nat \<Rightarrow> nat list" where
  "digits256 k = map (\<lambda>i. k div 256 ^ i mod 256) [0..<8]"

section \<open>The code computes the reference\<close>

lemma unat_ucast_8: "unat (ucast (b :: 8 word) :: 64 word) = unat b"
  by (simp add: unsigned_ucast_eq take_bit_nat_eq_self unsigned_less [THEN less_le_trans])

lemma FNV_step: "unat ((h XOR ucast b) * FNV_64_PRIME) = fnv1a_step (unat h) (unat b)" for b :: "8 word"
proof -
  have "unat (h XOR ucast b) = unat h XOR unat b" by (simp add: unsigned_xor_eq unat_ucast_8)
  then show ?thesis by (simp add: fnv1a_step_def unat_word_ariths FNV_64_PRIME_def)
qed

lemma FNV_loop: "unat (FNVHash64_loop h bs) = foldl fnv1a_step (unat h) (map unat bs)"
  by (induction bs arbitrary: h) (simp_all add: FNV_step)

lemma octets_digits: "map unat (octets n k) = map (\<lambda>i. unat k div 256 ^ i mod 256) [0..<n]"
proof (induction n arbitrary: k)
  case (Suc n)
  have b: "unat (ucast (k AND 0xFF) :: 8 word) = unat k mod 256"
  proof -
    have "k AND 0xFF = take_bit 8 k" by (simp add: take_bit_eq_mask mask_eq_exp_minus_1)
    then show ?thesis by (simp add: unsigned_ucast_eq take_bit_eq_mod unat_mod)
  qed
  have d: "unat (drop_bit 8 k) = unat k div 256"
  proof -
    have "take_bit 64 (unat k) = unat k" by (rule take_bit_nat_eq_self) (use unsigned_less [of k] in simp)
    then show ?thesis by (simp only: unsigned_drop_bit_eq) (simp add: drop_bit_eq_div)
  qed
  have "map unat (octets (Suc n) k) = unat k mod 256 # map (\<lambda>i. unat k div 256 div 256 ^ i mod 256) [0..<n]"
    using b d Suc.IH [of "drop_bit 8 k"] by simp
  also have "\<dots> = map (\<lambda>i. unat k div 256 ^ i mod 256) (0 # map Suc [0..<n])"
    by (simp add: div_mult2_eq)
  also have "0 # map Suc [0..<n] = [0..<Suc n]" by (metis map_Suc_upt upt_conv_Cons zero_less_Suc)
  finally show ?case .
qed simp

text \<open>C37. The hash of the code equals the reference FNV-1a: of a buffer, the fold over its octets
  read as numbers; of a 64-bit key, the fold over its eight digits to the base 256, whatever the
  byte order of the machine.
\<close>

theorem hash_is_fnv1a:
  "unat (FNVHash64 bs) = fnv1a (map unat bs) \<and>
   unat (FNVHashInt64 key) = fnv1a (digits256 (unat key))"
  by (simp_all add: FNVHashInt64_def FNVHash64_def FNV_loop octets_digits fnv1a_def digits256_def
      FNV1_64_INIT_def)

end
