(* ===== verification/TableFree.thy ===== *)
theory TableFree
  imports HashTableMap
begin

text \<open>
  What \<open>FreeHashTable\<close> of HashTable.c does with the entries of a table: it pops one entry of each
  bucket before the loop that frees them, so the loop frees nothing or frees the same entry again
  and again.
\<close>

section \<open>One bucket\<close>

text \<open>What stays as it was while buckets are freed.\<close>

definition kept :: "mem \<Rightarrow> mem \<Rightarrow> bool" where
  "kept s s' \<longleftrightarrow> s' = s\<lparr>ll_nodes := ll_nodes s', ll_lists := ll_lists s'\<rparr>"

lemma kept_refl: "kept s s" by (simp add: kept_def)

lemma kept_trans: "kept s s' \<Longrightarrow> kept s' s'' \<Longrightarrow> kept s s''"
  unfolding kept_def by (cases s; cases s'; cases s'') simp

lemma keptD:
  assumes "kept s s'"
  shows "kvs s' = kvs s" "ht_recs s' = ht_recs s" "ptr_arrays s' = ptr_arrays s" "next_addr s' = next_addr s"
    "ll_iters s' = ll_iters s" "ht_iters s' = ht_iters s" "oom s' = oom s"
  using assms unfolding kept_def by (cases s; cases s'; simp)+

lemma kept_lists: "kept s s' \<Longrightarrow> kept s (s'\<lparr>ll_nodes := N, ll_lists := H\<rparr>)"
  unfolding kept_def by (cases s; cases s') simp

lemma ll_frame_kept: "ll_frame s s' \<Longrightarrow> next_addr s' = next_addr s \<Longrightarrow> kept s s'"
  unfolding ll_frame_def kept_def by (cases s; cases s') simp

lemma free_empty_list:
  assumes "ll_inv s S" and "S l = Some []"
  shows "runs_to (FreeLinkedList l NullFree) s (\<lambda>_ s'. ll_inv s' (S(l := None)) \<and> kept s s')"
  by (rule runs_to_mono [OF FreeLinkedList_law [OF assms, where P = "\<lambda>xs s'. xs = [] \<and> kept s s'"]])
    (auto simp: kept_refl kept_lists)

lemma free_entries_none:
  assumes "ll_inv s S" and "S l = Some []"
  shows "free_entries l ff nextKV s = Inr ((), s)"
  unfolding free_entries_def
  using NumElementsInLinkedList_law [OF assms]
  by (intro whileM_exit) (auto simp: runs_to_iff prog_defs word_unat_eq_iff word_gt_0)

text \<open>A bucket with at most one entry is freed, and its entry is lost.\<close>

lemma free_bucket_small:
  assumes inv: "ll_inv s S" and at: "chain_at s S l ks" and len: "length ks \<le> 1"
    and b: "get_bucket t (unat i) s = Inr (l, s)"
  shows "runs_to (free_bucket t NullFree i) s
    (\<lambda>i' s'. i' = i + 1 \<and> ll_inv s' (S(l := None)) \<and> kept s s')"
proof -
  from at obtain ns where ns: "S l = Some ns" "map snd ns = map fst ks" by (auto simp: chain_at_def)
  have lns: "length ns \<le> 1" using len arg_cong [OF ns(2), of length] by simp
  have "runs_to (PopLinkedList l) s (\<lambda>_ s'. ll_inv s' (S(l \<mapsto> [])) \<and> kept s s')"
    by (rule runs_to_mono [OF PopLinkedList_law [OF inv ns(1)]])
      (use lns ns(1) inv in \<open>auto simp: kept_refl fun_upd_idem dest: ll_frame_kept split: list.splits\<close>)
  then have "runs_to (PopLinkedList l) s (\<lambda>nextKV s'. runs_to (free_entries l NullFree nextKV) s'
      (\<lambda>_ s''. runs_to (FreeLinkedList l NullFree) s'' (\<lambda>_ s'. ll_inv s' (S(l := None)) \<and> kept s s')))"
  proof (rule runs_to_mono)
    fix nextKV s'
    assume s': "ll_inv s' (S(l \<mapsto> [])) \<and> kept s s'"
    then have inv': "ll_inv s' (S(l \<mapsto> []))" by blast
    have "runs_to (FreeLinkedList l NullFree) s' (\<lambda>_ s'. ll_inv s' (S(l := None)) \<and> kept s s')"
      by (rule runs_to_mono [OF free_empty_list [OF inv', of l]]) (use s' in \<open>auto intro: kept_trans\<close>)
    moreover have "free_entries l NullFree nextKV s' = Inr ((), s')"
      by (rule free_entries_none [OF inv']) simp
    ultimately show "runs_to (free_entries l NullFree nextKV) s'
      (\<lambda>_ s''. runs_to (FreeLinkedList l NullFree) s'' (\<lambda>_ s'. ll_inv s' (S(l := None)) \<and> kept s s'))"
      by (simp add: runs_to_def [of "free_entries l NullFree nextKV"])
  qed
  then show ?thesis using b by (simp add: free_bucket_def wp) (simp add: runs_to_def)
qed

text \<open>A bucket with two entries: the entry that was popped is freed and then read again.\<close>

lemma free_entries_twice:
  assumes inv: "ll_inv s S" and l: "S l = Some (n # ns)" and p: "p \<noteq> NULL" "kvs s p = Some kv"
  shows "free_entries l NullFree (Some p) s = Inl Undefined"
proof -
  let ?c = "\<lambda>_ :: unit. bnd (NumElementsInLinkedList l) (\<lambda>n. ret (n > 0))"
  let ?b = "\<lambda>_ :: unit. bnd (rd_kv p) (\<lambda>kv. seq (NullFree (kv_value kv)) (dealloc kvs kvs_update p))"
  let ?s = "s\<lparr>kvs := (kvs s)(p := None)\<rparr>"
  have go: "?c () s' = Inr (True, s')" if "ll_inv s' S" for s'
    using NumElementsInLinkedList_law [OF that l]
    by (auto simp: runs_to_iff prog_defs word_gt_0 unat_eq_0)
  have inv2: "ll_inv ?s S" using inv by (subst ll_inv_cong [of _ s]) simp_all
  have "whileM ?c ?b () s = whileM ?c ?b () ?s"
    by (rule whileM_iter [where c = ?c and b = ?b and v = "()", OF go [OF inv]]) (use p in \<open>simp add: prog_defs NullFree_def\<close>)
  also have "\<dots> = Inl Undefined"
    by (subst whileM_unfold, rule bnd_stops, rule runs_toI, rule go [OF inv2])
      (simp add: prog_defs)
  finally show ?thesis by (simp add: free_entries_def)
qed

lemma free_bucket_large:
  assumes inv: "ll_inv s S" and at: "chain_at s S l ks" and len: "1 < length ks"
    and nz: "below (kvs s) n" and b: "get_bucket t (unat i) s = Inr (l, s)"
  shows "free_bucket t NullFree i s = Inl Undefined"
proof -
  from len obtain p kv ks' where ks: "ks = (p, kv) # ks'" "ks' \<noteq> []"
    by (cases ks) auto
  from at ks obtain a ns where ns: "S l = Some ((a, p) # ns)" "map snd ns = map fst ks'"
    and p: "kvs s p = Some kv" by (auto simp: chain_at_def Cons_eq_map_conv)
  from ns(2) ks(2) obtain n ns' where n: "ns = n # ns'" by (cases ns) auto
  have p0: "p \<noteq> NULL" using below_bound [OF nz p] by simp
  have "runs_to (PopLinkedList l) s (\<lambda>nextKV s'. seq (free_entries l NullFree nextKV)
      (seq (FreeLinkedList l NullFree) (ret (i + 1))) s' = Inl Undefined)"
    by (rule runs_to_mono [OF PopLinkedList_law [OF inv ns(1)]])
      (use n p p0 in \<open>auto simp: seq_def bnd_def free_entries_twice dest!: ll_frame_kept dest: keptD(1)\<close>)
  then have "bnd (PopLinkedList l) (\<lambda>nextKV. seq (free_entries l NullFree nextKV)
      (seq (FreeLinkedList l NullFree) (ret (i + 1)))) s = Inl Undefined" by (rule bnd_stops)
  then show ?thesis using b by (simp add: free_bucket_def bnd_def [of "get_bucket t (unat i)"])
qed
section \<open>The loop over the buckets\<close>

lemma bucket_index:
  assumes "i \<le> n" "n < (2 :: nat) ^ 32"
  shows "unat (of_nat i :: 32 word) = i"
    and "(ucast (of_nat i :: 32 word) :: 64 word) < of_nat n \<longleftrightarrow> i < n"
proof -
  have i: "i < 2 ^ 32" using assms by linarith
  then show u: "unat (of_nat i :: 32 word) = i" by (simp add: unat_of_nat take_bit_nat_eq_self)
  have "unat (ucast (of_nat i :: 32 word) :: 64 word) = i"
    using i u by (simp add: unsigned_ucast_eq take_bit_nat_eq_self)
  moreover have "unat (of_nat n :: 64 word) = n" using assms(2) by (simp add: unat_of_nat take_bit_nat_eq_self)
  ultimately show "(ucast (of_nat i :: 32 word) :: 64 word) < of_nat n \<longleftrightarrow> i < n"
    by (simp add: word_less_nat_alt)
qed

text \<open>The buckets from \<open>i\<close> on are still there.\<close>

definition rest_at :: "mem \<Rightarrow> (addr \<rightharpoonup> nodes) \<Rightarrow> addr list \<Rightarrow> entries list \<Rightarrow> nat \<Rightarrow> bool" where
  "rest_at s S bs L i \<longleftrightarrow> ll_inv s S \<and> (\<forall>j. i \<le> j \<and> j < length L \<longrightarrow> chain_at s S (bs ! j) (L ! j))"

abbreviation free_loop :: "addr \<Rightarrow> nat \<Rightarrow> (mem, 32 word) prog" where
  "free_loop t i \<equiv> whileM (\<lambda>i :: 32 word. bnd (rd_ht t) (\<lambda>r. ret (ucast i < num_buckets r)))
     (free_bucket t NullFree) (of_nat i)"

lemma free_loop_step:
  assumes T: "table s0 S0 t r bs L" and k: "kept s0 s" and i: "i < length L" and R: "rest_at s S bs L i"
  shows "free_loop t i s = bnd (free_bucket t NullFree (of_nat i)) (\<lambda>i'. whileM
      (\<lambda>i :: 32 word. bnd (rd_ht t) (\<lambda>r. ret (ucast i < num_buckets r))) (free_bucket t NullFree) i') s"
    and "length (L ! i) \<le> 1 \<Longrightarrow> runs_to (free_bucket t NullFree (of_nat i)) s
      (\<lambda>i' s'. i' = of_nat (Suc i) \<and> kept s0 s' \<and> rest_at s' (S(bs ! i := None)) bs L (Suc i))"
    and "below (kvs s0) n \<Longrightarrow> 1 < length (L ! i) \<Longrightarrow> free_bucket t NullFree (of_nat i) s = Inl Undefined"
proof -
  note D = tableD [OF T]
  note K = keptD [OF k]
  have r: "ht_recs s t = Some r" using K(2) D(1) by simp
  note ix = bucket_index [OF less_imp_le [OF i] D(5)]
  show "free_loop t i s = bnd (free_bucket t NullFree (of_nat i)) (\<lambda>i'. whileM
      (\<lambda>i :: 32 word. bnd (rd_ht t) (\<lambda>r. ret (ucast i < num_buckets r))) (free_bucket t NullFree) i') s"
    by (subst whileM_unfold) (simp add: prog_defs r D(3) ix i)
  have b: "get_bucket t (unat (of_nat i :: 32 word)) s = Inr (bs ! i, s)"
    unfolding ix(1) using K by (intro get_bucket_law [OF T i r]) simp_all
  have at: "ll_inv s S" "chain_at s S (bs ! i) (L ! i)" using R i by (auto simp: rest_at_def)
  show "free_bucket t NullFree (of_nat i) s = Inl Undefined" if "below (kvs s0) n" "1 < length (L ! i)"
    using free_bucket_large [OF at that(2) _ b, of n] that(1) K(1) by simp
  show "runs_to (free_bucket t NullFree (of_nat i)) s
      (\<lambda>i' s'. i' = of_nat (Suc i) \<and> kept s0 s' \<and> rest_at s' (S(bs ! i := None)) bs L (Suc i))"
    if "length (L ! i) \<le> 1"
  proof (rule runs_to_mono [OF free_bucket_small [OF at that b]])
    fix i' s'
    assume s': "i' = of_nat i + 1 \<and> ll_inv s' (S(bs ! i := None)) \<and> kept s s'"
    have "chain_at s' (S(bs ! i := None)) (bs ! j) (L ! j)" if "Suc i \<le> j" "j < length L" for j
    proof -
      have "bs ! j \<noteq> bs ! i" using that i D(6,7) by (simp add: nth_eq_iff_index_eq)
      moreover have "chain_at s S (bs ! j) (L ! j)" using R that by (simp add: rest_at_def)
      moreover have "kvs s' = kvs s" using keptD(1) s' by blast
      ultimately show ?thesis by (simp add: chain_at_def)
    qed
    then show "i' = of_nat (Suc i) \<and> kept s0 s' \<and> rest_at s' (S(bs ! i := None)) bs L (Suc i)"
      using s' kept_trans [OF k] by (simp add: rest_at_def add.commute)
  qed
qed

lemma free_loop_small:
  assumes T: "table s0 S0 t r bs L" and small: "\<forall>ks \<in> set L. length ks \<le> 1"
    and "kept s0 s" "i \<le> length L" "rest_at s S bs L i" "\<forall>l. l \<notin> set bs \<longrightarrow> S l = S0 l"
  shows "runs_to (free_loop t i) s (\<lambda>_ s'. kept s0 s' \<and> (\<exists>S'. ll_inv s' S' \<and> (\<forall>l. l \<notin> set bs \<longrightarrow> S' l = S0 l)))"
  using assms(3-6)
proof (induction "length L - i" arbitrary: i s S)
  case 0
  then show ?case using tableD [OF T] bucket_index [of i "length L"]
    by (subst whileM_unfold) (auto simp: wp keptD(2) rest_at_def)
next
  case (Suc m)
  then have i: "i < length L" by simp
  have "runs_to (free_bucket t NullFree (of_nat i)) s (\<lambda>i' s'. runs_to (whileM
      (\<lambda>i :: 32 word. bnd (rd_ht t) (\<lambda>r. ret (ucast i < num_buckets r))) (free_bucket t NullFree) i') s'
      (\<lambda>_ s'. kept s0 s' \<and> (\<exists>S'. ll_inv s' S' \<and> (\<forall>l. l \<notin> set bs \<longrightarrow> S' l = S0 l))))"
    by (rule runs_to_mono [OF free_loop_step(2) [OF T Suc.prems(1) i Suc.prems(3)]])
      (use Suc.hyps Suc.prems(4) small i tableD(6) [OF T] in \<open>auto intro!: Suc.hyps(1) simp del: of_nat_Suc\<close>)
  then show ?case
    unfolding runs_to_def [of "free_loop t i"] free_loop_step(1) [OF T Suc.prems(1) i Suc.prems(3)]
    by (simp only: runs_to_def [symmetric] wp)
qed

lemma free_loop_large:
  assumes T: "table s0 S0 t r bs L" and nz: "below (kvs s0) n"
    and "i \<le> j" "j < length L" "1 < length (L ! j)" "kept s0 s" "rest_at s S bs L i"
  shows "free_loop t i s = Inl Undefined"
  using assms(3-7)
proof (induction "j - i" arbitrary: i s S)
  case 0
  then have "i = j" by simp
  with 0 show ?case
    using free_loop_step(1,3) [OF T 0(5), of i S] nz by (simp add: bnd_def)
next
  case (Suc m)
  then have i: "i < length L" by simp
  note st = free_loop_step [OF T Suc.prems(4) i Suc.prems(5)]
  show ?case
  proof (cases "1 < length (L ! i)")
    case True
    then show ?thesis using st(1) st(3) [OF nz] by (simp add: bnd_def)
  next
    case False
    then have "runs_to (free_bucket t NullFree (of_nat i)) s (\<lambda>i' s'. whileM
      (\<lambda>i :: 32 word. bnd (rd_ht t) (\<lambda>r. ret (ucast i < num_buckets r))) (free_bucket t NullFree) i' s'
      = Inl Undefined)"
      by (intro runs_to_mono [OF st(2)]) (use Suc in \<open>auto intro!: Suc.hyps(1) simp del: of_nat_Suc\<close>)
    then show ?thesis unfolding st(1) by (rule bnd_stops)
  qed
qed

section \<open>The whole table\<close>

lemma FreeHashTable_small:
  assumes T: "table s S t r bs L" and H: "heap_ok s S" and small: "\<forall>ks \<in> set L. length ks \<le> 1"
  shows "runs_to (FreeHashTable t NullFree) s (\<lambda>_ s'. \<exists>S'. heap_ok s' S' \<and> (\<forall>l. l \<notin> set bs \<longrightarrow> S' l = S l) \<and>
    s' = s\<lparr>ll_nodes := ll_nodes s', ll_lists := ll_lists s', ptr_arrays := (ptr_arrays s)(buckets r := None),
      ht_recs := (ht_recs s)(t := None)\<rparr>)"
proof -
  note D = tableD [OF T]
  have nz: "t \<noteq> NULL" "buckets r \<noteq> NULL"
    using below_bound [OF heap_okD(3) [OF H] D(1)] below_bound [OF heap_okD(4) [OF H] D(2)] by simp_all
  have "rest_at s S bs L 0" using T heap_okD(1) [OF H] by (simp add: rest_at_def tableD(8))
  from free_loop_small [OF T small kept_refl _ this]
  have "runs_to (free_loop t 0) s (\<lambda>_ s'. kept s s' \<and> (\<exists>S'. ll_inv s' S' \<and> (\<forall>l. l \<notin> set bs \<longrightarrow> S' l = S l)))"
    by simp
  then obtain x s1 S' where loop: "free_loop t 0 s = Inr (x, s1)" and k: "kept s s1"
    and inv: "ll_inv s1 S'" and S': "\<forall>l. l \<notin> set bs \<longrightarrow> S' l = S l" by (auto elim!: runs_toE)
  note K = keptD [OF k]
  let ?s = "s1\<lparr>ptr_arrays := (ptr_arrays s)(buckets r := None), ht_recs := (ht_recs s)(t := None)\<rparr>"
  have run: "FreeHashTable t NullFree s = Inr ((), ?s)"
    using loop D(1,2) nz K by (simp add: FreeHashTable_def prog_defs)
  have "heap_ok ?s S'"
    using inv heap_okD(2-5) [OF H] K ll_inv_cong [of ?s s1] by (simp add: heap_ok_def)
  moreover have "?s = s\<lparr>ll_nodes := ll_nodes ?s, ll_lists := ll_lists ?s, ptr_arrays := (ptr_arrays s)(buckets r := None),
      ht_recs := (ht_recs s)(t := None)\<rparr>" using k unfolding kept_def by (cases s; cases s1) simp
  ultimately show ?thesis unfolding runs_to_def run using S' by auto
qed

lemma FreeHashTable_large:
  assumes T: "table s S t r bs L" and H: "heap_ok s S" and j: "j < length L" "1 < length (L ! j)"
  shows "FreeHashTable t NullFree s = Inl Undefined"
proof -
  have "rest_at s S bs L 0" using T heap_okD(1) [OF H] by (simp add: rest_at_def tableD(8))
  from free_loop_large [OF T heap_okD(2) [OF H] _ j kept_refl this]
  show ?thesis by (simp add: FreeHashTable_def bnd_def)
qed

text \<open>The length of a bucket, from the keys of the map.\<close>

lemma bucket_keys:
  assumes T: "table s S t r bs L" and i: "i < length L"
  shows "kv_key ` snd ` set (L ! i) = {k \<in> dom (contents L). unat k mod length L = i}"
    and "card (kv_key ` snd ` set (L ! i)) = length (L ! i)"
proof -
  have h: "hashed (length L) i (L ! i)" by (rule tableD(9) [OF T i])
  then have "unat k mod length L = i" if "k \<in> kv_key ` snd ` set (L ! i)" for k
    using that by (auto simp: hashed_def)
  moreover have "k \<in> dom (contents L) \<longleftrightarrow> k \<in> kv_key ` snd ` set (L ! i)" if "unat k mod length L = i" for k
    using that by (simp add: dom_def [of "contents L"] contents_def dom_bucket_map [symmetric]) (simp add: dom_def)
  ultimately show "kv_key ` snd ` set (L ! i) = {k \<in> dom (contents L). unat k mod length L = i}"
    by blast
  from h show "card (kv_key ` snd ` set (L ! i)) = length (L ! i)"
    unfolding hashed_def image_comp by (metis distinct_card length_map set_map)
qed

lemma bucket_entries:
  assumes T: "table s S t r bs L" and k: "contents L k = Some v"
  shows "\<exists>p. kvs s p = Some \<lparr>kv_key = k, kv_value = v\<rparr>"
proof -
  let ?i = "unat k mod length L"
  have i: "?i < length L" using tableD(4) [OF T] by simp
  from k have "(k, v) \<in> set (map (\<lambda>(p, kv). (kv_key kv, kv_value kv)) (L ! ?i))"
    unfolding contents_def bucket_map_def by (rule map_of_SomeD)
  then obtain p kv where "(p, kv) \<in> set (L ! ?i)" "kv_key kv = k" "kv_value kv = v" by auto
  moreover from this have "kvs s p = Some kv" using tableD(8) [OF T i] by (auto simp: chain_at_def)
  ultimately show ?thesis by (cases kv) auto
qed

text \<open>C39. \<open>FreeHashTable\<close> does not free a table: on a table of which two keys share a bucket its run
  is undefined (it reads an entry after it freed it); on a table without such keys it returns and
  frees the record and the array, but no entry: all pairs of the table stay allocated.
\<close>

theorem free_table_loses_entries:
  assumes "ht_ok nb t s M"
  shows "if \<exists>k \<in> dom M. \<exists>k' \<in> dom M. k \<noteq> k' \<and> unat k mod nb = unat k' mod nb
    then FreeHashTable t NullFree s = Inl Undefined
    else runs_to (FreeHashTable t NullFree) s (\<lambda>_ s'. ht_recs s' t = None \<and>
      (\<forall>k v. M k = Some v \<longrightarrow> (\<exists>p. kvs s' p = Some \<lparr>kv_key = k, kv_value = v\<rparr>)))"
proof -
  from assms obtain S r bs L where H: "heap_ok s S" and T: "table s S t r bs L"
    and L: "length L = nb" "contents L = M" by (rule ht_okE)
  have fin: "finite (dom M)" using dom_contents(1) [of L] tableD(4,9) [OF T] L by auto
  note keys = bucket_keys [OF T, unfolded L]
  show ?thesis
  proof (cases "\<exists>k \<in> dom M. \<exists>k' \<in> dom M. k \<noteq> k' \<and> unat k mod nb = unat k' mod nb")
    case True
    then obtain k k' where k: "k \<in> dom M" "k' \<in> dom M" "k \<noteq> k'" "unat k mod nb = unat k' mod nb" by blast
    let ?i = "unat k mod nb"
    have i: "?i < nb" using tableD(4) [OF T] L by simp
    have "card {k, k'} \<le> card (kv_key ` snd ` set (L ! ?i))"
      unfolding keys(1) [OF i] using k fin by (intro card_mono) auto
    then have "1 < length (L ! ?i)" using keys(2) [OF i] k(3) by simp
    from FreeHashTable_large [OF T H _ this] i L True show ?thesis by simp
  next
    case False
    have "length ks \<le> 1" if "ks \<in> set L" for ks
    proof -
      from that obtain i where i: "i < nb" "ks = L ! i" using L by (auto simp: in_set_conv_nth)
      let ?K = "{k \<in> dom M. unat k mod nb = i}"
      have "\<forall>k \<in> ?K. \<forall>k' \<in> ?K. k = k'" using False by blast
      moreover have "finite ?K" using fin by simp
      ultimately have "card (kv_key ` snd ` set ks) \<le> 1"
        unfolding i(2) keys(1) [OF i(1)] by (simp only: card_le_Suc0_iff_eq One_nat_def)
      then show ?thesis using keys(2) [OF i(1)] i(2) by simp
    qed
    then have "runs_to (FreeHashTable t NullFree) s (\<lambda>_ s'. kvs s' = kvs s \<and> ht_recs s' = (ht_recs s)(t := None))"
      by (intro runs_to_mono [OF FreeHashTable_small [OF T H]], blast) (elim exE conjE, erule ssubst, simp)
    then have "runs_to (FreeHashTable t NullFree) s (\<lambda>_ s'. ht_recs s' t = None \<and>
      (\<forall>k v. M k = Some v \<longrightarrow> (\<exists>p. kvs s' p = Some \<lparr>kv_key = k, kv_value = v\<rparr>)))"
      by (rule runs_to_mono) (use bucket_entries [OF T] L in simp)
    then show ?thesis unfolding if_not_P [OF False] .
  qed
qed

text \<open>Keys 5 and 9 share a bucket of four.\<close>

lemma free_table_loses_entries_witness:
  "runs_to (bnd (AllocateHashTable 4) (\<lambda>t.
     bnd (InsertHashTable 1 t \<lparr>kv_key = 5, kv_value = 100\<rparr>) (\<lambda>_.
     InsertHashTable 1 t \<lparr>kv_key = 9, kv_value = 200\<rparr>))) mem0
   (\<lambda>_ s'. FreeHashTable 1 NullFree s' = Inl Undefined)"
proof (rule new_table_runs)
  fix s assume ok: "ht_ok 4 1 s Map.empty"
  note ins = ht_put [of 4 1 _ _ 0, folded One_nat_def]
  show "runs_to (bnd (InsertHashTable 1 1 \<lparr>kv_key = 5, kv_value = 100\<rparr>) (\<lambda>_.
     InsertHashTable 1 1 \<lparr>kv_key = 9, kv_value = 200\<rparr>)) s
   (\<lambda>_ s'. FreeHashTable 1 NullFree s' = Inl Undefined)"
    unfolding wp
  proof (rule runs_to_mono [OF ins [OF ok]], simp, rule runs_to_mono [OF ins], assumption, simp)
    fix s'
    assume "ht_ok 4 1 s' ((Map.empty(5 \<mapsto> 100))(9 \<mapsto> 200))"
    from free_table_loses_entries [OF this] show "FreeHashTable 1 NullFree s' = Inl Undefined"
      by (simp split: if_splits)
  qed
qed

end
