(* ===== verification/TableIter.thy ===== *)
theory TableIter
  imports TableFree
begin

text \<open>
  The iterators of HashTable.c: an iterator goes through the entries of a table bucket by bucket,
  and within a bucket in the order of its list.
\<close>

section \<open>An iterator in memory\<close>

text \<open>
  \<open>on_entry s S t bs L it xs\<close>: the iterator \<open>it\<close> of the table at \<open>t\<close> is on the first of the
  entries \<open>xs\<close>, which are those that it has still to go through.
\<close>

definition on_entry :: "mem \<Rightarrow> (addr \<rightharpoonup> nodes) \<Rightarrow> addr \<Rightarrow> addr list \<Rightarrow> entries list \<Rightarrow> addr \<Rightarrow> entries \<Rightarrow> bool" where
  "on_entry s S t bs L it xs \<longleftrightarrow>
     (\<exists>i ks1 x ks2 li ll ms a ns. i < length L \<and> L ! i = ks1 @ x # ks2 \<and>
        xs = x # ks2 @ concat (drop (Suc i) L) \<and>
        ht_iters s it = Some \<lparr>is_valid = True, hit_ht = t, bucket_num = of_nat i, bucket_it = li\<rparr> \<and>
        ll_iters s li = Some ll \<and> it_list ll = bs ! i \<and> at_node S ll ms a (fst x) ns \<and>
        map snd ns = map fst ks2)"

text \<open>The iterator is past the last entry.\<close>

definition past_end :: "mem \<Rightarrow> addr \<Rightarrow> addr \<Rightarrow> bool" where
  "past_end s t it \<longleftrightarrow> (\<exists>h. ht_iters s it = Some h \<and> \<not> is_valid h \<and> hit_ht h = t \<and>
     (bucket_it h = NULL \<or> ll_iters s (bucket_it h) \<noteq> None))"

definition iterates :: "mem \<Rightarrow> (addr \<rightharpoonup> nodes) \<Rightarrow> addr \<Rightarrow> addr list \<Rightarrow> entries list \<Rightarrow> addr \<Rightarrow> entries \<Rightarrow> bool" where
  "iterates s S t bs L it xs \<longleftrightarrow> (if xs = [] then past_end s t it else on_entry s S t bs L it xs)"

text \<open>What an operation on iterators changes.\<close>

definition it_frame :: "mem \<Rightarrow> mem \<Rightarrow> bool" where
  "it_frame s s' \<longleftrightarrow> next_addr s \<le> next_addr s' \<and>
     s' = s\<lparr>next_addr := next_addr s', ll_iters := ll_iters s', ht_iters := ht_iters s'\<rparr>"

lemma it_frameD:
  assumes "it_frame s s'"
  shows "next_addr s \<le> next_addr s'" "kvs s' = kvs s" "ht_recs s' = ht_recs s" "ptr_arrays s' = ptr_arrays s"
    "ll_nodes s' = ll_nodes s" "ll_lists s' = ll_lists s" "oom s' = oom s"
  using assms unfolding it_frame_def by (cases s; cases s'; simp)+

lemma it_frame_refl: "it_frame s s"
  by (simp add: it_frame_def)

lemma it_frame_trans: "it_frame s s' \<Longrightarrow> it_frame s' s'' \<Longrightarrow> it_frame s s''"
  unfolding it_frame_def by (cases s; cases s'; cases s'') simp

lemma table_it_frame: "it_frame s s' \<Longrightarrow> table s' S t r bs L = table s S t r bs L"
  by (rule table_cong) (auto dest: it_frameD)

section \<open>Get and past the end\<close>

lemma entry_at:
  assumes "table s S t r bs L" and "on_entry s S t bs L it xs"
  shows "kvs s (fst (hd xs)) = Some (snd (hd xs))" "hd xs \<in> set (concat L)" "xs \<noteq> []"
proof -
  from assms(2) obtain i ks1 x ks2 where i: "i < length L" "L ! i = ks1 @ x # ks2"
    and xs: "xs = x # ks2 @ concat (drop (Suc i) L)" unfolding on_entry_def by blast
  have "x \<in> set (L ! i)" using i by simp
  then show "hd xs \<in> set (concat L)" using i(1) xs nth_mem [of i L] by fastforce
  show "kvs s (fst (hd xs)) = Some (snd (hd xs))"
    using tableD(8) [OF assms(1) i(1)] i(2) xs by (auto simp: chain_at_def split: prod.splits)
  show "xs \<noteq> []" by (simp add: xs)
qed

lemma HTIteratorPastEnd_law:
  assumes "table s S t r bs L" and "num_elements r \<noteq> 0 \<or> xs = []" and "iterates s S t bs L it xs"
  shows "HTIteratorPastEnd it s = Inr (xs = [], s)"
  using assms tableD(1) [OF assms(1)]
  by (auto simp: HTIteratorPastEnd_def prog_defs iterates_def past_end_def on_entry_def split: if_splits)

lemma HTIteratorGet_law:
  assumes heap: "heap_ok s S" and tab: "table s S t r bs L" and ne: "num_elements r \<noteq> 0"
    and on: "on_entry s S t bs L it xs"
  shows "HTIteratorGet it s = Inr (Some (snd (hd xs)), s)"
proof -
  note E = entry_at [OF tab on]
  have past: "HTIteratorPastEnd it s = Inr (False, s)"
    using HTIteratorPastEnd_law [OF tab, of xs it] ne on E(3) by (simp add: iterates_def)
  from on obtain li ll ms a ns i where
    h: "ht_iters s it = Some \<lparr>is_valid = True, hit_ht = t, bucket_num = of_nat i, bucket_it = li\<rparr>"
    and l: "ll_iters s li = Some ll" "at_node S ll ms a (fst (hd xs)) ns"
    unfolding on_entry_def by fastforce
  from LLIteratorGetPayload_law [OF heap_okD(1) [OF heap] l]
  have "LLIteratorGetPayload li s = Inr (fst (hd xs), s)" by (auto simp: runs_to_iff)
  then show ?thesis using past h E(1) by (simp add: HTIteratorGet_def prog_defs)
qed

section \<open>Next\<close>

lemma bucket_word:
  assumes "i < n" "n < (2 :: nat) ^ 32"
  shows "unat (of_nat i :: 64 word) = i"
    and "(of_nat n :: 64 word) \<le> of_nat (Suc i) \<longleftrightarrow> n \<le> Suc i"
proof -
  have u: "unat (of_nat k :: 64 word) = k" if "k \<le> n" for k
    using that assms(2) by (simp add: unat_of_nat take_bit_nat_eq_self)
  then show "unat (of_nat i :: 64 word) = i" using assms(1) by simp
  show "(of_nat n :: 64 word) \<le> of_nat (Suc i) \<longleftrightarrow> n \<le> Suc i"
    using u [of n] u [of "Suc i"] assms(1) by (simp add: word_le_nat_alt del: of_nat_Suc)
qed

text \<open>The loop over the buckets after \<open>i\<close>: the first one that is not empty, or the end.\<close>

definition next_found :: "addr list \<Rightarrow> entries list \<Rightarrow> nat \<Rightarrow> HTIterRecord \<Rightarrow> bool \<times> bool \<times> addr \<Rightarrow> HTIterRecord \<Rightarrow> bool" where
  "next_found bs L i h v h' \<longleftrightarrow>
     (if concat (drop (Suc i) L) = [] then v = (False, True, NULL) \<and> h' = h\<lparr>is_valid := False, bucket_num := of_nat (length L)\<rparr>
      else \<exists>j. j < length L \<and> L ! j \<noteq> [] \<and> v = (False, False, bs ! j) \<and> h' = h\<lparr>bucket_num := of_nat j\<rparr> \<and>
        concat (drop (Suc i) L) = concat (drop j L))"

lemma next_bucket_law:
  assumes heap: "heap_ok s S" and tab: "table s S t r bs L"
    and "i < length L" and "ht_iters s it = Some h" and "hit_ht h = t" and "bucket_num h = of_nat i" and "is_valid h"
  shows "runs_to (next_bucket it) s (\<lambda>v s'. \<exists>h'. s' = s\<lparr>ht_iters := (ht_iters s)(it \<mapsto> h')\<rparr> \<and> next_found bs L i h v h')"
proof -
  note T = tableD [OF tab]
  let ?loop = "whileM (\<lambda>(go, past, nextChain). ret go)
       (\<lambda>_. seq (wr_hit it (bucket_num_update (\<lambda>n. n + 1)))
         (bnd (rd_hit it) (\<lambda>h. bnd (rd_ht (hit_ht h)) (\<lambda>r.
          if num_buckets r \<le> bucket_num h then
            seq (wr_hit it (is_valid_update (\<lambda>_. False))) (ret (False, True, NULL))
          else
            bnd (get_bucket (hit_ht h) (unat (bucket_num h))) (\<lambda>chain.
            bnd (NumElementsInLinkedList chain) (\<lambda>n. ret (n = 0, False, chain)))))))"
  obtain li where h: "h = \<lparr>is_valid = True, hit_ht = t, bucket_num = of_nat i, bucket_it = li\<rparr>"
    using assms(5-7) by (cases h) simp
  have "runs_to (?loop (True, past, c)) (s\<lparr>ht_iters := (ht_iters s)(it \<mapsto> h\<lparr>bucket_num := of_nat i\<rparr>)\<rparr>)
      (\<lambda>v s'. \<exists>h'. s' = s\<lparr>ht_iters := (ht_iters s)(it \<mapsto> h')\<rparr> \<and> next_found bs L i h v h')" for past c
    using assms(3)
  proof (induction "length L - i" arbitrary: i past c)
    case 0
    then show ?case by simp
  next
    case (Suc m)
    note B = bucket_word [OF Suc.prems T(5)]
    have next_word: "of_nat i + 1 = (of_nat (Suc i) :: 64 word)" by (simp add: add.commute)
    show ?case
    proof (cases "length L = Suc i")
      case True
      then show ?thesis
        using B(2) T(1,3)
        by (subst whileM_unfold) (simp add: wp h next_word next_found_def whileM_unfold [of _ _ "(False, _)"] del: of_nat_Suc)
    next
      case False
      then have i: "Suc i < length L" using Suc.prems by simp
      let ?h = "\<lparr>is_valid = True, hit_ht = t, bucket_num = of_nat (Suc i), bucket_it = li\<rparr>"
      let ?s = "s\<lparr>ht_iters := (ht_iters s)(it \<mapsto> ?h)\<rparr>"
      have bucket: "get_bucket t (unat (of_nat (Suc i) :: 64 word)) ?s = Inr (bs ! Suc i, ?s)"
        unfolding bucket_word(1) [OF i T(5)] by (rule get_bucket_law [OF tab i, where r' = r]) (simp_all add: T(1))
      obtain ns where ns: "S (bs ! Suc i) = Some ns" "map snd ns = map fst (L ! Suc i)"
        using T(8) [OF i] by (auto simp: chain_at_def)
      have inv: "ll_inv ?s S" using heap_okD(1) [OF heap] by (subst ll_inv_cong [of _ s]) simp_all
      obtain n where num: "NumElementsInLinkedList (bs ! Suc i) ?s = Inr (n, ?s)" "unat n = length ns"
        using NumElementsInLinkedList_law [OF inv ns(1)] by (auto simp: runs_to_iff)
      have empty: "n = 0 \<longleftrightarrow> L ! Suc i = []"
      proof -
        have "n = 0 \<longleftrightarrow> ns = []" using num(2) by (simp add: unat_eq_0 [symmetric])
        also have "\<dots> \<longleftrightarrow> L ! Suc i = []" using ns(2) by (metis map_is_Nil_conv)
        finally show ?thesis .
      qed
      have drop: "drop (Suc i) L = L ! Suc i # drop (Suc (Suc i)) L" using i by (simp add: Cons_nth_drop_Suc)
      have b: "runs_to (get_bucket t (unat (of_nat (Suc i) :: 64 word))) ?s Q = Q (bs ! Suc i) ?s" for Q
        by (rule runs_to_exact) (rule bucket)
      have n: "runs_to (NumElementsInLinkedList (bs ! Suc i)) ?s Q = Q n ?s" for Q
        by (rule runs_to_exact) (rule num(1))
      have step: "runs_to (?loop (True, past, c)) (s\<lparr>ht_iters := (ht_iters s)(it \<mapsto> h\<lparr>bucket_num := of_nat i\<rparr>)\<rparr>) Q \<longleftrightarrow>
          runs_to (?loop (L ! Suc i = [], False, bs ! Suc i)) ?s Q" for Q
        using B(2) T(1,3) i
        by (subst whileM_unfold) (simp add: wp h next_word b n empty del: of_nat_Suc)
      have st: "?s = s\<lparr>ht_iters := (ht_iters s)(it \<mapsto> h\<lparr>bucket_num := of_nat (Suc i)\<rparr>)\<rparr>" by (simp add: h)
      show ?thesis
      proof (cases "L ! Suc i = []")
        case True
        have "next_found bs L i h v h'" if "next_found bs L (Suc i) h v h'" for v h'
          using that drop True unfolding next_found_def by simp
        then show ?thesis
          unfolding step eqTrueI [OF True] st using Suc.hyps(2) i
          by (intro runs_to_mono [OF Suc.hyps(1) [of "Suc i"]]) auto
      next
        case False
        then have "next_found bs L i h (False, False, bs ! Suc i) ?h"
          unfolding next_found_def using i drop by (auto intro!: exI [of _ "Suc i"] simp: h)
        then show ?thesis
          unfolding step eq_False [THEN iffD2, OF False]
          by (subst whileM_unfold) (auto simp: wp simp del: of_nat_Suc)
      qed
    qed
  qed
  from this [of False NULL] show ?thesis
    using assms(4-7) by (cases h) (simp add: next_bucket_def fun_upd_idem)
qed

lemma heap_ok_iters:
  assumes "heap_ok s S" and "ll_inv (s\<lparr>next_addr := n, ll_iters := I\<rparr>) S" and "next_addr s \<le> n" and "below H n"
  shows "heap_ok (s\<lparr>next_addr := n, ll_iters := I, ht_iters := H\<rparr>) S"
proof -
  have "ll_inv (s\<lparr>next_addr := n, ll_iters := I, ht_iters := H\<rparr>) S"
    using assms(2) by (subst ll_inv_cong [of _ "s\<lparr>next_addr := n, ll_iters := I\<rparr>"]) simp_all
  then show ?thesis
    using heap_okD(2-4) [OF assms(1), THEN below_mono, OF assms(3)] assms(4) by (simp add: heap_ok_def)
qed

lemma on_entryI:
  assumes "i < length L" "L ! i = ks1 @ x # ks2" "xs = x # ks2 @ concat (drop (Suc i) L)"
    and "ht_iters s it = Some \<lparr>is_valid = True, hit_ht = t, bucket_num = of_nat i, bucket_it = li\<rparr>"
    and "ll_iters s li = Some ll" "it_list ll = bs ! i" "at_node S ll ms a (fst x) ns" "map snd ns = map fst ks2"
  shows "on_entry s S t bs L it xs"
  unfolding on_entry_def using assms by blast

text \<open>An iterator that is put on the first entry of a bucket.\<close>

lemma on_first_entry:
  assumes tab: "table s S t r bs L" and j: "j < length L" "L ! j \<noteq> []"
    and h: "ht_iters s' it = Some \<lparr>is_valid = True, hit_ht = t, bucket_num = of_nat j, bucket_it = li\<rparr>"
    and l: "S (bs ! j) = Some ns" "ll_iters s' li = Some \<lparr>it_list = bs ! j, it_node = first_of ns NULL\<rparr>"
  shows "on_entry s' S t bs L it (concat (drop j L))"
proof -
  obtain x ks where L: "L ! j = x # ks" using j(2) by (cases "L ! j") auto
  have "map snd ns = map fst (L ! j)" using tableD(8) [OF tab j(1)] l(1) by (auto simp: chain_at_def)
  then obtain a ns' where ns: "ns = (a, fst x) # ns'" "map snd ns' = map fst ks"
    using L by (auto simp: Cons_eq_map_conv)
  have "drop j L = (x # ks) # drop (Suc j) L" using j(1) L by (metis Cons_nth_drop_Suc)
  then show ?thesis
    by (intro on_entryI [where x = x and ?ks1.0 = "[]" and ?ks2.0 = ks and ms = "[]" and ns = ns', OF j(1) _ _ h l(2)])
      (use L l(1) ns in \<open>simp_all add: at_node_def\<close>)
qed

lemma HTIteratorNext_law:
  assumes heap: "heap_ok s S" and tab: "table s S t r bs L" and oom: "\<And>n. \<not> oom s n"
    and on: "on_entry s S t bs L it (x # xs)"
  shows "runs_to (HTIteratorNext it) s (\<lambda>res s'. res = (if xs = [] then 0 else 1) \<and> it_frame s s' \<and>
    heap_ok s' S \<and> iterates s' S t bs L it xs)"
proof -
  note inv = heap_okD(1) [OF heap]
  from on obtain i ks1 ks2 li ll ms a ns where i: "i < length L" "L ! i = ks1 @ x # ks2"
    and xs: "xs = ks2 @ concat (drop (Suc i) L)"
    and h: "ht_iters s it = Some \<lparr>is_valid = True, hit_ht = t, bucket_num = of_nat i, bucket_it = li\<rparr>"
    and l: "ll_iters s li = Some ll" "it_list ll = bs ! i" "at_node S ll ms a (fst x) ns" "map snd ns = map fst ks2"
    unfolding on_entry_def by auto
  have has: "runs_to (LLIteratorHasNext li) s Q = Q (ks2 \<noteq> []) s" for Q
    using LLIteratorHasNext_law [OF inv l(1,3)] l(4) by (intro runs_to_exact) (auto simp: runs_to_iff)
  show ?thesis
  proof (cases ks2)
    case (Cons y ks)
    then obtain b ns' where ns: "ns = (b, fst y) # ns'" "map snd ns' = map fst ks"
      using l(4) by (auto simp: Cons_eq_map_conv)
    have "runs_to (LLIteratorNext li) s (\<lambda>res s'. res \<and> it_frame s s' \<and> heap_ok s' S \<and> iterates s' S t bs L it xs)"
    proof (rule runs_to_mono [OF LLIteratorNext_law [OF inv l(1,3)]])
      fix res s'
      assume "case ns of [] \<Rightarrow> \<not> res \<and> s' = s
        | (b, y) # ns' \<Rightarrow> res \<and> ll_inv s' S \<and> at_node S (ll\<lparr>it_node := b\<rparr>) (ms @ [(a, fst x)]) b y ns' \<and>
          s' = s\<lparr>ll_iters := (ll_iters s)(li \<mapsto> ll\<lparr>it_node := b\<rparr>)\<rparr>"
      then have s': "res" "ll_inv s' S" "at_node S (ll\<lparr>it_node := b\<rparr>) (ms @ [(a, fst x)]) b (fst y) ns'"
        "s' = s\<lparr>ll_iters := (ll_iters s)(li \<mapsto> ll\<lparr>it_node := b\<rparr>)\<rparr>" unfolding ns list.case prod.case by blast+
      have "on_entry s' S t bs L it (y # ks @ concat (drop (Suc i) L))"
        by (rule on_entryI [where x = y and ?ks1.0 = "ks1 @ [x]" and ?ks2.0 = ks and li = li
            and ll = "ll\<lparr>it_node := b\<rparr>", OF i(1) _ _ _ _ _ s'(3) ns(2)]) (use i h l(2) Cons in \<open>simp_all add: s'(4)\<close>)
      moreover have "heap_ok s' S" using heap_okD(2-5) [OF heap] s'(2) unfolding heap_ok_def by (simp add: s'(4))
      ultimately show "res \<and> it_frame s s' \<and> heap_ok s' S \<and> iterates s' S t bs L it xs"
        using s'(1) by (simp add: it_frame_def iterates_def xs Cons s'(4))
    qed
    then show ?thesis
      using has h by (simp add: HTIteratorNext_def wp xs Cons) 
  next
    case Nil
    have past: "xs = concat (drop (Suc i) L)" by (simp add: xs Nil)
    let ?h = "\<lparr>is_valid = True, hit_ht = t, bucket_num = of_nat i, bucket_it = li\<rparr>"
    have bel: "below ((ht_iters s)(it \<mapsto> h')) (next_addr s)" for h'
      using heap_okD(5) [OF heap] h by simp
    have hok: "heap_ok (s\<lparr>ht_iters := (ht_iters s)(it \<mapsto> h')\<rparr>) S" for h'
      using heap_ok_iters [OF heap _ order.refl bel, of "ll_iters s"] inv by simp
    let ?Q = "\<lambda>res s'. res = (if xs = [] then 0 else 1) \<and> it_frame s s' \<and> heap_ok s' S \<and> iterates s' S t bs L it xs"
    have after: "runs_to (case v of (go, past, nextChain) \<Rightarrow>
         if past then ret 0
         else seq (LLIteratorFree li) (bnd (LLMakeIterator nextChain 0) (\<lambda>li.
           seq (wr_hit it (bucket_it_update (\<lambda>_. li))) (ret 1)))) s' ?Q"
      if s': "s' = s\<lparr>ht_iters := (ht_iters s)(it \<mapsto> h')\<rparr>" and v: "next_found bs L i ?h v h'" for v s' h'
    proof (cases "xs = []")
      case True
      then show ?thesis
        using v s' past hok l(1) by (simp add: next_found_def wp it_frame_def iterates_def past_end_def)
    next
      case False
      then obtain j where j: "j < length L" "L ! j \<noteq> []" "v = (False, False, bs ! j)"
          "h' = ?h\<lparr>bucket_num := of_nat j\<rparr>" "xs = concat (drop j L)"
        using v unfolding next_found_def past [symmetric] if_not_P [OF False] by blast
      obtain ns where ns: "S (bs ! j) = Some ns" "map snd ns = map fst (L ! j)"
        using tableD(8) [OF tab j(1)] by (auto simp: chain_at_def)
      have ne: "ns \<noteq> []" using ns(2) j(2) by auto
      let ?n = "Suc (next_addr s)"
      let ?I = "((ll_iters s)(li := None))(?n \<mapsto> \<lparr>it_list = bs ! j, it_node = first_of ns NULL\<rparr>)"
      let ?H = "(ht_iters s)(it \<mapsto> ?h\<lparr>bucket_num := of_nat j, bucket_it := ?n\<rparr>)"
      let ?s = "s\<lparr>next_addr := ?n, ll_iters := ?I, ht_iters := ?H\<rparr>"
      have inv': "ll_inv s' S" using inv by (subst ll_inv_cong [of _ s]) (simp_all add: s')
      have run: "runs_to (LLIteratorFree li) s' (\<lambda>_ s1. runs_to (LLMakeIterator (bs ! j) 0) s1 (\<lambda>li s2.
          runs_to (wr_hit it (bucket_it_update (\<lambda>_. li))) s2 (\<lambda>_ s3. s3 = ?s \<and> ll_inv s3 S)))"
      proof (rule runs_to_mono [OF LLIteratorFree_law [OF inv', of li ll]])
        show "ll_iters s' li = Some ll" using l(1) by (simp add: s')
        fix u s1 assume s1: "ll_inv s1 S \<and> s1 = s'\<lparr>ll_iters := (ll_iters s')(li := None)\<rparr>"
        then have inv1: "ll_inv s1 S" by blast
        show "runs_to (LLMakeIterator (bs ! j) 0) s1 (\<lambda>li s2.
          runs_to (wr_hit it (bucket_it_update (\<lambda>_. li))) s2 (\<lambda>_ s3. s3 = ?s \<and> ll_inv s3 S))"
          by (rule runs_to_mono [OF LLMakeIterator_law [OF inv1 ns(1)]])
            (use s1 s' j(4) ne oom in \<open>auto simp: wp ll_inv_def\<close>)
      qed
      have "heap_ok ?s S" if "ll_inv ?s S"
        using that heap_okD(2-4) [OF heap] bel [THEN below_Suc] by (simp add: heap_ok_def)
      moreover have "on_entry ?s S t bs L it (concat (drop j L))"
        by (rule on_first_entry [where li = ?n, OF tab j(1,2) _ ns(1)]) simp_all
      ultimately have Q: "?Q 1 s3" if "s3 = ?s \<and> ll_inv s3 S" for s3
        using that False by (auto simp: it_frame_def iterates_def j(5))
      show ?thesis
        unfolding j(3) prod.case if_False runs_to_seq runs_to_bnd runs_to_ret
        by (rule runs_to_mono, rule run, erule runs_to_mono, erule runs_to_mono, erule Q)
    qed
    have "runs_to (next_bucket it) s (\<lambda>v s'. runs_to (case v of (go, past, nextChain) \<Rightarrow>
         if past then ret 0
         else seq (LLIteratorFree li) (bnd (LLMakeIterator nextChain 0) (\<lambda>li.
           seq (wr_hit it (bucket_it_update (\<lambda>_. li))) (ret 1)))) s' ?Q)"
      by (rule runs_to_mono [OF next_bucket_law [OF heap tab i(1) h]]) (simp_all only: HTIterRecord.simps simp_thms, elim exE conjE, rule after)
    then show ?thesis
      using h has Nil by (simp add: HTIteratorNext_def runs_to_bnd runs_to_load cong: if_cong split del: if_split)
  qed
qed

section \<open>A new iterator\<close>

lemma first_bucket_law:
  assumes heap: "heap_ok s S" and tab: "table s S t r bs L" and h: "ht_iters s it = Some h" and ne: "concat L \<noteq> []"
  shows "runs_to (first_bucket t it) s (\<lambda>v s'. snd v \<and> (\<exists>j < length L. L ! j \<noteq> [] \<and> concat L = concat (drop j L) \<and>
    s' = s\<lparr>ht_iters := (ht_iters s)(it \<mapsto> h\<lparr>bucket_num := of_nat j\<rparr>)\<rparr>))"
proof -
  note T = tableD [OF tab]
  let ?Q = "\<lambda>v s'. snd v \<and> (\<exists>j < length L. L ! j \<noteq> [] \<and> concat L = concat (drop j L) \<and>
    s' = s\<lparr>ht_iters := (ht_iters s)(it \<mapsto> h\<lparr>bucket_num := of_nat j\<rparr>)\<rparr>)"
  let ?loop = "whileM
       (\<lambda>(i :: 32 word, found). bnd (rd_ht t) (\<lambda>r. ret (\<not> found \<and> ucast i < num_buckets r)))
       (\<lambda>(i, found).
          bnd (get_bucket t (unat i)) (\<lambda>b.
          bnd (NumElementsInLinkedList b) (\<lambda>n.
          if n > 0 then seq (wr_hit it (bucket_num_update (\<lambda>_. ucast i))) (ret (i, True))
          else ret (i + 1, False))))"
  have "runs_to (?loop (of_nat i, False)) s ?Q" if "i \<le> length L" "concat L = concat (drop i L)" for i
    using that
  proof (induction "length L - i" arbitrary: i)
    case 0
    then show ?case using ne by simp
  next
    case (Suc m)
    then have i: "i < length L" by simp
    note B = bucket_index [OF Suc.prems(1) T(5)]
    have word: "ucast (of_nat i :: 32 word) = (of_nat i :: 64 word)"
      unfolding word_unat_eq_iff bucket_word(1) [OF i T(5)]
      using i T(5) by (simp add: unsigned_ucast_eq B(1) take_bit_nat_eq_self)
    have b: "runs_to (get_bucket t (unat (of_nat i :: 32 word))) s Q = Q (bs ! i) s" for Q
      unfolding B(1) by (rule runs_to_exact, rule get_bucket_law [OF tab i T(1)]) simp_all
    obtain ns where ns: "S (bs ! i) = Some ns" "map snd ns = map fst (L ! i)"
      using T(8) [OF i] by (auto simp: chain_at_def)
    obtain n where num: "NumElementsInLinkedList (bs ! i) s = Inr (n, s)" "unat n = length ns"
      using NumElementsInLinkedList_law [OF heap_okD(1) [OF heap] ns(1)] by (auto simp: runs_to_iff)
    have nn: "runs_to (NumElementsInLinkedList (bs ! i)) s Q = Q n s" for Q
      by (rule runs_to_exact) (rule num(1))
    have pos: "n > 0 \<longleftrightarrow> L ! i \<noteq> []"
    proof -
      have "n = 0 \<longleftrightarrow> ns = []" using num(2) by (simp add: unat_eq_0 [symmetric])
      also have "\<dots> \<longleftrightarrow> L ! i = []" using ns(2) by (metis map_is_Nil_conv)
      finally show ?thesis by (simp add: word_gt_0)
    qed
    have drop: "drop i L = L ! i # drop (Suc i) L" using i by (simp add: Cons_nth_drop_Suc)
    show ?case
    proof (cases "L ! i = []")
      case True
      have "runs_to (?loop (of_nat (Suc i), False)) s ?Q"
        using Suc.hyps(2) Suc.prems drop True i by (intro Suc.hyps(1)) simp_all
      then show ?thesis
        using B(2) i T(1,3) pos True
        by (subst whileM_unfold) (simp add: wp b nn add.commute [of 1])
    next
      case False
      have stop: "runs_to (?loop (k, True)) s' Q = Q (k, True) s'" if "ht_recs s' t = Some r" for k s' Q
        using that by (subst whileM_unfold) (simp add: wp)
      show ?thesis
        using B(2) i T(1,3) pos Suc.prems(2) h False
        by (subst whileM_unfold) (auto simp: wp b nn word stop)
    qed
  qed
  from this [of 0] show ?thesis by (simp add: first_bucket_def)
qed

lemma HashTableMakeIterator_law:
  assumes heap: "heap_ok s S" and tab: "table s S t r bs L" and oom: "\<And>n. \<not> oom s n"
    and ne: "num_elements r = 0 \<longleftrightarrow> concat L = []"
  shows "runs_to (HashTableMakeIterator t) s (\<lambda>it s'. it = Suc (next_addr s) \<and> it_frame s s' \<and> heap_ok s' S \<and>
    iterates s' S t bs L it (concat L))"
proof -
  note T = tableD [OF tab]
  let ?it = "Suc (next_addr s)"
  have bel: "below ((ht_iters s)(?it \<mapsto> v)) (Suc (next_addr s))" "below ((ht_iters s)(?it \<mapsto> v)) (Suc (Suc (next_addr s)))" for v
    using heap_okD(5) [OF heap] below_mono [of _ "Suc (next_addr s)" "Suc (Suc (next_addr s))"] by simp_all
  have hok: "heap_ok (s\<lparr>next_addr := ?it, ht_iters := (ht_iters s)(?it \<mapsto> v)\<rparr>) S" for v
    using heap_ok_iters [OF heap _ _ bel(1), of "ll_iters s" v] ll_inv_next_addr [OF heap_okD(1) [OF heap], of ?it] by simp
  show ?thesis
  proof (cases "concat L = []")
    case True
    then show ?thesis
      using ne oom T(1) hok by (simp add: HashTableMakeIterator_def wp Let_def it_frame_def iterates_def past_end_def)
  next
    case False
    let ?h = "\<lparr>is_valid = True, hit_ht = t, bucket_num = 0, bucket_it = NULL\<rparr>"
    let ?s = "s\<lparr>next_addr := ?it, ht_iters := (ht_iters s)(?it \<mapsto> ?h)\<rparr>"
    have tab': "table ?s S t r bs L" using tab by (simp add: table_def chain_at_def)
    have "ht_iters ?s ?it = Some ?h" by simp
    note first = first_bucket_law [OF hok tab' this False]
    let ?Q = "\<lambda>it s'. it = ?it \<and> it_frame s s' \<and> heap_ok s' S \<and> iterates s' S t bs L it (concat L)"
    have after: "runs_to (case v of (i, found) \<Rightarrow> if \<not> found then halt Undefined
         else bnd (rd_hit ?it) (\<lambda>h. bnd (get_bucket t (unat (bucket_num h))) (\<lambda>b. bnd (LLMakeIterator b 0) (\<lambda>li.
           seq (wr_hit ?it (bucket_it_update (\<lambda>_. li)))
          (if li = NULL then seq (dealloc ht_iters ht_iters_update ?it) (ret NULL) else ret ?it))))) s1 ?Q"
      if v: "snd v" and j: "j < length L" "L ! j \<noteq> []" "concat L = concat (drop j L)"
        and s1: "s1 = ?s\<lparr>ht_iters := (ht_iters ?s)(?it \<mapsto> ?h\<lparr>bucket_num := of_nat j\<rparr>)\<rparr>" for v s1 j
    proof -
      obtain ns where ns: "S (bs ! j) = Some ns" "map snd ns = map fst (L ! j)"
        using T(8) [OF j(1)] by (auto simp: chain_at_def)
      have ne': "ns \<noteq> []" using ns(2) j(2) by auto
      let ?n = "Suc ?it"
      let ?I = "(ll_iters s)(?n \<mapsto> \<lparr>it_list = bs ! j, it_node = first_of ns NULL\<rparr>)"
      let ?s2 = "s\<lparr>next_addr := ?n, ll_iters := ?I, ht_iters := (ht_iters s)(?it \<mapsto> ?h\<lparr>bucket_num := of_nat j, bucket_it := ?n\<rparr>)\<rparr>"
      have inv1: "ll_inv s1 S"
        using ll_inv_next_addr [OF heap_okD(1) [OF heap], of ?it] by (simp add: s1 ll_inv_def)
      have b: "runs_to (get_bucket t (unat (of_nat j :: 64 word))) s1 P = P (bs ! j) s1" for P
        unfolding bucket_word(1) [OF j(1) T(5)]
        by (rule runs_to_exact, rule get_bucket_law [OF tab j(1), where r' = r]) (simp_all add: s1 T(1))
      have Q: "?Q ?it ?s2" if "ll_inv ?s2 S"
      proof -
        have "heap_ok ?s2 S" using that heap_okD(2-4) [OF heap, THEN below_mono, of ?n] bel(2) by (simp add: heap_ok_def)
        moreover have "on_entry ?s2 S t bs L ?it (concat L)"
          unfolding j(3) by (rule on_first_entry [where li = ?n, OF tab j(1,2) _ ns(1)]) simp_all
        then have "iterates ?s2 S t bs L ?it (concat L)" unfolding iterates_def if_not_P [OF False] .
        moreover have "it_frame s ?s2" by (simp add: it_frame_def)
        ultimately show ?thesis by blast
      qed
      have run: "runs_to (LLMakeIterator (bs ! j) 0) s1 (\<lambda>li s'. li = ?n \<and> ll_inv s' S \<and>
          s' = s1\<lparr>next_addr := ?n, ll_iters := ?I\<rparr>)"
        by (rule runs_to_mono [OF LLMakeIterator_law [OF inv1 ns(1)]]) (use ne' oom in \<open>simp add: s1\<close>)
      have h1: "ht_iters s1 ?it = Some (?h\<lparr>bucket_num := of_nat j\<rparr>)" by (simp add: s1)
      have "runs_to (LLMakeIterator (bs ! j) 0) s1 (\<lambda>li s'. runs_to (seq (wr_hit ?it (bucket_it_update (\<lambda>_. li)))
          (if li = NULL then seq (dealloc ht_iters ht_iters_update ?it) (ret NULL) else ret ?it)) s' ?Q)"
      proof (rule runs_to_mono [OF run])
        fix li s' assume s': "li = ?n \<and> ll_inv s' S \<and> s' = s1\<lparr>next_addr := ?n, ll_iters := ?I\<rparr>"
        then have "ll_inv s' S" by blast
        moreover have "ll_inv ?s2 S = ll_inv s' S" by (rule ll_inv_cong) (use s' in \<open>simp_all add: s1\<close>)
        ultimately have "ll_inv ?s2 S" by blast
        from Q [OF this] s' show "runs_to (seq (wr_hit ?it (bucket_it_update (\<lambda>_. li)))
          (if li = NULL then seq (dealloc ht_iters ht_iters_update ?it) (ret NULL) else ret ?it)) s' ?Q"
          by (simp add: wp s1)
      qed
      then show ?thesis
        using v by (simp add: case_prod_unfold runs_to_bnd runs_to_load h1 b)
    qed
    have "runs_to (first_bucket t ?it) ?s (\<lambda>v s1. runs_to (case v of (i, found) \<Rightarrow> if \<not> found then halt Undefined
         else bnd (rd_hit ?it) (\<lambda>h. bnd (get_bucket t (unat (bucket_num h))) (\<lambda>b. bnd (LLMakeIterator b 0) (\<lambda>li.
           seq (wr_hit ?it (bucket_it_update (\<lambda>_. li)))
          (if li = NULL then seq (dealloc ht_iters ht_iters_update ?it) (ret NULL) else ret ?it))))) s1 ?Q)"
      by (rule runs_to_mono [OF first], elim conjE exE, rule after)
    moreover have "num_elements r \<noteq> 0" using ne False by blast
    ultimately show ?thesis
      using oom T(1) by (simp add: HashTableMakeIterator_def wp Let_def)
  qed
qed

section \<open>Free\<close>

lemma HTIteratorFree_law:
  assumes heap: "heap_ok s S" and it: "iterates s S t bs L it xs"
  shows "runs_to (HTIteratorFree it) s (\<lambda>_ s'. it_frame s s' \<and> heap_ok s' S)"
proof -
  obtain h where h: "ht_iters s it = Some h" and l: "bucket_it h = NULL \<or> (\<exists>ll. ll_iters s (bucket_it h) = Some ll)"
    using it by (fastforce simp: iterates_def past_end_def on_entry_def split: if_splits)
  note B = heap_okD [OF heap]
  have it0: "it \<noteq> NULL" using below_bound [OF B(5) h] by simp
  have hok: "heap_ok (s\<lparr>ll_iters := I, ht_iters := (ht_iters s)(it := None)\<rparr>) S"
    if "ll_inv (s\<lparr>ll_iters := I\<rparr>) S" for I
    using heap_ok_iters [where s = s and n = "next_addr s" and I = I and H = "(ht_iters s)(it := None)"] heap that B(5) by simp
  show ?thesis
  proof (cases "bucket_it h = NULL")
    case True
    then show ?thesis using h it0 hok [of "ll_iters s"] B(1)
      by (simp add: HTIteratorFree_def wp it_frame_def)
  next
    case False
    then obtain ll where ll: "ll_iters s (bucket_it h) = Some ll" using l by blast
    have "runs_to (LLIteratorFree (bucket_it h)) s (\<lambda>_ s'. ll_inv (s\<lparr>ll_iters := (ll_iters s)(bucket_it h := None)\<rparr>) S \<and>
        s' = s\<lparr>ll_iters := (ll_iters s)(bucket_it h := None)\<rparr>)"
      by (rule runs_to_mono [OF LLIteratorFree_law [OF B(1) ll]]) auto
    then have free: "LLIteratorFree (bucket_it h) s = Inr ((), s\<lparr>ll_iters := (ll_iters s)(bucket_it h := None)\<rparr>)"
      and inv: "ll_inv (s\<lparr>ll_iters := (ll_iters s)(bucket_it h := None)\<rparr>) S" by (auto simp: runs_to_iff)
    show ?thesis
      using False h it0 hok [OF inv]
      by (simp add: HTIteratorFree_def wp runs_to_exact [of "LLIteratorFree _", OF free] it_frame_def)
  qed
qed

section \<open>A whole iteration\<close>

text \<open>The loop of a client that reads the table through an iterator.\<close>

definition visit_all :: "addr \<Rightarrow> (mem, HTKeyValue list) prog" where
  "visit_all t =
     bnd (HashTableMakeIterator t) (\<lambda>it.
     bnd (whileM (\<lambda>seen. bnd (HTIteratorPastEnd it) (\<lambda>past. ret (\<not> past)))
       (\<lambda>seen. bnd (HTIteratorGet it) (\<lambda>item.
          bnd (HTIteratorNext it) (\<lambda>_. ret (seen @ (case item of None \<Rightarrow> [] | Some kv \<Rightarrow> [kv]))))) []) (\<lambda>seen.
     seq (HTIteratorFree it) (ret seen)))"

lemma visit_loop:
  assumes heap: "heap_ok s S" and tab: "table s S t r bs L" and oom: "\<And>n. \<not> oom s n"
    and ne: "num_elements r \<noteq> 0 \<or> xs = []" and it: "iterates s S t bs L it xs"
  shows "runs_to (whileM (\<lambda>seen. bnd (HTIteratorPastEnd it) (\<lambda>past. ret (\<not> past)))
       (\<lambda>seen. bnd (HTIteratorGet it) (\<lambda>item.
          bnd (HTIteratorNext it) (\<lambda>_. ret (seen @ (case item of None \<Rightarrow> [] | Some kv \<Rightarrow> [kv]))))) seen) s
    (\<lambda>seen' s'. seen' = seen @ map snd xs \<and> it_frame s s' \<and> heap_ok s' S \<and> iterates s' S t bs L it [])"
  using assms
proof (induction xs arbitrary: s seen)
  case Nil
  have past: "runs_to (HTIteratorPastEnd it) s Q = Q True s" for Q
    by (rule runs_to_exact) (use HTIteratorPastEnd_law [OF Nil(2,4,5)] in simp)
  show ?case using Nil by (subst whileM_unfold) (simp add: wp past it_frame_refl)
next
  case (Cons x xs)
  have on: "on_entry s S t bs L it (x # xs)" using Cons.prems(5) by (simp add: iterates_def)
  have ne: "num_elements r \<noteq> 0" using Cons.prems(4) by simp
  have past: "runs_to (HTIteratorPastEnd it) s Q = Q False s" for Q
    by (rule runs_to_exact) (use HTIteratorPastEnd_law [OF Cons.prems(2,4,5)] in simp)
  have get: "runs_to (HTIteratorGet it) s Q = Q (Some (snd x)) s" for Q
    by (rule runs_to_exact) (use HTIteratorGet_law [OF Cons.prems(1,2) ne on] in simp)
  have "runs_to (HTIteratorNext it) s (\<lambda>_ s'. runs_to (whileM (\<lambda>seen. bnd (HTIteratorPastEnd it) (\<lambda>past. ret (\<not> past)))
       (\<lambda>seen. bnd (HTIteratorGet it) (\<lambda>item.
          bnd (HTIteratorNext it) (\<lambda>_. ret (seen @ (case item of None \<Rightarrow> [] | Some kv \<Rightarrow> [kv]))))) (seen @ [snd x])) s'
    (\<lambda>seen' s'. seen' = seen @ map snd (x # xs) \<and> it_frame s s' \<and> heap_ok s' S \<and> iterates s' S t bs L it []))"
  proof (rule runs_to_mono [OF HTIteratorNext_law [OF Cons.prems(1-3) on]], elim conjE)
    fix res s'
    assume s': "it_frame s s'" "heap_ok s' S" "iterates s' S t bs L it xs"
    have "\<And>n. \<not> oom s' n" using Cons.prems(3) it_frameD(7) [OF s'(1)] by simp
    from Cons.IH [OF s'(2) _ this _ s'(3), of "seen @ [snd x]"] table_it_frame [OF s'(1)] Cons.prems(2) ne
    show "runs_to (whileM (\<lambda>seen. bnd (HTIteratorPastEnd it) (\<lambda>past. ret (\<not> past)))
       (\<lambda>seen. bnd (HTIteratorGet it) (\<lambda>item.
          bnd (HTIteratorNext it) (\<lambda>_. ret (seen @ (case item of None \<Rightarrow> [] | Some kv \<Rightarrow> [kv]))))) (seen @ [snd x])) s'
    (\<lambda>seen' s'. seen' = seen @ map snd (x # xs) \<and> it_frame s s' \<and> heap_ok s' S \<and> iterates s' S t bs L it [])"
      using it_frame_trans [OF s'(1)] by (auto elim!: runs_to_mono)
  qed
  then show ?case by (subst whileM_unfold) (simp add: wp past get)
qed

section \<open>The entries of a table and its map\<close>

lemma hashed_concat:
  assumes "\<forall>i < length L. hashed n (i + m) (L ! i)"
  shows "distinct (map (\<lambda>x. kv_key (snd x)) (concat L)) \<and> (\<forall>x \<in> set (concat L). m \<le> unat (kv_key (snd x)) mod n)"
  using assms
proof (induction L arbitrary: m)
  case (Cons ks L)
  have ks: "hashed n m ks" using Cons.prems by force
  have "\<forall>i < length L. hashed n (i + Suc m) (L ! i)"
    using Cons.prems by (metis Suc_less_eq add_Suc add_Suc_right length_Cons nth_Cons_Suc)
  from Cons.IH [OF this] have IH: "distinct (map (\<lambda>x. kv_key (snd x)) (concat L))"
    "\<forall>x \<in> set (concat L). Suc m \<le> unat (kv_key (snd x)) mod n" by auto
  have "unat (kv_key (snd x)) mod n = m" if "x \<in> set ks" for x
    using ks that by (auto simp: hashed_def)
  moreover from this IH(2) have "kv_key (snd x) \<noteq> kv_key (snd y)" if "x \<in> set ks" "y \<in> set (concat L)" for x y
    using that by (metis not_less_eq_eq order.refl)
  ultimately show ?case using ks IH by (fastforce simp: hashed_def comp_def)
qed simp

lemma contents_concat:
  assumes tab: "table s S t r bs L"
  shows "distinct (map kv_key (map snd (concat L)))"
    and "map_of (map (\<lambda>kv. (kv_key kv, kv_value kv)) (map snd (concat L))) = contents L"
proof -
  note T = tableD [OF tab]
  let ?kvs = "map snd (concat L)" and ?f = "\<lambda>kv. (kv_key kv, kv_value kv)"
  have "\<forall>i < length L. hashed (length L) (i + 0) (L ! i)" using T(9) by simp
  from hashed_concat [OF this] show d: "distinct (map kv_key ?kvs)" by (simp add: comp_def)
  have keys: "map fst (map ?f ?kvs) = map kv_key ?kvs" by simp
  show "map_of (map ?f ?kvs) = contents L"
  proof
    fix k :: "64 word"
    let ?i = "unat k mod length L"
    have i: "?i < length L" using T(4) by simp
    have "map_of (map ?f ?kvs) k = Some v \<longleftrightarrow> contents L k = Some v" for v
    proof -
      have "map_of (map ?f ?kvs) k = Some v \<longleftrightarrow> (k, v) \<in> set (map ?f ?kvs)"
        by (rule map_of_eq_Some_iff) (use d in \<open>simp only: keys\<close>)
      also have "\<dots> \<longleftrightarrow> (\<exists>j < length L. \<exists>p kv. (p, kv) \<in> set (L ! j) \<and> kv_key kv = k \<and> kv_value kv = v)"
      proof -
        have "(p, kv) \<in> set (concat L) \<longleftrightarrow> (\<exists>j < length L. (p, kv) \<in> set (L ! j))" for p kv
          by (simp, metis in_set_conv_nth)
        moreover have "(k, v) \<in> set (map ?f ?kvs) \<longleftrightarrow>
            (\<exists>p kv. (p, kv) \<in> set (concat L) \<and> kv_key kv = k \<and> kv_value kv = v)"
          unfolding set_map image_image by force
        ultimately show ?thesis by blast
      qed
      also have "\<dots> \<longleftrightarrow> (\<exists>p kv. (p, kv) \<in> set (L ! ?i) \<and> kv_key kv = k \<and> kv_value kv = v)"
      proof -
        have "j = ?i" if "j < length L" "(p, kv) \<in> set (L ! j)" "kv_key kv = k" for j p kv
          using T(9) [OF that(1)] that(2,3) by (auto simp: hashed_def)
        then show ?thesis using i by blast
      qed
      also have "\<dots> \<longleftrightarrow> (k, v) \<in> set (map (\<lambda>(p, kv). ?f kv) (L ! ?i))" by force
      also have "\<dots> \<longleftrightarrow> contents L k = Some v"
        unfolding contents_def bucket_map_def
        by (rule map_of_eq_Some_iff [symmetric]) (use T(9) [OF i] in \<open>simp add: hashed_def comp_def case_prod_unfold\<close>)
      finally show ?thesis .
    qed
    then show "map_of (map ?f ?kvs) k = contents L k" by (metis not_None_eq)
  qed
qed

lemma iterates_record:
  assumes "iterates s S t bs L it xs"
  obtains h where "ht_iters s it = Some h" "hit_ht h = t"
  using assms by (auto simp: iterates_def past_end_def on_entry_def split: if_splits)

text \<open>Deletion through an iterator removes the entry that it is on, and tells whether it was the last one.\<close>

lemma HTIteratorDelete_law:
  assumes heap: "heap_ok s S" and tab: "table s S t r bs L" and idle: "idle r" and oom: "\<And>n. \<not> oom s n"
    and cnt: "num_elements r = of_nat (card (dom (contents L)))" "num_elements r \<noteq> 0"
    and on: "on_entry s S t bs L it (x # xs)"
  shows "runs_to (HTIteratorDelete it) s (\<lambda>res s'. res = (if xs = [] then 2 else 1, Some (snd x)) \<and>
    ht_ok (length L) t s' ((contents L)(kv_key (snd x) := None)))"
proof -
  note C = contents_concat [OF tab]
  let ?f = "\<lambda>kv. (kv_key kv, kv_value kv)"
  have "snd x \<in> set (map snd (concat L))"
    using entry_at(2) [OF tab on] by (simp only: list.sel list.set_map imageI)
  then have "?f (snd x) \<in> set (map ?f (map snd (concat L)))" unfolding list.set_map [of ?f] by (rule imageI)
  moreover have "distinct (map fst (map ?f (map snd (concat L))))" using C(1) by (simp add: comp_def)
  ultimately have x: "contents L (kv_key (snd x)) = Some (kv_value (snd x))"
    unfolding C(2) [symmetric] by (intro map_of_is_SomeI)
  have get: "runs_to (HTIteratorGet it) s Q = Q (Some (snd x)) s" for Q
    by (rule runs_to_exact) (use HTIteratorGet_law [OF heap tab cnt(2) on] in simp)
  have "runs_to (HTIteratorNext it) s (\<lambda>res s'. runs_to (rd_hit it) s' (\<lambda>h s'.
      runs_to (RemoveFromHashTable (hit_ht h) (kv_key (snd x))) s' (\<lambda>w s'. (if res = 0 then 2 else 1, snd w) =
      (if xs = [] then 2 else 1 :: int, Some (snd x)) \<and> ht_ok (length L) t s' ((contents L)(kv_key (snd x) := None)))))"
  proof (rule runs_to_mono [OF HTIteratorNext_law [OF heap tab oom on]], elim conjE)
    fix res :: int and s' assume res: "res = (if xs = [] then 0 else 1)"
      and s': "it_frame s s'" "heap_ok s' S" "iterates s' S t bs L it xs"
    obtain h where h: "ht_iters s' it = Some h" "hit_ht h = t" by (rule iterates_record [OF s'(3)])
    have "ht_ok (length L) t s' (contents L)"
      unfolding ht_ok_def using s'(2) tab table_it_frame [OF s'(1)] idle cnt(1) oom it_frameD(7) [OF s'(1)] by auto
    note rem = ht_remove [OF this, of "kv_key (snd x)"]
    have code: "(if res = 0 then 2 else 1) = (if xs = [] then 2 else 1 :: int)" using res by simp
    show "runs_to (rd_hit it) s' (\<lambda>h s'. runs_to (RemoveFromHashTable (hit_ht h) (kv_key (snd x))) s' (\<lambda>w s'.
      (if res = 0 then 2 else 1, snd w) = (if xs = [] then 2 else 1 :: int, Some (snd x)) \<and>
      ht_ok (length L) t s' ((contents L)(kv_key (snd x) := None))))"
      unfolding code by (simp add: wp h, rule runs_to_mono [OF rem]) (auto simp: answer_def x)
  qed
  then show ?thesis by (simp add: HTIteratorDelete_def wp get case_prod_unfold)
qed

text \<open>C21. An iterator goes through every pair of the table exactly once: the loop of
  \<open>HashTableMakeIterator\<close>, \<open>HTIteratorPastEnd\<close>, \<open>HTIteratorGet\<close> and \<open>HTIteratorNext\<close> ends, has then seen
  a list of pairs with different keys whose map is that of the table, and leaves the table as it was.\<close>

theorem iteration_visits_all:
  assumes "ht_ok nb t s M" and "card (dom M) < 2 ^ 64"
  shows "runs_to (visit_all t) s (\<lambda>seen s'. ht_ok nb t s' M \<and> distinct (map kv_key seen) \<and>
    map_of (map (\<lambda>kv. (kv_key kv, kv_value kv)) seen) = M)"
proof -
  from assms(1) obtain S r bs L where H: "heap_ok s S" "table s S t r bs L" "idle r" "length L = nb" "contents L = M"
    "num_elements r = of_nat (card (dom M))" and oom: "\<And>n. \<not> oom s n" by (rule ht_okE) blast
  have fin: "finite (dom M)" using dom_contents(1) [of L] tableD(4,9) [OF H(2)] H(5) by auto
  note C = contents_concat [OF H(2)]
  have "concat L = [] \<longleftrightarrow> M = Map.empty" using C(2) H(5) by auto
  also have "\<dots> \<longleftrightarrow> card (dom M) = 0" using fin by simp
  also have "\<dots> \<longleftrightarrow> num_elements r = 0"
    using assms(2) by (simp add: H(6) word_unat_eq_iff unat_of_nat take_bit_nat_eq_self del: unsigned_of_nat)
  finally have ne: "num_elements r = 0 \<longleftrightarrow> concat L = []" by simp
  have keep: "ht_ok nb t s' M" if "it_frame s s'" "heap_ok s' S" for s'
    unfolding ht_ok_def using that H table_it_frame [OF that(1)] it_frameD(7) [OF that(1)] oom by auto
  let ?seen = "map snd (concat L)"
  let ?Q = "\<lambda>seen s'. seen = ?seen \<and> it_frame s s' \<and> heap_ok s' S"
  have "runs_to (visit_all t) s ?Q"
    unfolding visit_all_def runs_to_bnd runs_to_seq runs_to_ret
  proof (rule runs_to_mono [OF HashTableMakeIterator_law [OF H(1,2) oom ne]], elim conjE)
    fix it s1 assume s1: "it_frame s s1" "heap_ok s1 S" "iterates s1 S t bs L it (concat L)"
    have tab1: "table s1 S t r bs L" and oom1: "\<And>n. \<not> oom s1 n"
      using H(2) table_it_frame [OF s1(1)] it_frameD(7) [OF s1(1)] oom by auto
    have "num_elements r \<noteq> 0 \<or> concat L = []" using ne by blast
    from visit_loop [OF s1(2) tab1 oom1 this s1(3), of "[]"]
    show "runs_to (whileM (\<lambda>seen. bnd (HTIteratorPastEnd it) (\<lambda>past. ret (\<not> past)))
       (\<lambda>seen. bnd (HTIteratorGet it) (\<lambda>item.
          bnd (HTIteratorNext it) (\<lambda>_. ret (seen @ (case item of None \<Rightarrow> [] | Some kv \<Rightarrow> [kv]))))) []) s1
      (\<lambda>seen s2. runs_to (HTIteratorFree it) s2 (\<lambda>_. ?Q seen))"
    proof (rule runs_to_mono, elim conjE)
      fix seen s2 assume s2: "seen = [] @ ?seen" "it_frame s1 s2" "heap_ok s2 S" "iterates s2 S t bs L it []"
      show "runs_to (HTIteratorFree it) s2 (\<lambda>_. ?Q seen)"
        by (rule runs_to_mono [OF HTIteratorFree_law [OF s2(3,4)]])
          (use s2(1) it_frame_trans [OF it_frame_trans [OF s1(1) s2(2)]] in auto)
    qed
  qed
  then show ?thesis by (rule runs_to_mono) (use keep C H(5) in auto)
qed

lemma iteration_visits_all_witness:
  "runs_to (bnd (AllocateHashTable 4) (\<lambda>t.
     bnd (InsertHashTable 1 t \<lparr>kv_key = 5, kv_value = 100\<rparr>) (\<lambda>_.
     bnd (InsertHashTable 1 t \<lparr>kv_key = 9, kv_value = 200\<rparr>) (\<lambda>_. visit_all t)))) mem0
   (\<lambda>seen s'. map_of (map (\<lambda>kv. (kv_key kv, kv_value kv)) seen) = [5 \<mapsto> 100, 9 \<mapsto> 200])"
proof (rule new_table_runs)
  fix s assume ok: "ht_ok 4 1 s Map.empty"
  note ins = ht_put [of 4 1 _ _ 0, folded One_nat_def]
  show "runs_to (bnd (InsertHashTable 1 1 \<lparr>kv_key = 5, kv_value = 100\<rparr>) (\<lambda>_.
     bnd (InsertHashTable 1 1 \<lparr>kv_key = 9, kv_value = 200\<rparr>) (\<lambda>_. visit_all 1))) s
   (\<lambda>seen s'. map_of (map (\<lambda>kv. (kv_key kv, kv_value kv)) seen) = [5 \<mapsto> 100, 9 \<mapsto> 200])"
    unfolding wp
  proof (rule runs_to_mono [OF ins [OF ok]], simp, rule runs_to_mono [OF ins], assumption, simp)
    fix s' assume "ht_ok 4 1 s' ([5 \<mapsto> 100](9 \<mapsto> 200))"
    from iteration_visits_all [OF this]
    show "runs_to (visit_all 1) s' (\<lambda>seen s'. map_of (map (\<lambda>kv. (kv_key kv, kv_value kv)) seen) = [5 \<mapsto> 100, 9 \<mapsto> 200])"
      by (simp, elim runs_to_mono) simp
  qed
qed
end
