(* ===== verification/TableGrow.thy ===== *)
theory TableGrow
  imports TableIter
begin

text \<open>
  What an insertion does to a table that is due to grow: \<open>ResizeHashtable\<close> either gives up, and the
  pair is inserted into the table as it is, or the run is undefined. It never makes a larger table.
\<close>

section \<open>Programs that may be undefined\<close>

definition undef_or :: "('s, 'a) prog \<Rightarrow> 's \<Rightarrow> ('a \<Rightarrow> 's \<Rightarrow> bool) \<Rightarrow> bool" where
  "undef_or m s Q \<longleftrightarrow> m s = Inl Undefined \<or> runs_to m s Q"

lemma undef_orI: "runs_to m s Q \<Longrightarrow> undef_or m s Q" "m s = Inl Undefined \<Longrightarrow> undef_or m s Q"
  by (simp_all add: undef_or_def)

lemma undef_or_cong: "m s = m' s \<Longrightarrow> undef_or m s Q = undef_or m' s Q"
  by (simp add: undef_or_def runs_to_def)

lemma undef_or_bnd: "undef_or m s (\<lambda>x s'. undef_or (f x) s' Q) \<Longrightarrow> undef_or (bnd m f) s Q"
  by (auto simp: undef_or_def runs_to_def bnd_def split: sum.splits prod.splits)

lemma undef_or_seq: "undef_or m s (\<lambda>_ s'. undef_or k s' Q) \<Longrightarrow> undef_or (seq m k) s Q"
  unfolding seq_def by (rule undef_or_bnd)

lemma undef_or_mono: "undef_or m s P \<Longrightarrow> (\<And>x s'. P x s' \<Longrightarrow> Q x s') \<Longrightarrow> undef_or m s Q"
  unfolding undef_or_def by (blast intro: runs_to_mono)

lemma undef_or_ret [simp]: "undef_or (ret x) s Q = Q x s"
  by (simp add: undef_or_def runs_to_ret) (simp add: ret_def)

section \<open>Two tables\<close>

text \<open>
  \<open>two_tables s S t r bs L t2 r2 bs2 L2\<close>: memory is well formed and has two tables that share nothing.
\<close>

definition two_tables :: "mem \<Rightarrow> (addr \<rightharpoonup> nodes) \<Rightarrow> addr \<Rightarrow> HashTableRecord \<Rightarrow> addr list \<Rightarrow> entries list \<Rightarrow>
    addr \<Rightarrow> HashTableRecord \<Rightarrow> addr list \<Rightarrow> entries list \<Rightarrow> bool" where
  "two_tables s S t r bs L t2 r2 bs2 L2 \<longleftrightarrow> heap_ok s S \<and> table s S t r bs L \<and> table s S t2 r2 bs2 L2 \<and>
     t \<noteq> t2 \<and> buckets r \<noteq> buckets r2 \<and> set bs \<inter> set bs2 = {} \<and> pointers L \<inter> pointers L2 = {}"

lemma pointers_allocated:
  assumes "table s S t r bs L" and "q \<in> pointers L"
  shows "kvs s q \<noteq> None"
proof -
  from assms(2) obtain ks kv where "ks \<in> set L" "(q, kv) \<in> set ks"
    unfolding pointers_def by fastforce
  moreover from this obtain i where "i < length L" "L ! i = ks" by (metis in_set_conv_nth)
  ultimately show ?thesis using tableD(8) [OF assms(1), of i] by (auto simp: chain_at_def)
qed

lemma table_frame:
  assumes T: "table s S t r bs L" and "ht_recs s' t = Some r" "ptr_arrays s' (buckets r) = ptr_arrays s (buckets r)"
    and "\<And>l. l \<in> set bs \<Longrightarrow> S' l = S l" and "\<And>q. q \<in> pointers L \<Longrightarrow> kvs s' q = kvs s q"
  shows "table s' S' t r bs L"
proof -
  note D = tableD [OF T]
  have "chain_at s' S' (bs ! i) (L ! i)" if i: "i < length L" for i
  proof -
    have "bs ! i \<in> set bs" using i D(6) by simp
    moreover have "q \<in> pointers L" if "(q, kv) \<in> set (L ! i)" for q kv
      using that pointers_bucket [OF i] image_eqI [of q fst "(q, kv)" "set (L ! i)"] by auto
    ultimately have "chain_at s' S' (bs ! i) (L ! i) = chain_at s S (bs ! i) (L ! i)"
      using assms(4,5) by (intro chain_at_cong) auto
    then show ?thesis using D(8) [OF i] by blast
  qed
  then show ?thesis using assms(2,3) D unfolding table_def by simp
qed

lemma iterates_frame:
  assumes T: "table s S t r bs L" and "iterates s S t bs L it xs"
    and "ll_iters s' = ll_iters s" "ht_iters s' = ht_iters s" and "\<And>l. l \<in> set bs \<Longrightarrow> S' l = S l"
  shows "iterates s' S' t bs L it xs"
proof -
  have "S' (bs ! i) = S (bs ! i)" if "i < length L" for i
    using assms(5) that tableD(6) [OF T] by simp
  then have "at_node S' ll ms a x ns = at_node S ll ms a x ns" if "it_list ll = bs ! i" "i < length L" for ll ms a x ns i
    using that by (simp add: at_node_def)
  then have "on_entry s' S' t bs L it xs" if "on_entry s S t bs L it xs"
    using that unfolding on_entry_def assms(3,4) by metis
  then show ?thesis using assms(2,3,4) by (auto simp: iterates_def past_end_def split: if_splits)
qed

text \<open>An insertion into one of the tables leaves the other one and its iterator alone.\<close>

lemma insert_two_tables:
  assumes A: "two_tables s S t r bs L t2 r2 bs2 L2" and idle: "idle r2" and oom: "\<And>n. \<not> oom s n"
    and few: "num_elements r2 < 3 * num_buckets r2" and room: "Suc (card (dom (contents L2))) < 2 ^ 64"
    and cnt: "num_elements r2 = of_nat (card (dom (contents L2)))" and it: "iterates s S t bs L it xs"
  shows "runs_to (InsertHashTable (Suc d) t2 kv) s (\<lambda>_ s'. \<exists>S' r2' L2'. two_tables s' S' t r bs L t2 r2' bs2 L2' \<and>
    idle r2' \<and> length L2' = length L2 \<and> num_elements r2' = of_nat (card (dom (contents L2'))) \<and>
    card (dom (contents L2')) \<le> Suc (card (dom (contents L2))) \<and> oom s' = oom s \<and> iterates s' S' t bs L it xs)"
proof -
  from A have H: "heap_ok s S" "table s S t r bs L" "table s S t2 r2 bs2 L2"
    and ap: "t \<noteq> t2" "buckets r \<noteq> buckets r2" "set bs \<inter> set bs2 = {}" "pointers L \<inter> pointers L2 = {}"
    by (simp_all add: two_tables_def)
  have fin: "finite (dom (contents L2))" using dom_contents(1) [of L2] tableD(4,9) [OF H(3)] by auto
  show ?thesis
  proof (rule runs_to_mono [OF InsertHashTable_law [OF H(1,3) idle few room]])
    fix res s'
    assume "inserted s S t2 r2 bs2 L2 kv res s'"
    then have "becomes s S t2 r2 bs2 L2 ((contents L2)(kv_key kv \<mapsto> kv_value kv))
        (num_elements r2 + (if contents L2 (kv_key kv) = None then 1 else 0)) s'"
      using no_oom_fails [OF oom] by (auto simp: inserted_def split: if_splits option.splits)
    then obtain S' r2' L2' where B: "heap_ok s' S'" "table s' S' t2 r2' bs2 L2'" "idle r2'" "buckets r2' = buckets r2"
      "length L2' = length L2" "contents L2' = (contents L2)(kv_key kv \<mapsto> kv_value kv)"
      "num_elements r2' = num_elements r2 + (if contents L2 (kv_key kv) = None then 1 else 0)"
      "pointers L2' \<subseteq> pointers L2 \<union> {q. kvs s q = None}" "ht_step s S t2 bs2 L2 s' S'"
      unfolding becomes_def by blast
    from B(9) have F: "ht_frame s s'" "\<And>l. l \<notin> set bs2 \<Longrightarrow> S' l = S l" "\<And>u. u \<noteq> t2 \<Longrightarrow> ht_recs s' u = ht_recs s u"
      "\<And>q kv. kvs s q = Some kv \<Longrightarrow> q \<notin> pointers L2 \<Longrightarrow> kvs s' q = Some kv"
      unfolding ht_step_def by auto
    from F(1) have G: "ll_iters s' = ll_iters s" "ht_iters s' = ht_iters s" "ptr_arrays s' = ptr_arrays s" "oom s' = oom s"
      by (auto simp: ht_frame_def)
    have lists: "S' l = S l" if "l \<in> set bs" for l using F(2) ap(3) that by blast
    have "kvs s' q = kvs s q" if q: "q \<in> pointers L" for q
      using pointers_allocated [OF H(2) q] F(4) [of q] ap(4) q by force
    then have "table s' S' t r bs L"
      by (intro table_frame [OF H(2) _ _ lists]) (use F(3) ap(1) G(3) tableD(1) [OF H(2)] in auto)
    moreover have "pointers L \<inter> pointers L2' = {}"
      using B(8) ap(4) pointers_allocated [OF H(2)] by blast
    ultimately have "two_tables s' S' t r bs L t2 r2' bs2 L2'" using B ap by (simp add: two_tables_def)
    moreover have "iterates s' S' t bs L it xs" by (rule iterates_frame [OF H(2) it G(1,2) lists])
    moreover have "num_elements r2' = of_nat (card (dom (contents L2')))"
      unfolding B(6,7) cnt card_upd [OF fin] by simp
    moreover have "card (dom (contents L2')) \<le> Suc (card (dom (contents L2)))"
      unfolding B(6) card_upd [OF fin] by simp
    ultimately show "\<exists>S' r2' L2'. two_tables s' S' t r bs L t2 r2' bs2 L2' \<and>
      idle r2' \<and> length L2' = length L2 \<and> num_elements r2' = of_nat (card (dom (contents L2'))) \<and>
      card (dom (contents L2')) \<le> Suc (card (dom (contents L2))) \<and> oom s' = oom s \<and> iterates s' S' t bs L it xs"
      using B(3,5) G(4) by blast
  qed
qed

lemma two_tables_frame:
  assumes "two_tables s S t r bs L t2 r2 bs2 L2" and "it_frame s s'" and "heap_ok s' S"
  shows "two_tables s' S t r bs L t2 r2 bs2 L2"
  using assms table_it_frame [OF assms(2)] by (simp add: two_tables_def)

text \<open>The loop reads its uninitialised variable.\<close>

lemma read_uninit_law:
  assumes A: "two_tables s S t r bs L t2 r2 bs2 L2" and it: "iterates s S t bs L it xs"
  shows "runs_to read_uninit_item s (\<lambda>_ s'. two_tables s' S t r bs L t2 r2 bs2 L2 \<and> iterates s' S t bs L it xs \<and> oom s' = oom s)"
proof -
  let ?s = "uninit_reads_update Suc s"
  from A have H: "heap_ok s S" "table s S t r bs L" "table s S t2 r2 bs2 L2" by (simp_all add: two_tables_def)
  have "heap_ok ?s S" using heap_okD [OF H(1)] ll_inv_cong [of ?s s] by (simp add: heap_ok_def)
  moreover have "table ?s S t r bs L" "table ?s S t2 r2 bs2 L2"
    using table_frame [OF H(2), of ?s S] table_frame [OF H(3), of ?s S] tableD(1) [OF H(2)] tableD(1) [OF H(3)] by simp_all
  ultimately have "two_tables ?s S t r bs L t2 r2 bs2 L2" using A by (simp add: two_tables_def)
  moreover have "iterates ?s S t bs L it xs" by (rule iterates_frame [OF H(2) it]) simp_all
  ultimately show ?thesis by (simp add: read_uninit_item_def runs_to_def prog_defs)
qed

section \<open>The new table is given up\<close>

text \<open>The old table is as it was before.\<close>

definition unchanged :: "mem \<Rightarrow> addr \<Rightarrow> HashTableRecord \<Rightarrow> addr list \<Rightarrow> entries list \<Rightarrow> bool" where
  "unchanged s t r bs L \<longleftrightarrow> (\<exists>S. heap_ok s S \<and> table s S t r bs L) \<and> (\<forall>n. \<not> oom s n)"

lemma free_new_table:
  assumes A: "two_tables s S t r bs L t2 r2 bs2 L2" and oom: "\<And>n. \<not> oom s n"
  shows "undef_or (FreeHashTable t2 NullFree) s (\<lambda>_ s'. unchanged s' t r bs L)"
proof -
  from A have H: "heap_ok s S" "table s S t r bs L" "table s S t2 r2 bs2 L2"
    and ap: "t \<noteq> t2" "buckets r \<noteq> buckets r2" "set bs \<inter> set bs2 = {}" by (simp_all add: two_tables_def)
  show ?thesis
  proof (cases "\<forall>ks \<in> set L2. length ks \<le> 1")
    case True
    have "runs_to (FreeHashTable t2 NullFree) s (\<lambda>_ s'. unchanged s' t r bs L)"
    proof (rule runs_to_mono [OF FreeHashTable_small [OF H(3,1) True]], elim exE conjE)
      fix s' S'
      assume S': "heap_ok s' S'" "\<forall>l. l \<notin> set bs2 \<longrightarrow> S' l = S l"
        and s': "s' = s\<lparr>ll_nodes := ll_nodes s', ll_lists := ll_lists s', ptr_arrays := (ptr_arrays s)(buckets r2 := None),
          ht_recs := (ht_recs s)(t2 := None)\<rparr>"
      have "ht_recs s' t = Some r" "ptr_arrays s' (buckets r) = ptr_arrays s (buckets r)" "kvs s' = kvs s" "oom s' = oom s"
        using ap(1,2) tableD(1) [OF H(2)] by (subst s', simp)+
      moreover from this have "table s' S' t r bs L"
        using S'(2) ap(3) by (intro table_frame [OF H(2)]) auto
      ultimately show "unchanged s' t r bs L" using S'(1) oom by (auto simp: unchanged_def)
    qed
    then show ?thesis by (rule undef_orI)
  next
    case False
    then obtain j where "j < length L2" "1 < length (L2 ! j)" by (metis in_set_conv_nth not_less)
    from FreeHashTable_large [OF H(3,1) this] show ?thesis by (rule undef_orI)
  qed
qed

lemma resize_gives_up:
  assumes A: "two_tables s S t r bs L t2 r2 bs2 L2" and oom: "\<And>n. \<not> oom s n" and it: "iterates s S t bs L it xs"
  shows "undef_or (seq (HTIteratorFree it) (seq (FreeHashTable t2 NullFree) (ret True))) s
    (\<lambda>failed s'. failed \<and> unchanged s' t r bs L)"
proof (rule undef_or_seq, rule undef_orI(1), rule runs_to_mono [OF HTIteratorFree_law [OF _ it]])
  show "heap_ok s S" using A by (simp add: two_tables_def)
  fix s' assume s': "it_frame s s' \<and> heap_ok s' S"
  have "\<And>n. \<not> oom s' n" using oom s' it_frameD(7) by metis
  from free_new_table [OF two_tables_frame [OF A] this] s'
  have "undef_or (FreeHashTable t2 NullFree) s' (\<lambda>_ s'. unchanged s' t r bs L)" by blast
  then show "undef_or (seq (FreeHashTable t2 NullFree) (ret True)) s' (\<lambda>failed s'. failed \<and> unchanged s' t r bs L)"
    by (intro undef_or_seq) (simp add: undef_or_mono)
qed

section \<open>The loop\<close>

text \<open>The state of the new table in the loop, when at most \<open>m\<close> entries are in it.\<close>

definition filling :: "mem \<Rightarrow> (addr \<rightharpoonup> nodes) \<Rightarrow> addr \<Rightarrow> HashTableRecord \<Rightarrow> addr list \<Rightarrow> entries list \<Rightarrow>
    addr \<Rightarrow> addr list \<Rightarrow> nat \<Rightarrow> nat \<Rightarrow> addr \<Rightarrow> entries \<Rightarrow> bool" where
  "filling s S t r bs L t2 bs2 nb m it xs \<longleftrightarrow> (\<exists>r2 L2. two_tables s S t r bs L t2 r2 bs2 L2 \<and> idle r2 \<and> length L2 = nb \<and>
     num_elements r2 = of_nat (card (dom (contents L2))) \<and> card (dom (contents L2)) \<le> m) \<and>
     (\<forall>n. \<not> oom s n) \<and> iterates s S t bs L it xs"

lemma resize_round:
  assumes F: "filling s S t r bs L t2 bs2 nb m it (x # xs)" and m: "m < 3 * nb"
  shows "undef_or (resize_step (InsertHashTable (Suc d)) t2 it) s (\<lambda>failed s'.
    if failed then unchanged s' t r bs L else \<exists>S'. filling s' S' t r bs L t2 bs2 nb (Suc m) it xs)"
proof -
  from F obtain r2 L2 where A: "two_tables s S t r bs L t2 r2 bs2 L2" and r2: "idle r2" "length L2 = nb"
    "num_elements r2 = of_nat (card (dom (contents L2)))" "card (dom (contents L2)) \<le> m"
    and oom: "\<And>n. \<not> oom s n" and it: "iterates s S t bs L it (x # xs)" by (auto simp: filling_def)
  have T2: "table s S t2 r2 bs2 L2" using A by (simp add: two_tables_def)
  have nb: "nb < 2 ^ 32" using tableD(5) [OF T2] r2(2) by simp
  have room: "Suc (card (dom (contents L2))) < 2 ^ 64" using r2(4) m nb by simp
  have few: "num_elements r2 < 3 * num_buckets r2"
    using threshold [OF nb] room r2(2-4) m tableD(3) [OF T2] by simp
  show ?thesis
    unfolding resize_step_def
  proof (intro undef_or_bnd undef_orI(1) runs_to_mono [OF read_uninit_law [OF A it]], elim conjE)
    fix item s1
    assume s1: "two_tables s1 S t r bs L t2 r2 bs2 L2" "iterates s1 S t bs L it (x # xs)" "oom s1 = oom s"
    have oom1: "\<And>n. \<not> oom s1 n" using oom s1(3) by simp
    show "runs_to (InsertHashTable (Suc d) t2 item) s1 (\<lambda>p s'. undef_or (case p of (res, dummy) \<Rightarrow>
        if res \<noteq> 1 then seq (HTIteratorFree it) (seq (FreeHashTable t2 NullFree) (ret True))
        else bnd (HTIteratorNext it) (\<lambda>_. ret False)) s' (\<lambda>failed s'.
        if failed then unchanged s' t r bs L else \<exists>S'. filling s' S' t r bs L t2 bs2 nb (Suc m) it xs))"
    proof (rule runs_to_mono [OF insert_two_tables [OF s1(1) r2(1) oom1 few room r2(3) s1(2)]], elim exE conjE)
      fix p s2 S2 r2' L2'
      assume s2: "two_tables s2 S2 t r bs L t2 r2' bs2 L2'" "idle r2'" "length L2' = length L2"
        "num_elements r2' = of_nat (card (dom (contents L2')))"
        "card (dom (contents L2')) \<le> Suc (card (dom (contents L2)))" "oom s2 = oom s1" "iterates s2 S2 t bs L it (x # xs)"
      have oom2: "\<And>n. \<not> oom s2 n" using oom1 s2(6) by simp
      from s2(1) have H2: "heap_ok s2 S2" "table s2 S2 t r bs L" by (simp_all add: two_tables_def)
      have on: "on_entry s2 S2 t bs L it (x # xs)" using s2(7) by (simp add: iterates_def)
      have "runs_to (HTIteratorNext it) s2 (\<lambda>_ s'. \<exists>S'. filling s' S' t r bs L t2 bs2 nb (Suc m) it xs)"
      proof (rule runs_to_mono [OF HTIteratorNext_law [OF H2 oom2 on]], elim conjE)
        fix s3 assume s3: "it_frame s2 s3" "heap_ok s3 S2" "iterates s3 S2 t bs L it xs"
        have "\<And>n. \<not> oom s3 n" using oom2 it_frameD(7) [OF s3(1)] by simp
        with two_tables_frame [OF s2(1) s3(1,2)] s2(2-5) s3(3) r2(2,4)
        have "filling s3 S2 t r bs L t2 bs2 nb (Suc m) it xs"
          unfolding filling_def by (intro conjI exI [of _ r2'] exI [of _ L2']) simp_all
        then show "\<exists>S'. filling s3 S' t r bs L t2 bs2 nb (Suc m) it xs" by blast
      qed
      then have go: "undef_or (bnd (HTIteratorNext it) (\<lambda>_. ret False)) s2 (\<lambda>failed s'.
          if failed then unchanged s' t r bs L else \<exists>S'. filling s' S' t r bs L t2 bs2 nb (Suc m) it xs)"
        by (intro undef_or_bnd undef_orI(1)) simp
      have stop: "undef_or (seq (HTIteratorFree it) (seq (FreeHashTable t2 NullFree) (ret True))) s2 (\<lambda>failed s'.
          if failed then unchanged s' t r bs L else \<exists>S'. filling s' S' t r bs L t2 bs2 nb (Suc m) it xs)"
        by (rule undef_or_mono [OF resize_gives_up [OF s2(1) oom2 s2(7)]]) simp
      show "undef_or (case p of (res, dummy) \<Rightarrow>
        if res \<noteq> 1 then seq (HTIteratorFree it) (seq (FreeHashTable t2 NullFree) (ret True))
        else bnd (HTIteratorNext it) (\<lambda>_. ret False)) s2 (\<lambda>failed s'.
        if failed then unchanged s' t r bs L else \<exists>S'. filling s' S' t r bs L t2 bs2 nb (Suc m) it xs)"
        using go stop by (cases p) simp
    qed
  qed
qed

lemma resize_loop:
  assumes "num_elements r \<noteq> 0 \<or> xs = []"
    and "filling s S t r bs L t2 bs2 nb m it xs" and "m + length xs \<le> 3 * nb"
  shows "undef_or (whileM (\<lambda>failed. if failed then ret False else bnd (HTIteratorPastEnd it) (\<lambda>past. ret (\<not> past)))
      (\<lambda>_. resize_step (InsertHashTable (Suc d)) t2 it) False) s (\<lambda>failed s'.
    if failed then unchanged s' t r bs L else \<exists>S' m'. filling s' S' t r bs L t2 bs2 nb m' it [])"
  using assms
proof (induction xs arbitrary: s S m)
  case Nil
  then have "table s S t r bs L" "iterates s S t bs L it []" by (auto simp: filling_def two_tables_def)
  from HTIteratorPastEnd_law [OF this(1) _ this(2)] Nil show ?case
    by (subst whileM_unfold) (auto simp: undef_or_def runs_to_def prog_defs)
next
  case (Cons x xs)
  let ?loop = "whileM (\<lambda>failed. if failed then ret False else bnd (HTIteratorPastEnd it) (\<lambda>past. ret (\<not> past)))
      (\<lambda>_. resize_step (InsertHashTable (Suc d)) t2 it)"
  from Cons.prems have it: "table s S t r bs L" "iterates s S t bs L it (x # xs)"
    by (auto simp: filling_def two_tables_def)
  have past: "HTIteratorPastEnd it s = Inr (False, s)"
    using HTIteratorPastEnd_law [OF it(1) _ it(2)] Cons.prems(1) by simp
  have m: "m < 3 * nb" using Cons.prems(3) by simp
  have "undef_or (bnd (resize_step (InsertHashTable (Suc d)) t2 it) ?loop) s (\<lambda>failed s'.
    if failed then unchanged s' t r bs L else \<exists>S' m'. filling s' S' t r bs L t2 bs2 nb m' it [])"
  proof (rule undef_or_bnd, rule undef_or_mono [OF resize_round [OF Cons.prems(2) m]])
    fix failed s'
    assume s': "if failed then unchanged s' t r bs L else \<exists>S'. filling s' S' t r bs L t2 bs2 nb (Suc m) it xs"
    show "undef_or (?loop failed) s' (\<lambda>failed s'.
      if failed then unchanged s' t r bs L else \<exists>S' m'. filling s' S' t r bs L t2 bs2 nb m' it [])"
    proof (cases failed)
      case True
      then show ?thesis using s' by (subst whileM_unfold) (simp add: undef_or_def runs_to_def prog_defs)
    next
      case False
      with s' obtain S' where "filling s' S' t r bs L t2 bs2 nb (Suc m) it xs" by auto
      from Cons.IH [OF _ this] Cons.prems(1,3) have "undef_or (?loop False) s' (\<lambda>failed s'.
        if failed then unchanged s' t r bs L else \<exists>S' m'. filling s' S' t r bs L t2 bs2 nb m' it [])"
        by (simp del: InsertHashTable.simps)
      then show ?thesis using False by (simp only:)
    qed
  qed
  then show ?case using past by (subst whileM_unfold) (simp add: bnd_def ret_def undef_or_def runs_to_def)
qed

section \<open>The new table is filled\<close>

text \<open>A table with more entries than buckets has two entries in one of them.\<close>

lemma crowded_bucket:
  assumes T: "table s S t r bs L" and "length L < card (dom (contents L))"
  obtains j where "j < length L" "1 < length (L ! j)"
proof -
  let ?K = "\<lambda>i. {k \<in> dom (contents L). unat k mod length L = i}"
  have "length L < card (\<Union>i < length L. ?K i)"
  proof -
    have "dom (contents L) = (\<Union>i < length L. ?K i)" using tableD(4) [OF T] by auto
    then show ?thesis using assms(2) by simp
  qed
  also have "\<dots> \<le> (\<Sum>i < length L. card (?K i))" by (rule card_UN_le) simp
  also have "\<dots> = (\<Sum>i < length L. length (L ! i))"
    by (rule sum.cong) (use bucket_keys [OF T] in auto)
  finally have "\<not> (\<forall>i < length L. length (L ! i) \<le> 1)"
    using sum_bounded_above [of "{..<length L}" "\<lambda>i. length (L ! i)" 1] by fastforce
  then show thesis using that by (metis not_less)
qed

lemma length_concat_table:
  assumes T: "table s S t r bs L"
  shows "length (concat L) = card (dom (contents L))"
proof -
  note C = contents_concat [OF T]
  have "dom (contents L) = set (map kv_key (map snd (concat L)))"
    unfolding C(2) [symmetric] dom_map_of_conv_image_fst by (simp add: image_image)
  then show ?thesis using distinct_card [OF C(1)] by (simp only: length_map)
qed

text \<open>The records are exchanged, and the old entries are now freed as those of the new table.\<close>

lemma swap_and_free:
  assumes A: "two_tables s S t r bs L t2 r2 bs2 L2" and c: "length L < card (dom (contents L))"
  shows "seq (swap_records t t2) (FreeHashTable t2 NullFree) s = Inl Undefined"
proof -
  from A have H: "heap_ok s S" "table s S t r bs L" "table s S t2 r2 bs2 L2" "t \<noteq> t2" by (simp_all add: two_tables_def)
  let ?s = "s\<lparr>ht_recs := (ht_recs s)(t \<mapsto> r2, t2 \<mapsto> r)\<rparr>"
  note B = below_bound [OF heap_okD(3) [OF H(1)]]
  have run: "swap_records t t2 s = Inr ((), ?s)"
    using tableD(1) [OF H(2)] tableD(1) [OF H(3)] H(4) B [of t] B [of t2]
    by (simp add: swap_records_def prog_defs)
  have "heap_ok ?s S"
    using heap_okD [OF H(1)] ll_inv_cong [of ?s s] B [OF tableD(1) [OF H(2)]] B [OF tableD(1) [OF H(3)]]
    by (simp add: heap_ok_def)
  moreover have "table ?s S t2 r bs L" using H(2) by (simp add: table_def chain_at_def)
  moreover from crowded_bucket [OF H(2) c] obtain j where "j < length L" "1 < length (L ! j)" .
  ultimately have "FreeHashTable t2 NullFree ?s = Inl Undefined" by (intro FreeHashTable_large)
  then show ?thesis using run by (simp add: seq_def bnd_def)
qed

section \<open>Growing\<close>

text \<open>The memory with the new, empty table.\<close>

lemma new_two_tables:
  assumes heap: "heap_ok s S" and tab: "table s S t r bs L" and oom: "\<And>n. \<not> oom s n"
    and al: "allocating s S n n s'" and n: "0 < n" "n < 2 ^ 32"
  shows "\<exists>S' r2 bs2. two_tables s' S' t r bs L (Suc (next_addr s)) r2 bs2 (replicate n []) \<and> idle r2 \<and>
    num_elements r2 = 0 \<and> (\<forall>n. \<not> oom s' n)"
proof -
  let ?t2 = "Suc (next_addr s)"
  note T = tableD [OF tab]
  from allocating_table [OF heap al n] obtain S' r2 bs2 where
    N: "heap_ok s' S'" "table s' S' ?t2 r2 bs2 (replicate n [])" "idle r2" "num_elements r2 = 0" and
    fr: "next_addr s < buckets r2" "\<And>l. l \<notin> set bs2 \<Longrightarrow> S' l = S l" "\<And>l. l \<in> set bs2 \<Longrightarrow> next_addr s < l"
      "\<And>u. u \<noteq> ?t2 \<Longrightarrow> ht_recs s' u = ht_recs s u" "\<And>u. u \<le> next_addr s \<Longrightarrow> ptr_arrays s' u = ptr_arrays s u"
    and e: "\<exists>H R P m. s' = s\<lparr>next_addr := m, ht_recs := R, ptr_arrays := P, ll_lists := H\<rparr>"
    by metis
  have t: "t \<noteq> ?t2" "buckets r \<le> next_addr s"
    using below_bound [OF heap_okD(3) [OF heap] T(1)] below_bound [OF heap_okD(4) [OF heap] T(2)] by auto
  have old: "l \<notin> set bs2" if l: "l \<in> set bs" for l
  proof -
    from l obtain i where i: "i < length L" "l = bs ! i" using T(6) by (metis in_set_conv_nth)
    have "S l \<noteq> None" using T(8) [OF i(1)] i(2) by (auto simp: chain_at_def)
    then have "\<not> next_addr s < l" using ll_inv_fresh(4) [OF heap_okD(1) [OF heap], of l] by (rule contrapos_nn)
    then show ?thesis using fr(3) [of l] by (rule contrapos_nn)
  qed
  have kv: "kvs s' = kvs s" "oom s' = oom s" using e by auto
  have "table s' S' t r bs L"
  proof (rule table_frame [OF tab])
    show "ht_recs s' t = Some r" using fr(4) [OF t(1)] T(1) by simp
    show "ptr_arrays s' (buckets r) = ptr_arrays s (buckets r)" by (rule fr(5) [OF t(2)])
    show "S' l = S l" if "l \<in> set bs" for l by (rule fr(2) [OF old [OF that]])
    show "kvs s' q = kvs s q" for q by (simp add: kv)
  qed
  then have "two_tables s' S' t r bs L ?t2 r2 bs2 (replicate n [])"
    using N t fr(1) old by (auto simp: two_tables_def pointers_def)
  then show ?thesis using N(3,4) kv(2) oom by auto
qed

text \<open>The part of \<open>resize_with\<close> after the allocation of the new table.\<close>

definition fill_table :: "nat \<Rightarrow> addr \<Rightarrow> addr \<Rightarrow> (mem, unit) prog" where
  "fill_table d ht newht =
     bnd (HashTableMakeIterator ht) (\<lambda>it.
     if it = NULL then FreeHashTable newht NullFree
     else
       bnd (whileM
         (\<lambda>failed. if failed then ret False
                   else bnd (HTIteratorPastEnd it) (\<lambda>past. ret (\<not> past)))
         (\<lambda>_. resize_step (InsertHashTable d) newht it) False) (\<lambda>failed.
       if failed then ret ()
       else
         seq (HTIteratorFree it)
        (seq (swap_records ht newht)
             (FreeHashTable newht NullFree))))"

lemma resize_with_fills:
  assumes "ht_recs s t = Some r" and "\<not> num_elements r < 3 * num_buckets r"
  shows "undef_or (resize_with (InsertHashTable d) t) s Q = undef_or (bnd (AllocateHashTable (ucast (num_buckets r * 9)))
    (\<lambda>newht. if newht = NULL then ret () else fill_table d t newht)) s Q"
proof (rule undef_or_cong)
  have "rd_ht t s = Inr (r, s)" using assms(1) by (simp add: prog_defs)
  then show "resize_with (InsertHashTable d) t s = bnd (AllocateHashTable (ucast (num_buckets r * 9)))
      (\<lambda>newht. if newht = NULL then ret () else fill_table d t newht) s"
    using assms(2) unfolding resize_with_def fill_table_def
    by (simp add: bnd_def [of "rd_ht t"] del: InsertHashTable.simps)
qed

lemma fill_table_law:
  assumes A: "two_tables s S t r bs L t2 r2 bs2 (replicate n [])" and r2: "idle r2" "num_elements r2 = 0"
    and oom: "\<And>n. \<not> oom s n" and n: "0 < n" "length (concat L) \<le> 3 * n"
    and ne: "num_elements r \<noteq> 0" "concat L \<noteq> []" and crowd: "length L < card (dom (contents L))"
  shows "undef_or (fill_table (Suc d) t t2) s (\<lambda>_ s'. unchanged s' t r bs L)"
proof -
  from A have H: "heap_ok s S" "table s S t r bs L" by (simp_all add: two_tables_def)
  have ne1: "num_elements r = 0 \<longleftrightarrow> concat L = []" and ne2: "num_elements r \<noteq> 0 \<or> concat L = []" using ne by blast+
  have empty: "contents (replicate n []) = Map.empty" using n(1) by (simp add: contents_def fun_eq_iff)
  let ?rest = "\<lambda>it failed. if failed then ret ()
    else seq (HTIteratorFree it) (seq (swap_records t t2) (FreeHashTable t2 NullFree))"
  let ?loop = "\<lambda>it. whileM (\<lambda>failed. if failed then ret False else bnd (HTIteratorPastEnd it) (\<lambda>past. ret (\<not> past)))
    (\<lambda>_. resize_step (InsertHashTable (Suc d)) t2 it) False"
  have swapped: "seq (HTIteratorFree it) (seq (swap_records t t2) (FreeHashTable t2 NullFree)) s3 = Inl Undefined"
    if F: "filling s3 S' t r bs L t2 bs2 n m it []" for it s3 S' m
  proof -
    from F obtain r2' L2' where A3: "two_tables s3 S' t r bs L t2 r2' bs2 L2'" and it: "iterates s3 S' t bs L it []"
      by (auto simp: filling_def)
    have "heap_ok s3 S'" using A3 by (simp add: two_tables_def)
    from HTIteratorFree_law [OF this it]
    have "runs_to (HTIteratorFree it) s3 (\<lambda>_ s'. seq (swap_records t t2) (FreeHashTable t2 NullFree) s' = Inl Undefined)"
      by (rule runs_to_mono) (use two_tables_frame [OF A3] crowd in \<open>auto intro!: swap_and_free\<close>)
    then show ?thesis unfolding seq_def [of "HTIteratorFree it"] by (rule bnd_stops)
  qed
  show ?thesis
    unfolding fill_table_def
  proof (rule undef_or_bnd, rule undef_orI(1), rule runs_to_mono [OF HashTableMakeIterator_law [OF H oom ne1]], elim conjE)
    fix it s2 assume it: "it = Suc (next_addr s)" and s2: "it_frame s s2" "heap_ok s2 S" "iterates s2 S t bs L it (concat L)"
    have "filling s2 S t r bs L t2 bs2 n 0 it (concat L)"
      using two_tables_frame [OF A s2(1,2)] r2 s2(3) oom it_frameD(7) [OF s2(1)] unfolding filling_def
      by (intro conjI exI [of _ r2] exI [of _ "replicate n []"]) (simp_all add: empty)
    moreover have "0 + length (concat L) \<le> 3 * n" using n(2) by simp
    ultimately have "undef_or (?loop it) s2 (\<lambda>failed s'.
        if failed then unchanged s' t r bs L else \<exists>S' m'. filling s' S' t r bs L t2 bs2 n m' it [])"
      by (rule resize_loop [OF ne2])
    then have "undef_or (?loop it) s2 (\<lambda>failed s3. undef_or (?rest it failed) s3 (\<lambda>_ s'. unchanged s' t r bs L))"
      by (rule undef_or_mono) (auto dest: swapped intro: undef_orI(2) split: if_splits)
    then show "undef_or (if it = NULL then FreeHashTable t2 NullFree else bnd (?loop it) (?rest it)) s2
        (\<lambda>_ s'. unchanged s' t r bs L)"
      using it by (simp add: undef_or_bnd del: InsertHashTable.simps)
  qed
qed

lemma resize_law:
  assumes heap: "heap_ok s S" and tab: "table s S t r bs L" and oom: "\<And>n. \<not> oom s n"
    and cnt: "num_elements r = of_nat (card (dom (contents L)))"
    and due: "3 * length L \<le> card (dom (contents L))" "card (dom (contents L)) \<le> 27 * length L" "9 * length L < 2 ^ 32"
  shows "undef_or (resize_with (InsertHashTable (Suc d)) t) s (\<lambda>_ s'. unchanged s' t r bs L)"
proof -
  note T = tableD [OF tab]
  let ?n = "9 * length L" and ?t2 = "Suc (next_addr s)"
  have crowd: "length L < card (dom (contents L))" using due(1) T(4) by linarith
  have c: "card (dom (contents L)) < 2 ^ 64" using due(2,3) by simp
  have full: "\<not> num_elements r < 3 * num_buckets r" using threshold [OF T(5) c] due(1) cnt T(3) by simp
  have "unat (num_elements r) = card (dom (contents L))"
    using c cnt by (simp add: unat_of_nat take_bit_nat_eq_self)
  then have ne: "num_elements r \<noteq> 0" using due(1) T(4) by fastforce
  have ne': "concat L \<noteq> []"
    using length_concat_table [OF tab] due(1) T(4) by (metis le_zero_eq list.size(3) mult_is_0 not_less0 zero_neq_numeral)
  have "num_buckets r * 9 = of_nat ?n" by (simp add: T(3))
  then have "unat (num_buckets r * 9) = ?n" using due(3) by (simp only: unat_of_nat) simp
  then have n: "unat (ucast (num_buckets r * 9) :: 32 word) = ?n"
    using due(3) by (simp add: unsigned_ucast_eq take_bit_nat_eq_self)
  then have n0: "(ucast (num_buckets r * 9) :: 32 word) \<noteq> 0"
    using T(4) by (metis mult_is_0 not_less0 unsigned_0 zero_neq_numeral)
  show ?thesis
    unfolding resize_with_fills [OF T(1) full]
  proof (rule undef_or_bnd, rule undef_orI(1), rule runs_to_mono [OF AllocateHashTable_allocates [OF heap oom n0]], elim conjE)
    fix t2 s1 assume t2: "t2 = ?t2" and al: "allocating s S (unat (ucast (num_buckets r * 9) :: 32 word)) (unat (ucast (num_buckets r * 9) :: 32 word)) s1"
    from new_two_tables [OF heap tab oom al [unfolded n] _ due(3)] T(4) obtain S1 r2 bs2 where
      "two_tables s1 S1 t r bs L ?t2 r2 bs2 (replicate ?n [])" "idle r2" "num_elements r2 = 0" "\<And>n. \<not> oom s1 n" by auto
    from fill_table_law [OF this _ _ ne ne' crowd] T(4) length_concat_table [OF tab] due(2)
    show "undef_or (if t2 = NULL then ret () else fill_table (Suc d) t t2) s1 (\<lambda>_ s'. unchanged s' t r bs L)"
      by (simp add: t2)
  qed
qed

text \<open>C38. A table never grows. When an insertion finds three entries for each bucket,
  \<open>ResizeHashtable\<close> allocates a table of nine times the buckets and tries to fill it with the value of a
  variable that is never set. Whatever values that variable has, either this is given up, and the
  pair goes into the table of the old size, or the run is undefined: the old entries, or those of
  the new table, are read after they were freed.\<close>

theorem table_never_grows:
  assumes "ht_ok nb t s M" and "3 * nb \<le> card (dom M)" "card (dom M) \<le> 27 * nb" and "9 * nb < 2 ^ 32"
  shows "InsertHashTable (Suc (Suc d)) t \<lparr>kv_key = k, kv_value = v\<rparr> s = Inl Undefined \<or>
    runs_to (InsertHashTable (Suc (Suc d)) t \<lparr>kv_key = k, kv_value = v\<rparr>) s (\<lambda>_ s'. ht_ok nb t s' (M(k \<mapsto> v)))"
proof -
  let ?kv = "\<lparr>kv_key = k, kv_value = v\<rparr>"
  from assms(1) obtain S r bs L where H: "heap_ok s S" "table s S t r bs L" "idle r" "length L = nb" "contents L = M"
    "num_elements r = of_nat (card (dom M))" and oom: "\<And>n. \<not> oom s n" and fin: "finite (dom M)" by (rule ht_okE) blast
  let ?r = "r\<lparr>wrt := 0\<rparr>" and ?s = "s\<lparr>ht_recs := (ht_recs s)(t \<mapsto> r\<lparr>wrt := 0\<rparr>)\<rparr>"
  have heap': "heap_ok ?s S"
    using heap_okD [OF H(1)] ll_inv_cong [of ?s s] tableD(1) [OF H(2)] by (simp add: heap_ok_def)
  have tab': "table ?s S t ?r bs L" using H(2) by (simp add: table_def chain_at_def)
  have room: "Suc (card (dom (contents L))) < 2 ^ 64" using assms(3,4) H(5) by simp
  have "undef_or (resize_with (InsertHashTable (Suc d)) t) ?s (\<lambda>_ s'. unchanged s' t ?r bs L)"
    by (rule resize_law [OF heap' tab']) (use oom H(4-6) assms in simp_all)
  then have "undef_or (seq (resize_with (InsertHashTable (Suc d)) t) (insert_locked t ?kv)) ?s (\<lambda>_ s'. ht_ok nb t s' (M(k \<mapsto> v)))"
  proof (intro undef_or_seq, elim undef_or_mono)
    fix s1 assume u: "unchanged s1 t ?r bs L"
    then obtain S1 where S1: "heap_ok s1 S1" "table s1 S1 t ?r bs L" and oom1: "\<And>n. \<not> oom s1 n"
      by (auto simp: unchanged_def)
    have "runs_to (insert_locked t ?kv) s1 (\<lambda>_ s'. ht_ok nb t s' (M(k \<mapsto> v)))"
    proof (rule runs_to_mono [OF insert_locked_law [OF S1 _ _ room]])
      show "idle (?r\<lparr>wrt := 1\<rparr>)" "wrt ?r = 0" using H(3) by (simp_all add: idle_def)
      fix res s' assume "inserted s1 S1 t ?r bs L ?kv res s'"
      then have "becomes s1 S1 t ?r bs L (M(k \<mapsto> v)) (of_nat (card (dom (M(k \<mapsto> v))))) s'"
        using no_oom_fails [OF oom1] H(5,6) card_upd [OF fin, of k v] by (auto simp: inserted_def split: if_splits)
      from becomes_ok [OF this H(4) refl oom1] show "ht_ok nb t s' (M(k \<mapsto> v))" ..
    qed
    then show "undef_or (insert_locked t ?kv) s1 (\<lambda>_ s'. ht_ok nb t s' (M(k \<mapsto> v)))" by (rule undef_orI)
  qed
  moreover have "runs_to (wait_wrt t) s (\<lambda>_ s'. s' = ?s)"
    by (simp add: wait_wrt_law [OF tableD(1) [OF H(2)] H(3)])
  then have "wait_wrt t s = Inr ((), ?s)" by (auto simp: runs_to_iff)
  ultimately show ?thesis
    unfolding InsertHashTable.simps(2) [of "Suc d"] insert_with_def
    by (simp add: seq_def [of "wait_wrt t"] bnd_def [of "wait_wrt t"] undef_or_def runs_to_def del: InsertHashTable.simps)
qed

text \<open>A table of one bucket and three keys is due to grow.\<close>

lemma table_never_grows_witness:
  "runs_to (bnd (AllocateHashTable 1) (\<lambda>t.
     bnd (InsertHashTable 1 t \<lparr>kv_key = 5, kv_value = 100\<rparr>) (\<lambda>_.
     bnd (InsertHashTable 1 t \<lparr>kv_key = 6, kv_value = 200\<rparr>) (\<lambda>_.
     InsertHashTable 1 t \<lparr>kv_key = 7, kv_value = 300\<rparr>)))) mem0
   (\<lambda>_ s. InsertHashTable 2 1 \<lparr>kv_key = 8, kv_value = 400\<rparr> s = Inl Undefined \<or>
     runs_to (InsertHashTable 2 1 \<lparr>kv_key = 8, kv_value = 400\<rparr>) s
       (\<lambda>_ s'. ht_ok 1 1 s' [5 \<mapsto> 100, 6 \<mapsto> 200, 7 \<mapsto> 300, 8 \<mapsto> 400]))"
  (is "runs_to ?m mem0 ?Q")
proof -
  note ins = ht_put [of 1 _ _ _ 0, folded One_nat_def]
  have "runs_to ?m mem0 (\<lambda>_ s. ht_ok 1 1 s [5 \<mapsto> 100, 6 \<mapsto> 200, 7 \<mapsto> 300])"
    unfolding wp
  proof (rule runs_to_mono [OF AllocateHashTable_law [OF heap_ok_mem0]], goal_cases)
    case (3 t s)
    then have t: "t = 1" by (simp add: mem0_def)
    have ok: "ht_ok 1 t s Map.empty" using 3 by (elim conjE) simp
    show ?case unfolding t
      by (rule runs_to_mono [OF ins [OF ok [unfolded t]]], simp, rule runs_to_mono [OF ins], assumption, simp,
          rule runs_to_mono [OF ins], assumption, simp, assumption)
  qed (simp_all add: mem0_def)
  then show ?thesis
  proof (rule runs_to_mono)
    fix x s assume ok: "ht_ok 1 1 s [5 \<mapsto> 100, 6 \<mapsto> 200, 7 \<mapsto> (300 :: addr)]"
    have "card (dom [5 :: 64 word \<mapsto> 100, 6 \<mapsto> 200, 7 \<mapsto> (300 :: addr)]) = 3" by simp
    then show "?Q x s"
      using table_never_grows [OF ok, of 0 8 400, folded numeral_2_eq_2] by (simp del: InsertHashTable.simps)
  qed
qed
end
