(* ===== verification/QueuePrint.thy ===== *)
theory QueuePrint
  imports Queue Bytes
begin

text \<open>
  \<open>print_queue\<close> of queue.c. What it prints is the value the definition returns, a list of the
  texts, octets (\<open>%c\<close>) and pointers (\<open>%p\<close>) in the order they are printed.
\<close>

section \<open>Operations\<close>

datatype printed = Text string | Octet "8 word" | Pointer addr

text \<open>\<open>print_chars\<close> is the \<open>for\<close> loop over one buffer, \<open>print_node\<close> the body of the outer loop.\<close>

definition print_chars :: "addr \<Rightarrow> 32 word \<Rightarrow> (mem, printed list) prog" where
  "print_chars buf buf_len =
     bnd (whileM (\<lambda>(i, out). ret (i < sint buf_len))
       (\<lambda>(i, out). bnd (read_bytes buf (nat i) 1) (\<lambda>bs.
          case initialised bs of
            None \<Rightarrow> halt Undefined
          | Some ws \<Rightarrow> ret (i + 1, out @ [Octet (hd ws), Text '' '']))) (0, [])) (\<lambda>(i, out).
     ret out)"

definition print_node :: "addr \<Rightarrow> (mem, addr \<times> printed list) prog" where
  "print_node cur =
     bnd (rd_qn cur) (\<lambda>n.
     bnd (print_chars (q_buf n) (q_buf_len n)) (\<lambda>out.
     ret (q_next n, out @ [Text ''('', Pointer cur, Text ('')'' @ [CHR 0x0A])])))"

definition print_queue :: "addr \<Rightarrow> (mem, printed list) prog" where
  "print_queue queue =
     bnd (rd_q queue) (\<lambda>r.
     bnd (whileM (\<lambda>(cur, out). ret (cur \<noteq> NULL))
       (\<lambda>(cur, out). bnd (print_node cur) (\<lambda>(cur', line). ret (cur', out @ line)))
       (q_head r, [Text (''QUEUE START'' @ [CHR 0x0A])])) (\<lambda>(cur, out).
     ret (out @ [Text (''QUEUE END'' @ [CHR 0x0A])])))"

section \<open>Laws\<close>

text \<open>The line of a node, when its buffer holds at least as many bytes as its length says.\<close>

definition octets_of :: "mem \<Rightarrow> qitem \<Rightarrow> 8 word list" where
  "octets_of s x = map the (take (nat (sint (snd x))) (the (chars s (fst x))))"

definition readable :: "mem \<Rightarrow> qitem \<Rightarrow> bool" where
  "readable s x \<longleftrightarrow> (\<exists>bs. chars s (fst x) = Some bs \<and> nat (sint (snd x)) \<le> length bs \<and>
     None \<notin> set (take (nat (sint (snd x))) bs))"

definition line_of :: "mem \<Rightarrow> addr \<times> qitem \<Rightarrow> printed list" where
  "line_of s = (\<lambda>(a, x). concat (map (\<lambda>b. [Octet b, Text '' '']) (octets_of s x)) @
     [Text ''('', Pointer a, Text ('')'' @ [CHR 0x0A])])"

lemma print_chars_law:
  assumes "readable s x"
  shows "runs_to (print_chars (fst x) (snd x)) s (\<lambda>out s'.
    out = concat (map (\<lambda>b. [Octet b, Text '' '']) (octets_of s x)) \<and> s' = s)"
proof -
  let ?n = "nat (sint (snd x))" and ?show = "\<lambda>bs. concat (map (\<lambda>b. [Octet b, Text '' '']) bs)"
  from assms obtain bs where bs: "chars s (fst x) = Some bs" "?n \<le> length bs" "None \<notin> set (take ?n bs)"
    by (auto simp: readable_def)
  let ?I = "\<lambda>(i, out) s'. s' = s \<and> 0 \<le> i \<and> nat i \<le> ?n \<and>
      out = ?show (map the (take (nat i) bs))"
  have oct: "octets_of s x = map the (take ?n bs)" by (simp add: octets_of_def bs)
  show ?thesis
    unfolding print_chars_def wp
  proof (rule runs_to_whileM [where I = ?I and m = "\<lambda>(i, out) _. nat (sint (snd x) - i)"], goal_cases)
    case (1 v s')
    obtain i out where v: "v = (i, out)" by force
    note I = 1
    show ?case
    proof (cases "i < sint (snd x)")
      case True
      then have i: "nat i < ?n" "nat i < length bs" using I v bs(2) by auto
      then have "bs ! nat i \<in> set (take ?n bs)" by (metis length_take min_less_iff_conj nth_mem nth_take)
      then obtain b where b: "bs ! nat i = Some b" using bs(3) by (metis not_None_eq)
      have one: "take 1 (drop (nat i) bs) = [Some b]"
        using i b by (simp add: take_Suc_conv_app_nth hd_drop_conv_nth flip: b)
      have "take (nat (i + 1)) bs = take (nat i) bs @ [Some b]"
        using I v i b by (simp add: nat_add_distrib take_Suc_conv_app_nth)
      then show ?thesis using True I v i one bs(1) by (auto simp: wp initialised_def)
    next
      case False
      then have "nat i = ?n" using I v by auto
      then show ?thesis using False I v by (simp add: wp oct)
    qed
  qed simp
qed

text \<open>The queue is printed from its head, the newest buffer first, and memory stays as it is.\<close>

lemma print_nodes:
  assumes "dchain mk_qnode (q_nodes s) p ns NULL" and "\<forall>n \<in> set ns. readable s (snd n)"
  shows "runs_to (whileM (\<lambda>(cur, out). ret (cur \<noteq> NULL))
     (\<lambda>(cur, out). bnd (print_node cur) (\<lambda>(cur', line). ret (cur', out @ line)))
     (first_of ns NULL, out)) s (\<lambda>(cur, out') s'. s' = s \<and> out' = out @ concat (map (line_of s) ns))"
  using assms
proof (induction ns arbitrary: p out)
  case Nil
  then show ?case by (subst whileM_unfold) (simp add: wp)
next
  case (Cons n ns)
  obtain a x where n: "n = (a, x)" by (cases n)
  from Cons.prems n have a: "a \<noteq> NULL" "q_nodes s a = Some (mk_qnode x (first_of ns NULL) p)"
    and rest: "dchain mk_qnode (q_nodes s) a ns NULL" and x: "readable s x" by auto
  have "runs_to (print_node a) s (\<lambda>(cur, line) s'. cur = first_of ns NULL \<and> line = line_of s n \<and> s' = s)"
    unfolding print_node_def wp a option.case
    using print_chars_law [OF x] by (auto simp: wp n line_of_def elim!: runs_to_mono)
  then have line: "print_node a s = Inr ((first_of ns NULL, line_of s n), s)"
    by (auto simp: runs_to_iff)
  show ?case
    using Cons.IH [OF rest, of "out @ line_of s n"] Cons.prems(2)
    by (subst whileM_unfold) (simp add: wp n a(1), simp add: runs_to_def [of "print_node a"] line [unfolded n] runs_to_ret)
qed

lemma print_queue_law:
  assumes inv: "q_inv s S" and q: "S q = Some ns" and "\<forall>n \<in> set ns. readable s (snd n)"
  shows "runs_to (print_queue q) s (\<lambda>out s'. s' = s \<and> out =
    Text (''QUEUE START'' @ [CHR 0x0A]) # concat (map (line_of s) ns) @ [Text (''QUEUE END'' @ [CHR 0x0A])])"
proof -
  from queue_recordE [OF inv q] obtain m where r: "queues s q = Some \<lparr>q_head = first_of ns NULL,
    q_tail = last_of NULL ns, q_mutex = m, q_wrt = Suc 0\<rparr>" .
  show ?thesis
    unfolding print_queue_def wp r option.case queue.simps
    by (rule runs_to_mono [OF print_nodes [OF queue_atD(3) [OF inv q] assms(3)]]) (auto simp: wp)
qed
end
