(* ===== verification/Spec2Isabelle.thy ===== *)
theory Spec2Isabelle
  imports LinkedListSort EndpointsSpec EndToEnd Reassembly ReaderRace Sync Hashing TableGrow QueuePrint
begin

text \<open>
  Verification of the C program in src/proj3: a client and a server that cut a buffer into
  blocks, send the blocks over several TCP connections at once and put them together again in
  order at the other end.

  \<^bold>\<open>The program.\<close> A process that has a buffer to send (\<open>test_writing\<close> in client.c, \<open>bounce_buffer\<close>
  in server.c) calls \<open>multiplex_write_queues\<close> (multiplex_writer.c). It announces the buffer by
  an \<open>init_block\<close> and cuts it into \<open>data_block\<close>s (multiplex_standards.h), all with the tag of
  the buffer, and puts each on one of several queues (queue.c). One thread for each queue,
  \<open>listen_for_blocks\<close>, takes the blocks off it and sends them on its connection (utils.c). At the
  other end one thread for each connection (multiplex_reader.c) cuts the stream into blocks and
  gives them to \<open>handle_block\<close>. All these threads share one hash table (HashTable.c, whose chains
  are the lists of LinkedList.c) from tags to the buffers that are being put together. A buffer
  that is complete goes to the handler of the process, but not before all buffers with smaller
  tags; a block that comes before its \<open>init_block\<close> waits in a queue of the record of its buffer.
  The connections are agreed on by a handshake over UDP (client.c, server.c).

  \<^bold>\<open>The language\<close> (Prelude, Memory, Bytes, Host). A C function is a function from the memory to a
  value and a new memory, or to the reason why it stopped: undefined behaviour, a semaphore or
  lock that cannot be had, an endless loop, the end of the stack, \<open>exit\<close>. Memory is one map from
  addresses to objects for each struct of the headers; every access to a pointer that is null,
  dangling or out of range is undefined; \<open>malloc\<close> fails where the memory's \<open>oom\<close> says so. Machine
  integers keep their width where they wrap (\<open>uint32_t\<close>, \<open>uint64_t\<close>), an \<open>int\<close> that is computed
  with is an integer whose overflow is undefined. A loop is \<open>whileM\<close>, whose value is \<open>Diverges\<close>
  exactly when it does not end. \<open>runs_to m s Q\<close> says that \<open>m\<close> returns from \<open>s\<close> and then
  satisfies \<open>Q\<close>: every such theorem is one of termination and of memory safety too. Host adds the
  process around the memory: sockets, datagrams, the clock, \<open>rand\<close>, and the threads that were
  started; \<open>lift\<close> runs a function of the memory in it.

  \<^bold>\<open>The data structures.\<close>
  \<^item> LinkedList and LinkedListSort: LinkedList.c, the list record, its nodes and its iterators. The
    invariant \<open>ll_inv s S\<close> says which list of (node, payload) pairs each record stands for, that
    the nodes of different lists are disjoint and that no other node exists. Each operation has a
    law on that list, for every position of an iterator, empty lists and failing \<open>malloc\<close>
    included; the bubble sort ends and is the stable sort.
  \<^item> Queue, QueueBytes, QueuePrint: queue.c over the same theory of chains (Chains), refinement of
    the abstract FIFO queue of Fifo, and what \<open>print_queue\<close> prints.
  \<^item> HashTable, HashTableSpec, HashTableMap, MapStore: HashTable.c. \<open>ht_ok nb t s M\<close>: the table
    \<open>t\<close> of \<open>nb\<close> buckets stands for the finite map \<open>M\<close>. Insert, lookup and remove are those of the
    map as long as the table does not grow, that is while it has fewer than three entries for each
    bucket. Under any pattern of failing \<open>malloc\<close> the invariant stays, and the laws say exactly when
    an operation fails (\<open>search_fails\<close>, \<open>entry_fails\<close>), what it returns and what \<open>num_elements\<close> is
    afterwards, which a failed insertion leaves one too high.
  \<^item> TableFree: what \<open>FreeHashTable\<close> does instead of freeing a table. TableIter: an iterator goes
    through every pair of a table once, and deletes the pair it is on; where the iterator is after a
    deletion is not stated. TableGrow: what happens when a table should grow:
    \<open>ResizeHashtable\<close> inserts the values of an uninitialised variable into a second table, and either
    gives that up or runs into undefined behaviour. Hashing: the hash is FNV-1a.
  \<^item> Sync: the semaphores of the table under any interleaving of any number of threads, as a step
    relation: exclusion, no lost update of the reader count, no deadlock; and the loss of
    exclusion when a table grows. Lemmas at its end tie its steps to the definitions of HashTable.

  \<^bold>\<open>The sending side.\<close>
  \<^item> Standards: the bytes of the two kinds of blocks. Chunks: pieces of a buffer, which put it
    together again in any order. Float32: the two lines that compute with a \<open>float\<close>.
  \<^item> Writer, WriterSpec: \<open>multiplex_write_queues\<close> and what it queues, for buffers of at least one
    byte for each queue and fewer than \<open>2\<^sup>3\<^sup>1 - 16384\<close>, and fewer than \<open>2\<^sup>2\<^sup>4\<close> queues, so that the
    conversions to \<open>int\<close> and \<open>float\<close> are exact; and the shorter buffers, for which it never returns.
  \<^item> Utils, Sender: \<open>send_tcp\<close>, \<open>recieve_tcp\<close>, and the thread that sends; a short or failed
    \<open>send\<close> is in the model, and what it loses is a theorem.

  \<^bold>\<open>The receiving side.\<close>
  \<^item> Utils: the framing of \<open>recieve_tcp_block\<close>, whatever segments the stream comes in.
  \<^item> Reader: multiplex_reader.c. The mutual recursion of \<open>handle_block\<close> and the drain of a waiting
    queue, and the recursion of \<open>handle_finished_buffer_next\<close>, are bounded by the frames of the
    stack, \<open>fuel\<close>; two more than the number of buffers are enough, and the theorems say so.
  \<^item> AbstractReader: the same functions on a map from tags to entries, without memory. Delivery: the
    abstract reader delivers in order. ReaderState, ReaderSim, ReaderBlocks: the memory represents
    the abstract state (\<open>rep\<close>, \<open>represents\<close>), and every function of Reader simulates its abstract
    counterpart, for every handler that keeps the contract of the locales \<open>buffer_handler\<close> and
    \<open>net_handler\<close>.
  \<^item> Handlers, Bounce: the handlers of client.c and server.c; \<open>send_buffer\<close> and \<open>bounce_buffer\<close> keep
    that contract (the interpretations \<open>send\<close> and \<open>bounce\<close>). ReaderSpec: the properties of the
    receiving side, where the threads take turns block by block, in any order. At most 768 buffers:
    the table of 256 buckets does not grow before it has three entries for each.
  \<^item> ReaderRace: two calls interleaved inside \<open>handle_finished_buffer_prev\<close>, which lose a buffer.

  \<^bold>\<open>The whole.\<close> Reassembly takes one buffer from \<open>multiplex_write_queues\<close> to \<open>store_data\<close> of the
  receiver, for any order of its blocks. EndToEnd joins both sides: whatever order the threads of both processes take their
  turns in and whatever segments the network makes, the file at the other end gets the bytes of
  all the buffers in order. Endpoints models client.c and server.c from \<open>main\<close> on, EndpointsSpec
  proves the handshake, the choice of a port, the set-up of the connections and their failures.

  \<^bold>\<open>Interfaces.\<close> \<open>fifo\<close> (Fifo) is interpreted on queue.c and twice on LinkedList.c; \<open>map_store\<close>
  (MapStore) on HashTable.c; \<open>buffer_handler\<close>, extended by \<open>net_handler\<close> (ReaderSim, ReaderBlocks),
  on the two handlers of server.c that return.

  \<^bold>\<open>Assumptions.\<close> A little-endian machine whose \<open>int\<close> has 32 bits; \<open>float\<close> and \<open>double\<close> are those of
  IEEE 754; TCP delivers the bytes that were sent, in order (the property of EndToEnd says so by
  \<open>linked\<close>); \<open>fwrite\<close> writes everything; \<open>rand\<close>, the clock, the network and the failures of
  \<open>malloc\<close> are arbitrary, given by the initial state.

  \<^bold>\<open>Not modelled.\<close> The interleaving of threads inside an operation, apart from Sync and ReaderRace:
  elsewhere a thread runs one round of its loop at a time, and a thread that would wait stops the
  run (\<open>Blocked\<close>). The scheduler, the condition variable (a wait is where a round ends) and
  spurious wake-ups. The \<open>close\<close> of the connection when \<open>listen_for_block\<close> ends at the end of the
  stream: nothing is read from the descriptor afterwards. The parameter \<open>timeout\<close> of
  \<open>recieve_tcp_block\<close>, which its only caller sets to 0; its local \<open>index\<close> is a natural number, which
  differs from the \<open>int\<close> only after \<open>2\<^sup>3\<^sup>1\<close> bytes of one block. Messages to the terminal, apart from \<open>print_queue\<close>, and the result of
  \<open>setsockopt\<close>. The declarations without a body at the head of multiplex_writer.c (\<open>send_arg\<close>,
  \<open>multi_send\<close>, \<open>queue_send\<close>, \<open>fill_queue\<close>), which nothing uses. The headers HashTable.h and
  LinkedList.h are comments and prototypes of the functions that are modelled. proj1 and proj2 are
  Java programs that share no code with this one.
\<close>

end
